(* ===== verification/Prelude.thy ===== *)
theory Prelude
  imports Main "HOL-Library.List_Lexorder" "HOL-Library.Char_ord"
    "HOL-Library.Product_Lexorder" "HOL-Library.Word"
begin

text \<open>
  What every component of the development shares: fallible results (Rust's \<open>Result\<close> and its
  \<open>?\<close> operator), checked and wrapping 64-bit integer arithmetic, and the ordered map of the
  standard library (\<open>BTreeMap\<close>) as a strictly sorted association list.
\<close>

section \<open>Collections of simplification rules\<close>

named_theorems result_simps \<open>unfolding and inversion of fallible computations\<close>
named_theorems checked_defs \<open>definitions of the checked integer operations\<close>
named_theorems btree_simps \<open>lookup, key-set and order facts of sorted association lists\<close>

section \<open>Fallible computations\<close>

type_synonym ('e, 'a) result = "'e + 'a"

abbreviation Ok :: "'a \<Rightarrow> ('e, 'a) result" where
  "Ok \<equiv> Inr"

abbreviation Err :: "'e \<Rightarrow> ('e, 'a) result" where
  "Err \<equiv> Inl"

text \<open>The \<open>?\<close> operator: continue with the value, or return the error.\<close>

definition bindR :: "('e, 'a) result \<Rightarrow> ('a \<Rightarrow> ('e, 'b) result) \<Rightarrow> ('e, 'b) result" where
  "bindR r f = (case r of Inl e \<Rightarrow> Err e | Inr x \<Rightarrow> f x)"

text \<open>\<open>Result::map_err\<close>, also the implicit \<open>From\<close> conversion of \<open>?\<close>.\<close>

definition map_err :: "('e \<Rightarrow> 'f) \<Rightarrow> ('e, 'a) result \<Rightarrow> ('f, 'a) result" where
  "map_err g r = (case r of Inl e \<Rightarrow> Err (g e) | Inr x \<Rightarrow> Ok x)"

text \<open>\<open>Option::ok_or\<close>.\<close>

definition ok_or :: "'a option \<Rightarrow> 'e \<Rightarrow> ('e, 'a) result" where
  "ok_or x e = (case x of None \<Rightarrow> Err e | Some y \<Rightarrow> Ok y)"

text \<open>A \<open>for\<close> loop that pushes one fallible value per element.\<close>

fun mapR :: "('a \<Rightarrow> ('e, 'b) result) \<Rightarrow> 'a list \<Rightarrow> ('e, 'b list) result" where
  "mapR f [] = Ok []"
| "mapR f (x # xs) = bindR (f x) (\<lambda>y. bindR (mapR f xs) (\<lambda>ys. Ok (y # ys)))"

text \<open>A \<open>for\<close> loop that threads a state and may return early with an error.\<close>

fun foldR :: "('s \<Rightarrow> 'a \<Rightarrow> ('e, 's) result) \<Rightarrow> 's \<Rightarrow> 'a list \<Rightarrow> ('e, 's) result" where
  "foldR f s [] = Ok s"
| "foldR f s (x # xs) = bindR (f s x) (\<lambda>t. foldR f t xs)"

definition is_ok :: "('e, 'a) result \<Rightarrow> bool" where
  "is_ok r = (case r of Inl _ \<Rightarrow> False | Inr _ \<Rightarrow> True)"

lemma bindR_Ok [simp]: "bindR (Ok x) f = f x"
  by (simp add: bindR_def)

lemma bindR_Err [simp]: "bindR (Err e) f = Err e"
  by (simp add: bindR_def)

lemma bindR_eq_Ok [result_simps]: "bindR r f = Ok y \<longleftrightarrow> (\<exists>x. r = Ok x \<and> f x = Ok y)"
  by (cases r) auto

lemma bindR_eq_Err [result_simps]:
  "bindR r f = Err e \<longleftrightarrow> r = Err e \<or> (\<exists>x. r = Ok x \<and> f x = Err e)"
  by (cases r) auto

lemma bindR_cong [fundef_cong]:
  assumes "r = r'" and "\<And>x. r' = Ok x \<Longrightarrow> f x = g x"
  shows "bindR r f = bindR r' g"
  using assms by (cases r') auto

lemma bindR_assoc: "bindR (bindR r f) g = bindR r (\<lambda>x. bindR (f x) g)"
  by (cases r) auto

lemma map_err_simps [simp]:
  "map_err g (Ok x) = Ok x"
  "map_err g (Err e) = Err (g e)"
  by (simp_all add: map_err_def)

lemma map_err_eq_Ok [result_simps]: "map_err g r = Ok y \<longleftrightarrow> r = Ok y"
  by (cases r) auto

lemma map_err_eq_Err [result_simps]: "map_err g r = Err e \<longleftrightarrow> (\<exists>d. r = Err d \<and> e = g d)"
  by (cases r) auto

lemma ok_or_simps [simp]:
  "ok_or (Some y) e = Ok y"
  "ok_or None e = Err e"
  by (simp_all add: ok_or_def)

lemma ok_or_eq_Ok [result_simps]: "ok_or x e = Ok y \<longleftrightarrow> x = Some y"
  by (cases x) auto

lemma ok_or_eq_Err [result_simps]: "ok_or x e = Err d \<longleftrightarrow> x = None \<and> d = e"
  by (cases x) auto

lemma is_ok_simps [simp]: "is_ok (Ok x)" "\<not> is_ok (Err e)"
  by (simp_all add: is_ok_def)

lemma is_ok_iff: "is_ok r \<longleftrightarrow> (\<exists>x. r = Ok x)"
  by (cases r) auto

lemma mapR_cong [fundef_cong]:
  assumes "xs = ys" and "\<And>x. x \<in> set ys \<Longrightarrow> f x = g x"
  shows "mapR f xs = mapR g ys"
  using assms by (induction ys arbitrary: xs) (auto cong: bindR_cong)

lemma mapR_eq_Ok: "mapR f xs = Ok ys \<longleftrightarrow> list_all2 (\<lambda>x y. f x = Ok y) xs ys"
proof (induction xs arbitrary: ys)
  case Nil
  then show ?case by auto
next
  case (Cons x xs)
  then show ?case by (cases ys) (auto simp: bindR_eq_Ok)
qed

lemma mapR_all_Ok: "(\<And>x. x \<in> set xs \<Longrightarrow> f x = Ok (g x)) \<Longrightarrow> mapR f xs = Ok (map g xs)"
  by (induction xs) auto

lemma mapR_append:
  "mapR f (xs @ ys) = bindR (mapR f xs) (\<lambda>us. bindR (mapR f ys) (\<lambda>vs. Ok (us @ vs)))"
proof (induction xs)
  case Nil
  then show ?case by (cases "mapR f ys") auto
next
  case (Cons x xs)
  then show ?case
    by (cases "f x"; cases "mapR f xs"; cases "mapR f ys") auto
qed

lemma mapR_length: "mapR f xs = Ok ys \<Longrightarrow> length ys = length xs"
  by (auto simp: mapR_eq_Ok dest: list_all2_lengthD)

lemma mapR_nth: "mapR f xs = Ok ys \<Longrightarrow> i < length xs \<Longrightarrow> f (xs ! i) = Ok (ys ! i)"
  by (auto simp: mapR_eq_Ok dest: list_all2_nthD)

lemma mapR_Err: "mapR f xs = Err e \<Longrightarrow> \<exists>x \<in> set xs. f x = Err e"
  by (induction xs) (auto simp: bindR_eq_Err)

lemma mapR_ok_iff: "is_ok (mapR f xs) \<longleftrightarrow> (\<forall>x \<in> set xs. is_ok (f x))"
proof (induction xs)
  case Nil
  then show ?case by simp
next
  case (Cons x xs)
  then show ?case by (cases "f x"; cases "mapR f xs") auto
qed

lemma foldR_append: "foldR f s (xs @ ys) = bindR (foldR f s xs) (\<lambda>t. foldR f t ys)"
  by (induction xs arbitrary: s) (simp_all add: bindR_assoc)

lemma foldR_cong [fundef_cong]:
  assumes "xs = ys" "s = t" and "\<And>u x. x \<in> set ys \<Longrightarrow> f u x = g u x"
  shows "foldR f s xs = foldR g t ys"
  using assms by (induction ys arbitrary: xs s t) (auto cong: bindR_cong)

lemma foldR_inv:
  assumes "foldR f s xs = Ok t" and "P s"
    and "\<And>u x v. x \<in> set xs \<Longrightarrow> P u \<Longrightarrow> f u x = Ok v \<Longrightarrow> P v"
  shows "P t"
  using assms by (induction xs arbitrary: s) (auto simp: bindR_eq_Ok)

lemma foldR_Err: "foldR f s xs = Err e \<Longrightarrow> \<exists>t. \<exists>x \<in> set xs. f t x = Err e"
  by (induction xs arbitrary: s) (auto simp: bindR_eq_Err, blast)

lemma foldR_total: "(\<And>u x. x \<in> set xs \<Longrightarrow> f u x = Ok (g u x)) \<Longrightarrow> foldR f s xs = Ok (foldl g s xs)"
  by (induction xs arbitrary: s) auto

text \<open>\<open>slice::get\<close> and \<open>Iterator::position\<close>.\<close>

definition nth_opt :: "'a list \<Rightarrow> nat \<Rightarrow> 'a option" where
  "nth_opt xs i = (if i < length xs then Some (xs ! i) else None)"

fun position :: "('a \<Rightarrow> bool) \<Rightarrow> 'a list \<Rightarrow> nat option" where
  "position P [] = None"
| "position P (x # xs) = (if P x then Some 0 else map_option Suc (position P xs))"

lemma nth_opt_Some [result_simps]: "nth_opt xs i = Some v \<longleftrightarrow> i < length xs \<and> v = xs ! i"
  by (auto simp: nth_opt_def)

lemma nth_opt_None [result_simps]: "nth_opt xs i = None \<longleftrightarrow> length xs \<le> i"
  by (auto simp: nth_opt_def)

lemma nth_opt_lt [simp]: "i < length xs \<Longrightarrow> nth_opt xs i = Some (xs ! i)"
  by (simp add: nth_opt_def)

lemma position_Some:
  "position P xs = Some i \<longleftrightarrow> i < length xs \<and> P (xs ! i) \<and> (\<forall>j < i. \<not> P (xs ! j))"
proof (induction xs arbitrary: i)
  case (Cons x xs)
  then show ?case
    by (cases i) (auto simp: less_Suc_eq_0_disj nth_Cons split: nat.splits)
qed simp

lemma position_None: "position P xs = None \<longleftrightarrow> (\<forall>x \<in> set xs. \<not> P x)"
  by (induction xs) auto

section \<open>64-bit integers\<close>

text \<open>
  An \<open>i64\<close> is an \<open>int\<close> in the range below; the operations of the standard library that the code
  uses on it are written with their overflow behaviour.
\<close>

definition i64_min :: int where
  "i64_min = - (2 ^ 63)"

definition i64_max :: int where
  "i64_max = 2 ^ 63 - 1"

definition in_i64 :: "int \<Rightarrow> bool" where
  "in_i64 x \<longleftrightarrow> i64_min \<le> x \<and> x \<le> i64_max"

definition checked :: "int \<Rightarrow> int option" where
  [checked_defs]: "checked x = (if in_i64 x then Some x else None)"

definition checked_add :: "int \<Rightarrow> int \<Rightarrow> int option" where
  [checked_defs]: "checked_add x y = checked (x + y)"

definition checked_sub :: "int \<Rightarrow> int \<Rightarrow> int option" where
  [checked_defs]: "checked_sub x y = checked (x - y)"

definition checked_mul :: "int \<Rightarrow> int \<Rightarrow> int option" where
  [checked_defs]: "checked_mul x y = checked (x * y)"

definition checked_neg :: "int \<Rightarrow> int option" where
  [checked_defs]: "checked_neg x = checked (- x)"

text \<open>Rust divides towards zero, and the remainder has the sign of the dividend.\<close>

definition trunc_div :: "int \<Rightarrow> int \<Rightarrow> int" where
  "trunc_div x y = sgn x * sgn y * (\<bar>x\<bar> div \<bar>y\<bar>)"

definition trunc_rem :: "int \<Rightarrow> int \<Rightarrow> int" where
  "trunc_rem x y = sgn x * (\<bar>x\<bar> mod \<bar>y\<bar>)"

definition checked_div :: "int \<Rightarrow> int \<Rightarrow> int option" where
  [checked_defs]: "checked_div x y =
    (if y = 0 \<or> (x = i64_min \<and> y = - 1) then None else Some (trunc_div x y))"

definition checked_rem :: "int \<Rightarrow> int \<Rightarrow> int option" where
  [checked_defs]: "checked_rem x y =
    (if y = 0 \<or> (x = i64_min \<and> y = - 1) then None else Some (trunc_rem x y))"

text \<open>Plain \<open>+=\<close> on an \<open>i64\<close>, which wraps in a release build.\<close>

definition wrap64 :: "int \<Rightarrow> int" where
  "wrap64 x = (x + 2 ^ 63) mod 2 ^ 64 - 2 ^ 63"

definition wrapping_add :: "int \<Rightarrow> int \<Rightarrow> int" where
  "wrapping_add x y = wrap64 (x + y)"

text \<open>The range of an \<open>i128\<close>.\<close>

definition in_i128 :: "int \<Rightarrow> bool" where
  "in_i128 x \<longleftrightarrow> - (2 ^ 127) \<le> x \<and> x < 2 ^ 127"

lemmas i64_defs = in_i64_def i64_min_def i64_max_def

lemma checked_eq_Some [result_simps]: "checked x = Some y \<longleftrightarrow> y = x \<and> in_i64 x"
  by (auto simp: checked_defs)

lemma checked_eq_None [result_simps]: "checked x = None \<longleftrightarrow> \<not> in_i64 x"
  by (auto simp: checked_defs)

lemma checked_add_eq_Some [result_simps]: "checked_add x y = Some z \<longleftrightarrow> z = x + y \<and> in_i64 (x + y)"
  by (auto simp: checked_add_def result_simps)

lemma checked_add_eq_None [result_simps]: "checked_add x y = None \<longleftrightarrow> \<not> in_i64 (x + y)"
  by (auto simp: checked_add_def result_simps)

lemma checked_mul_eq_Some [result_simps]: "checked_mul x y = Some z \<longleftrightarrow> z = x * y \<and> in_i64 (x * y)"
  by (auto simp: checked_mul_def result_simps)

lemma checked_neg_eq_Some [result_simps]: "checked_neg x = Some z \<longleftrightarrow> z = - x \<and> in_i64 (- x)"
  by (auto simp: checked_neg_def result_simps)

lemma in_i64_0 [simp]: "in_i64 0"
  by (simp add: i64_defs)

lemma in_i64_1 [simp]: "in_i64 1" "in_i64 (- 1)"
  by (simp_all add: i64_defs)

lemma wrap64_id: "in_i64 x \<Longrightarrow> wrap64 x = x"
  by (simp add: wrap64_def i64_defs)

lemma in_i64_wrap64 [simp]: "in_i64 (wrap64 x)"
proof -
  have "0 \<le> (x + 2 ^ 63) mod 2 ^ 64" and "(x + 2 ^ 63) mod 2 ^ 64 < (2 ^ 64 :: int)"
    by simp_all
  then show ?thesis by (simp add: wrap64_def i64_defs)
qed

lemma wrap64_wrap64_add: "wrap64 (wrap64 x + y) = wrap64 (x + y)"
proof -
  have "((x + 2 ^ 63) mod 2 ^ 64 - 2 ^ 63 + y + 2 ^ 63) mod 2 ^ 64 = (x + y + 2 ^ 63) mod (2 ^ 64 :: int)"
    by (simp add: mod_simps algebra_simps)
  then show ?thesis by (simp add: wrap64_def)
qed

lemma trunc_div_bound: "\<bar>trunc_div x y\<bar> \<le> \<bar>x\<bar>"
proof -
  have "\<bar>x\<bar> div \<bar>y\<bar> \<le> \<bar>x\<bar>"
    using zdiv_mono2 [of "\<bar>x\<bar>" 1 "\<bar>y\<bar>"] by (cases "y = 0") auto
  moreover have "0 \<le> \<bar>x\<bar> div \<bar>y\<bar>"
    by (cases "y = 0") (auto simp: pos_imp_zdiv_nonneg_iff)
  ultimately show ?thesis
    by (auto simp: trunc_div_def abs_mult abs_sgn_eq)
qed

lemma trunc_rem_bound: "\<bar>trunc_rem x y\<bar> \<le> \<bar>x\<bar>"
proof -
  have "0 \<le> \<bar>x\<bar> mod \<bar>y\<bar>" and "\<bar>x\<bar> mod \<bar>y\<bar> \<le> \<bar>x\<bar>"
    by (cases "y = 0"; auto simp: zmod_le_nonneg_dividend)+
  then show ?thesis
    by (auto simp: trunc_rem_def abs_mult abs_sgn_eq)
qed

lemma trunc_div_rem: "trunc_div x y * y + trunc_rem x y = x"
proof -
  have "sgn x * sgn y * (\<bar>x\<bar> div \<bar>y\<bar>) * y = sgn x * (\<bar>x\<bar> div \<bar>y\<bar> * \<bar>y\<bar>)"
    by (simp add: abs_sgn algebra_simps)
  then have "trunc_div x y * y + trunc_rem x y = sgn x * (\<bar>x\<bar> div \<bar>y\<bar> * \<bar>y\<bar> + \<bar>x\<bar> mod \<bar>y\<bar>)"
    by (simp only: trunc_div_def trunc_rem_def distrib_left)
  also have "\<dots> = x"
    by (simp add: mult_sgn_abs)
  finally show ?thesis .
qed

lemma in_i64_trunc_rem: "in_i64 x \<Longrightarrow> in_i64 (trunc_rem x y)"
proof -
  assume x: "in_i64 x"
  show ?thesis
  proof (cases "0 \<le> x")
    case True
    then show ?thesis
      using x trunc_rem_bound [of x y] by (auto simp: i64_defs abs_if split: if_splits)
  next
    case False
    have "0 \<le> \<bar>x\<bar> mod \<bar>y\<bar>" by (cases "y = 0") auto
    with False have "trunc_rem x y \<le> 0" by (simp add: trunc_rem_def)
    then show ?thesis
      using x False trunc_rem_bound [of x y] by (auto simp: i64_defs abs_if split: if_splits)
  qed
qed

lemma in_i64_checked:
  "checked_add x y = Some z \<Longrightarrow> in_i64 z"
  "checked_sub x y = Some z \<Longrightarrow> in_i64 z"
  "checked_mul x y = Some z \<Longrightarrow> in_i64 z"
  "checked_neg x = Some z \<Longrightarrow> in_i64 z"
  by (auto simp: checked_defs split: if_splits)

lemma in_i64_checked_rem: "in_i64 x \<Longrightarrow> checked_rem x y = Some z \<Longrightarrow> in_i64 z"
  by (auto simp: checked_rem_def in_i64_trunc_rem split: if_splits)

lemma trunc_div_min:
  assumes "\<bar>y\<bar> \<noteq> 1" shows "\<bar>trunc_div x y\<bar> \<le> \<bar>x\<bar> div 2"
proof (cases "y = 0")
  case False
  with assms have "2 \<le> \<bar>y\<bar>" by auto
  then have "\<bar>x\<bar> div \<bar>y\<bar> \<le> \<bar>x\<bar> div 2" by (simp add: zdiv_mono2)
  moreover have "0 \<le> \<bar>x\<bar> div \<bar>y\<bar>" using False by (simp add: pos_imp_zdiv_nonneg_iff)
  ultimately show ?thesis by (auto simp: trunc_div_def abs_mult abs_sgn_eq)
qed (simp add: trunc_div_def)

lemma in_i64_checked_div: "in_i64 x \<Longrightarrow> checked_div x y = Some z \<Longrightarrow> in_i64 z"
proof -
  assume x: "in_i64 x" and z: "checked_div x y = Some z"
  then have y: "y \<noteq> 0" "\<not> (x = i64_min \<and> y = - 1)" and zd: "z = trunc_div x y"
    by (auto simp: checked_div_def split: if_splits)
  consider "\<bar>y\<bar> \<noteq> 1" | "y = 1" | "y = - 1" by linarith
  then show ?thesis
  proof cases
    case 1
    have "\<bar>z\<bar> \<le> \<bar>x\<bar> div 2" using trunc_div_min [OF 1] zd by simp
    with x show ?thesis by (auto simp: i64_defs)
  next
    case 2
    then have "z = x" using zd by (simp add: trunc_div_def mult_sgn_abs)
    then show ?thesis using x by simp
  next
    case 3
    then have "z = - x" using zd by (simp add: trunc_div_def mult_sgn_abs)
    then show ?thesis using x y 3 by (auto simp: i64_defs)
  qed
qed

section \<open>Decimal text\<close>

text \<open>The \<open>Display\<close> of an unsigned integer.\<close>

fun show_nat :: "nat \<Rightarrow> string" where
  "show_nat n = (if n < 10 then [char_of (48 + n)] else show_nat (n div 10) @ [char_of (48 + n mod 10)])"

declare show_nat.simps [simp del]

end
