(* ===== verification/Ordered_Map.thy ===== *)
theory Ordered_Map
  imports Prelude
begin

text \<open>
  \<open>BTreeMap\<close> of the standard library as a strictly sorted association list: iteration is the list
  itself, \<open>range(lo..)\<close> a suffix of it, \<open>first_key_value\<close> and \<open>last_key_value\<close> its ends. The
  abstraction function is \<^const>\<open>map_of\<close>; on sorted lists it is injective, so two maps with the
  same lookups iterate identically.
\<close>

type_synonym ('k, 'v) btree = "('k \<times> 'v) list"

definition bt_ok :: "('k::linorder, 'v) btree \<Rightarrow> bool" where
  "bt_ok m \<longleftrightarrow> sorted_wrt (<) (map fst m)"

fun bt_insert :: "'k::linorder \<Rightarrow> 'v \<Rightarrow> ('k, 'v) btree \<Rightarrow> ('k, 'v) btree" where
  "bt_insert k v [] = [(k, v)]"
| "bt_insert k v ((k', v') # m) =
    (if k < k' then (k, v) # (k', v') # m
     else if k = k' then (k, v) # m
     else (k', v') # bt_insert k v m)"

definition bt_remove :: "'k \<Rightarrow> ('k, 'v) btree \<Rightarrow> ('k, 'v) btree" where
  "bt_remove k m = filter (\<lambda>(k', _). k' \<noteq> k) m"

definition bt_get :: "('k, 'v) btree \<Rightarrow> 'k \<Rightarrow> 'v option" where
  "bt_get m k = map_of m k"

definition bt_get_or :: "'v \<Rightarrow> ('k, 'v) btree \<Rightarrow> 'k \<Rightarrow> 'v" where
  "bt_get_or d m k = (case map_of m k of None \<Rightarrow> d | Some v \<Rightarrow> v)"

definition bt_range_from :: "'k::linorder \<Rightarrow> ('k, 'v) btree \<Rightarrow> ('k, 'v) btree" where
  "bt_range_from lo m = dropWhile (\<lambda>(k, _). k < lo) m"

lemma bt_ok_simps [simp]:
  "bt_ok []"
  "bt_ok ((k, v) # m) \<longleftrightarrow> (\<forall>k' \<in> fst ` set m. k < k') \<and> bt_ok m"
  by (auto simp: bt_ok_def)

lemma map_of_bt_insert [btree_simps]: "map_of (bt_insert k v m) = (map_of m)(k \<mapsto> v)"
  by (induction k v m rule: bt_insert.induct) (auto simp: fun_eq_iff)

lemma map_of_bt_remove [btree_simps]: "map_of (bt_remove k m) = (map_of m)(k := None)"
  by (induction m) (auto simp: bt_remove_def fun_eq_iff)

lemma bt_get_insert [btree_simps]: "bt_get (bt_insert k v m) k' = (if k' = k then Some v else bt_get m k')"
  by (simp add: bt_get_def btree_simps)

lemma bt_get_remove [btree_simps]: "bt_get (bt_remove k m) k' = (if k' = k then None else bt_get m k')"
  by (simp add: bt_get_def btree_simps)

lemma bt_get_or_insert [btree_simps]:
  "bt_get_or d (bt_insert k v m) k' = (if k' = k then v else bt_get_or d m k')"
  by (simp add: bt_get_or_def btree_simps)

lemma bt_get_or_Nil [simp]: "bt_get_or d [] k = d"
  by (simp add: bt_get_or_def)

lemma fst_set_bt_insert [btree_simps]: "fst ` set (bt_insert k v m) = insert k (fst ` set m)"
  by (induction k v m rule: bt_insert.induct) auto

lemma fst_set_bt_remove [btree_simps]: "fst ` set (bt_remove k m) = fst ` set m - {k}"
  by (auto simp: bt_remove_def image_iff)

lemma bt_ok_insert [simp, intro]: "bt_ok m \<Longrightarrow> bt_ok (bt_insert k v m)"
  by (induction k v m rule: bt_insert.induct) (auto simp: btree_simps)

lemma bt_ok_remove [simp, intro]: "bt_ok m \<Longrightarrow> bt_ok (bt_remove k m)"
  unfolding bt_ok_def bt_remove_def by (induction m) auto

lemma bt_ok_distinct: "bt_ok m \<Longrightarrow> distinct (map fst m)"
  by (simp add: bt_ok_def strict_sorted_iff)

lemma bt_ok_sorted: "bt_ok m \<Longrightarrow> sorted (map fst m)"
  by (simp add: bt_ok_def strict_sorted_iff)

lemma bt_get_iff: "bt_ok m \<Longrightarrow> bt_get m k = Some v \<longleftrightarrow> (k, v) \<in> set m"
  by (simp add: bt_get_def bt_ok_distinct map_of_eq_Some_iff)

lemma map_of_rebuild: "distinct (map fst m) \<Longrightarrow> map (\<lambda>k. (k, the (map_of m k))) (map fst m) = m"
  unfolding map_map by (rule map_idI) (auto simp: map_of_is_SomeI)

lemma bt_ext:
  assumes "bt_ok m" "bt_ok m'" "map_of m = map_of m'"
  shows "m = m'"
proof -
  have "fst ` set m = fst ` set m'"
    using assms(3) by (metis dom_map_of_conv_image_fst)
  then have "map fst m = map fst m'"
    using assms(1,2) by (intro strict_sorted_equal) (auto simp: bt_ok_def)
  then show ?thesis
    using assms by (metis bt_ok_distinct map_of_rebuild)
qed

lemma bt_range_from_eq_filter:
  "bt_ok m \<Longrightarrow> bt_range_from lo m = filter (\<lambda>(k, _). lo \<le> k) m"
proof (induction m)
  case (Cons x m)
  obtain k v where x: "x = (k, v)" by (cases x)
  show ?case
  proof (cases "k < lo")
    case True
    then show ?thesis using Cons x by (simp add: bt_range_from_def)
  next
    case False
    have "\<forall>(k', _) \<in> set m. lo \<le> k'"
      using Cons.prems False x by fastforce
    then have "filter (\<lambda>(k, _). lo \<le> k) m = m" by (simp add: filter_id_conv)
    then show ?thesis using False x by (simp add: bt_range_from_def)
  qed
qed (simp add: bt_range_from_def)

text \<open>A suffix scan that stops at the first key outside a contiguous set visits exactly the set.\<close>

lemma takeWhile_eq_filter_sorted:
  assumes "sorted_wrt (\<lambda>x y. P y \<longrightarrow> P x) xs"
  shows "takeWhile P xs = filter P xs"
  using assms
proof (induction xs)
  case (Cons x xs)
  show ?case
  proof (cases "P x")
    case False
    then have "\<forall>y \<in> set xs. \<not> P y" using Cons.prems by auto
    then have "filter P xs = []" by (simp add: filter_empty_conv)
    then show ?thesis using False by simp
  qed (use Cons in simp)
qed simp

text \<open>Building a map by repeated insertion, and removing the entries that fail a test.\<close>

lemma bt_ok_filter [simp, intro]: "bt_ok m \<Longrightarrow> bt_ok (filter P m)"
  unfolding bt_ok_def by (induction m) auto

lemma map_of_filter_value:
  assumes "distinct (map fst m)"
  shows "map_of (filter (\<lambda>(k, v). P v) m) k =
    (case map_of m k of None \<Rightarrow> None | Some v \<Rightarrow> if P v then Some v else None)"
  using assms
proof (induction m)
  case (Cons x m)
  have "map_of (filter (\<lambda>(k, v). P v) m) (fst x) = None"
    using Cons.prems by (auto simp: map_of_eq_None_iff image_iff)
  then show ?case using Cons by (cases x) auto
qed simp

lemma bt_ok_foldl_insert: "bt_ok m \<Longrightarrow> bt_ok (foldl (\<lambda>acc (k, v). bt_insert k v acc) m xs)"
  by (induction xs arbitrary: m) (auto split: prod.split)

section \<open>Maps read back from entries\<close>

definition bt_collect :: "('k::linorder \<times> 'v) list \<Rightarrow> ('k, 'v) btree" where
  "bt_collect es = foldl (\<lambda>acc (k, v). bt_insert k v acc) [] es"

lemma map_of_foldl_insert:
  "map_of (foldl (\<lambda>acc (k, v). bt_insert k v acc) m es) = map_of m ++ map_of (rev es)"
proof (induction es arbitrary: m)
  case (Cons e es)
  obtain k v where e: "e = (k, v)" by (cases e)
  show ?case using Cons [of "bt_insert k v m"] e bt_get_insert [of k v m]
    by (auto simp: fun_eq_iff map_add_def bt_get_def split: option.split)
qed simp

lemma map_of_rev_distinct: "distinct (map fst es) \<Longrightarrow> map_of (rev es) = map_of es"
proof (induction es)
  case (Cons e es)
  have "map_of es (fst e) = None" using Cons.prems by (simp add: map_of_eq_None_iff)
  then show ?case using Cons by (cases e) (auto simp: fun_eq_iff map_add_def split: option.split)
qed simp

lemma bt_collect_ok [simp]:
  assumes "bt_ok es"
  shows "bt_collect es = es"
proof (rule bt_ext)
  show "bt_ok (bt_collect es)" by (simp add: bt_collect_def bt_ok_foldl_insert)
  show "map_of (bt_collect es) = map_of es"
    using assms by (simp add: bt_collect_def map_of_foldl_insert map_of_rev_distinct bt_ok_distinct)
qed (rule assms)

section \<open>The ordered-map interface\<close>

text \<open>
  What clients of a map rely on: lookups after every operation, and that iteration is strictly
  increasing. The lemma of the interface is the one the determinism arguments use: the contents
  determine the iteration order.
\<close>

locale ordered_map =
  fixes empty :: "'m" and lookup :: "'m \<Rightarrow> 'k::linorder \<Rightarrow> 'v option"
    and insert_kv :: "'k \<Rightarrow> 'v \<Rightarrow> 'm \<Rightarrow> 'm" and remove :: "'k \<Rightarrow> 'm \<Rightarrow> 'm"
    and items :: "'m \<Rightarrow> ('k \<times> 'v) list" and invar :: "'m \<Rightarrow> bool"
  assumes lookup_empty: "lookup empty k = None"
    and lookup_insert: "invar m \<Longrightarrow> lookup (insert_kv k v m) = (lookup m)(k \<mapsto> v)"
    and lookup_remove: "invar m \<Longrightarrow> lookup (remove k m) = (lookup m)(k := None)"
    and items_lookup: "invar m \<Longrightarrow> map_of (items m) = lookup m"
    and items_sorted: "invar m \<Longrightarrow> sorted_wrt (<) (map fst (items m))"
    and invar_empty: "invar empty"
    and invar_insert: "invar m \<Longrightarrow> invar (insert_kv k v m)"
    and invar_remove: "invar m \<Longrightarrow> invar (remove k m)"
begin

lemma items_determined:
  assumes "invar m" "invar m'" "lookup m = lookup m'"
  shows "items m = items m'"
  using assms by (intro bt_ext) (simp_all add: bt_ok_def items_sorted items_lookup)

lemma insert_commute:
  assumes "invar m" "k \<noteq> k'"
  shows "items (insert_kv k v (insert_kv k' v' m)) = items (insert_kv k' v' (insert_kv k v m))"
  using assms by (intro items_determined) (simp_all add: invar_insert lookup_insert fun_upd_twist)

lemma remove_insert:
  assumes "invar m" "lookup m k = None"
  shows "items (remove k (insert_kv k v m)) = items m"
  using assms
  by (intro items_determined) (auto simp: invar_insert invar_remove lookup_insert lookup_remove)

end

interpretation btm: ordered_map "[]" bt_get bt_insert bt_remove "\<lambda>m. m" bt_ok
  by unfold_locales (auto simp: bt_get_def btree_simps fun_eq_iff bt_ok_def
      bt_ok_insert [unfolded bt_ok_def] bt_ok_remove [unfolded bt_ok_def])

end
