(* ===== verification/Values.thy ===== *)
theory Values
  imports Ordered_Map
begin

text \<open>
  Values and their types (\<open>schweep-zset/src/value.rs\<close>), rows (\<open>row.rs\<close>), and the total order on
  values. The code writes \<open>Eq\<close> and \<open>Ord\<close> by hand because a value can hold an \<open>f64\<close>; here an
  \<open>f64\<close> is its bit pattern, \<open>cmp\<close> is translated case by case, and the order is shown to be a linear
  order whose equality is the equality of the type, so that the library's sorting applies to it.
\<close>

unbundle bit_operations_syntax

section \<open>Data types and values\<close>

datatype data_type = Int64 | Utf8 | Boolean | Float64

definition is_storable :: "data_type \<Rightarrow> bool" where
  "is_storable ty = (ty \<noteq> Float64)"

fun data_type_name :: "data_type \<Rightarrow> string" where
  "data_type_name Int64 = ''Int64''"
| "data_type_name Utf8 = ''Utf8''"
| "data_type_name Boolean = ''Boolean''"
| "data_type_name Float64 = ''Float64''"

text \<open>
  An \<open>i64\<close> payload is an \<open>int\<close>, a \<open>String\<close> its UTF-8 bytes as a list of characters, and an \<open>f64\<close> its
  64-bit pattern (\<open>to_bits\<close>).
\<close>

datatype sql_value = VNull | VInt int | VStr string | VBool bool | VFloat "64 word"

fun value_data_type :: "sql_value \<Rightarrow> data_type option" where
  "value_data_type VNull = None"
| "value_data_type (VInt _) = Some Int64"
| "value_data_type (VStr _) = Some Utf8"
| "value_data_type (VBool _) = Some Boolean"
| "value_data_type (VFloat _) = Some Float64"

definition is_null :: "sql_value \<Rightarrow> bool" where
  "is_null v = (v = VNull)"

definition fits :: "sql_value \<Rightarrow> data_type \<Rightarrow> bool" where
  "fits v ty = (case value_data_type v of None \<Rightarrow> True | Some actual \<Rightarrow> actual = ty)"

fun type_rank :: "sql_value \<Rightarrow> nat" where
  "type_rank VNull = 0"
| "type_rank (VBool _) = 1"
| "type_rank (VInt _) = 2"
| "type_rank (VFloat _) = 3"
| "type_rank (VStr _) = 4"

text \<open>The integers of a value are 64-bit integers; every value the program holds satisfies this.\<close>

fun value_in_range :: "sql_value \<Rightarrow> bool" where
  "value_in_range (VInt i) = in_i64 i"
| "value_in_range _ = True"

lemma value_data_type_None [simp]: "value_data_type v = None \<longleftrightarrow> v = VNull"
  by (cases v) simp_all

section \<open>The total order\<close>

datatype ordering = Less | Equal | Greater

definition cmp_of :: "'a::linorder \<Rightarrow> 'a \<Rightarrow> ordering" where
  "cmp_of x y = (if x < y then Less else if x = y then Equal else Greater)"

text \<open>
  \<open>f64::total_cmp\<close>: the bits of a negative number are inverted below the sign, and the results are
  compared as signed integers.
\<close>

definition f64_order_key :: "64 word \<Rightarrow> int" where
  "f64_order_key b = sint (b XOR drop_bit 1 (if bit b 63 then - 1 else 0))"

definition total_cmp :: "64 word \<Rightarrow> 64 word \<Rightarrow> ordering" where
  "total_cmp a b = cmp_of (f64_order_key a) (f64_order_key b)"

fun value_cmp :: "sql_value \<Rightarrow> sql_value \<Rightarrow> ordering" where
  "value_cmp VNull VNull = Equal"
| "value_cmp (VBool a) (VBool b) = cmp_of a b"
| "value_cmp (VInt a) (VInt b) = cmp_of a b"
| "value_cmp (VFloat a) (VFloat b) = total_cmp a b"
| "value_cmp (VStr a) (VStr b) = cmp_of a b"
| "value_cmp a b = cmp_of (type_rank a) (type_rank b)"

lemma f64_order_key_inject [simp]: "f64_order_key a = f64_order_key b \<longleftrightarrow> a = b"
proof
  assume "f64_order_key a = f64_order_key b"
  then have e: "a XOR drop_bit 1 (if bit a 63 then - 1 else 0) = b XOR drop_bit 1 (if bit b 63 then - 1 else 0)"
    unfolding f64_order_key_def by (rule signed_word_eqI)
  have top: "bit (x XOR drop_bit 1 (if bit x 63 then - 1 else 0)) 63 \<longleftrightarrow> bit x 63" for x :: "64 word"
    by (simp add: bit_simps)
  have "bit a 63 = bit b 63"
    using top [of a] top [of b] e by simp
  with e have "a XOR c = b XOR c" if "c = drop_bit 1 (if bit a 63 then - 1 else 0)" for c
    using that by simp
  then have "(a XOR c) XOR c = (b XOR c) XOR c" if "c = drop_bit 1 (if bit a 63 then - 1 else 0)" for c
    using that by (simp only:)
  then show "a = b"
    by (simp only: xor.assoc xor_self_eq xor.right_neutral)
qed simp

text \<open>The order key of a value: its rank, then its payload within the rank.\<close>

fun value_key :: "sql_value \<Rightarrow> nat \<times> int \<times> string" where
  "value_key VNull = (0, 0, [])"
| "value_key (VBool b) = (1, of_bool b, [])"
| "value_key (VInt i) = (2, i, [])"
| "value_key (VFloat f) = (3, f64_order_key f, [])"
| "value_key (VStr s) = (4, 0, s)"

lemma value_cmp_key: "value_cmp v w = cmp_of (value_key v) (value_key w)"
  by (cases v; cases w) (auto simp: cmp_of_def total_cmp_def less_prod_def)

lemma value_key_inject [simp]: "value_key v = value_key w \<longleftrightarrow> v = w"
  by (cases v; cases w) auto

lemma cmp_of_eqs [simp]:
  "cmp_of x y = Less \<longleftrightarrow> x < y"
  "cmp_of x y = Equal \<longleftrightarrow> x = y"
  "cmp_of x y = Greater \<longleftrightarrow> y < x"
  by (auto simp: cmp_of_def)

instantiation sql_value :: linorder
begin

definition less_sql_value :: "sql_value \<Rightarrow> sql_value \<Rightarrow> bool" where
  "less_sql_value v w = (value_cmp v w = Less)"

definition less_eq_sql_value :: "sql_value \<Rightarrow> sql_value \<Rightarrow> bool" where
  "less_eq_sql_value v w = (value_cmp v w \<noteq> Greater)"

instance
  by standard (auto simp: less_sql_value_def less_eq_sql_value_def value_cmp_key)

end

lemma value_less_key: "v < w \<longleftrightarrow> value_key v < value_key w"
  by (simp add: less_sql_value_def value_cmp_key)

lemma VNull_least [simp]: "VNull \<le> v"
  by (cases v) (simp_all add: less_eq_sql_value_def cmp_of_def)

section \<open>Rows\<close>

text \<open>
  A \<open>Row\<close> wraps its vector of values and derives \<open>Ord\<close>, which is the lexicographic order of the
  vector: the order that \<open>List_Lexorder\<close> puts on lists. \<open>get\<close> returns \<open>None\<close> out of range.
\<close>

type_synonym row = "sql_value list"

definition row_get :: "row \<Rightarrow> nat \<Rightarrow> sql_value option" where
  "row_get r i = nth_opt r i"

end
