(* ===== verification/Schemas.thy ===== *)
theory Schemas
  imports Values
begin

text \<open>
  Errors of the Z-set layer (\<open>schweep-zset/src/error.rs\<close>) and schemas (\<open>schema.rs\<close>): the
  constructors that refuse a malformed field list, name lookup, and the check of one value against
  one column.
\<close>

datatype zset_error =
    EmptySchema
  | DuplicateFieldName string
  | UnknownColumnZ string
  | UnstorableColumnType string data_type
  | ArityMismatch nat nat
  | ValueTypeMismatch string data_type data_type
  | NullInNonNullable string
  | SchemaMismatch string string
  | WeightLengthMismatch nat nat
  | WeightOverflow string
  | ArrowDowncast string data_type
  | Arrow string

record field =
  f_name :: string
  f_data_type :: data_type
  f_nullable :: bool

definition field_nullable :: "string \<Rightarrow> data_type \<Rightarrow> field" where
  "field_nullable n ty = \<lparr>f_name = n, f_data_type = ty, f_nullable = True\<rparr>"

definition field_not_null :: "string \<Rightarrow> data_type \<Rightarrow> field" where
  "field_not_null n ty = \<lparr>f_name = n, f_data_type = ty, f_nullable = False\<rparr>"

record schema =
  sc_fields :: "field list"

section \<open>Construction\<close>

text \<open>The loop of \<open>Schema::new\<close>: each field against the ones before it.\<close>

fun first_duplicate :: "string list \<Rightarrow> field list \<Rightarrow> string option" where
  "first_duplicate prior [] = None"
| "first_duplicate prior (f # fs) =
    (if f_name f \<in> set prior then Some (f_name f) else first_duplicate (prior @ [f_name f]) fs)"

definition schema_new :: "field list \<Rightarrow> (zset_error, schema) result" where
  "schema_new fs =
    (if fs = [] then Err EmptySchema
     else case first_duplicate [] fs of
       Some n \<Rightarrow> Err (DuplicateFieldName n)
     | None \<Rightarrow> Ok \<lparr>sc_fields = fs\<rparr>)"

definition schema_new_table :: "field list \<Rightarrow> (zset_error, schema) result" where
  "schema_new_table fs =
    (case find (\<lambda>f. \<not> is_storable (f_data_type f)) fs of
       Some f \<Rightarrow> Err (UnstorableColumnType (f_name f) (f_data_type f))
     | None \<Rightarrow> schema_new fs)"

definition schema_len :: "schema \<Rightarrow> nat" where
  "schema_len s = length (sc_fields s)"

definition schema_field :: "schema \<Rightarrow> nat \<Rightarrow> field option" where
  "schema_field s i = nth_opt (sc_fields s) i"

definition index_of :: "schema \<Rightarrow> string \<Rightarrow> nat option" where
  "index_of s n = position (\<lambda>f. f_name f = n) (sc_fields s)"

definition field_named :: "schema \<Rightarrow> string \<Rightarrow> (zset_error, field) result" where
  "field_named s n = ok_or (find (\<lambda>f. f_name f = n) (sc_fields s)) (UnknownColumnZ n)"

definition check_value :: "schema \<Rightarrow> nat \<Rightarrow> sql_value \<Rightarrow> (zset_error, unit) result" where
  "check_value s i v =
    bindR (ok_or (nth_opt (sc_fields s) i) (ArityMismatch (length (sc_fields s)) (i + 1)))
     (\<lambda>f. if is_null v
          then (if f_nullable f then Ok () else Err (NullInNonNullable (f_name f)))
          else case value_data_type v of
              Some actual \<Rightarrow>
                if actual = f_data_type f then Ok ()
                else Err (ValueTypeMismatch (f_name f) (f_data_type f) actual)
            | None \<Rightarrow> Err (NullInNonNullable (f_name f)))"

text \<open>\<open>impl Display for Schema\<close>, which errors carry as text.\<close>

definition field_to_string :: "field \<Rightarrow> string" where
  "field_to_string f =
    f_name f @ '': '' @ data_type_name (f_data_type f) @ (if f_nullable f then '''' else '' NOT NULL'')"

fun join_strings :: "string \<Rightarrow> string list \<Rightarrow> string" where
  "join_strings sep [] = ''''"
| "join_strings sep [x] = x"
| "join_strings sep (x # y # xs) = x @ sep @ join_strings sep (y # xs)"

definition schema_to_string :: "schema \<Rightarrow> string" where
  "schema_to_string s = ''('' @ join_strings '', '' (map field_to_string (sc_fields s)) @ '')''"

section \<open>The schema invariant, and what a row of a schema is\<close>

definition schema_ok :: "schema \<Rightarrow> bool" where
  "schema_ok s \<longleftrightarrow> sc_fields s \<noteq> [] \<and> distinct (map f_name (sc_fields s))"

definition value_conforms :: "field \<Rightarrow> sql_value \<Rightarrow> bool" where
  "value_conforms f v \<longleftrightarrow> (if v = VNull then f_nullable f else fits v (f_data_type f))"

definition row_conforms :: "schema \<Rightarrow> row \<Rightarrow> bool" where
  "row_conforms s r \<longleftrightarrow> list_all2 value_conforms (sc_fields s) r"

lemma first_duplicate_None:
  "first_duplicate prior fs = None \<longleftrightarrow> distinct (map f_name fs) \<and> set prior \<inter> f_name ` set fs = {}"
  by (induction prior fs rule: first_duplicate.induct) auto

lemma schema_new_Ok: "schema_new fs = Ok s \<longleftrightarrow> s = \<lparr>sc_fields = fs\<rparr> \<and> schema_ok s"
  using first_duplicate_None [of "[]" fs]
  by (cases "first_duplicate [] fs") (auto simp: schema_new_def schema_ok_def)

lemma schema_new_table_Ok:
  "schema_new_table fs = Ok s \<longleftrightarrow>
    schema_new fs = Ok s \<and> (\<forall>f \<in> set fs. is_storable (f_data_type f))"
  by (auto simp: schema_new_table_def find_None_iff find_Some_iff split: option.splits)

lemma index_of_Some:
  "index_of s n = Some i \<Longrightarrow> i < length (sc_fields s) \<and> f_name (sc_fields s ! i) = n"
  by (simp add: index_of_def position_Some)

lemma index_of_unique:
  assumes "schema_ok s" "i < length (sc_fields s)"
  shows "index_of s (f_name (sc_fields s ! i)) = Some i"
  using assms
  by (auto simp: index_of_def position_Some schema_ok_def distinct_conv_nth)

lemma check_value_Ok:
  "check_value s i v = Ok u \<longleftrightarrow> i < length (sc_fields s) \<and> value_conforms (sc_fields s ! i) v"
  by (auto simp: check_value_def value_conforms_def is_null_def fits_def result_simps
      split: option.splits if_splits)

lemma row_conforms_length: "row_conforms s r \<Longrightarrow> length r = length (sc_fields s)"
  by (auto simp: row_conforms_def dest: list_all2_lengthD)

lemma row_conforms_iff:
  "row_conforms s r \<longleftrightarrow>
    length r = length (sc_fields s) \<and> (\<forall>i < length (sc_fields s). is_ok (check_value s i (r ! i)))"
  by (auto simp: row_conforms_def list_all2_conv_all_nth is_ok_iff check_value_Ok)

lemma value_conforms_fits: "value_conforms f v \<Longrightarrow> fits v (f_data_type f)"
  by (auto simp: value_conforms_def fits_def split: if_splits)

end
