(* ===== verification/Plan.thy ===== *)
theory Plan
  imports ZSet
begin

text \<open>
  The logical plan (\<open>schweep-plan/src/plan.rs\<close>), its errors (\<open>error.rs\<close>) and scalar evaluation
  with three-valued logic and checked arithmetic (\<open>eval.rs\<close>).
\<close>

section \<open>Queries\<close>

datatype source =
    Scan string string
  | JoinSource source source "(string \<times> string) list"

fun aliases :: "source \<Rightarrow> string list" where
  "aliases (Scan table alias) = [alias]"
| "aliases (JoinSource l r on) = aliases l @ aliases r"

datatype bin_op = Add | Sub | Mul | Div | Mod | Eq | Ne | Lt | Le | Gt | Ge

fun bin_op_name :: "bin_op \<Rightarrow> string" where
  "bin_op_name Add = ''+''"
| "bin_op_name Sub = ''-''"
| "bin_op_name Mul = ''*''"
| "bin_op_name Div = ''/''"
| "bin_op_name Mod = ''%''"
| "bin_op_name Eq = ''=''"
| "bin_op_name Ne = ''<>''"
| "bin_op_name Lt = ''<''"
| "bin_op_name Le = ''<=''"
| "bin_op_name Gt = ''>''"
| "bin_op_name Ge = ''>=''"

definition is_arithmetic :: "bin_op \<Rightarrow> bool" where
  "is_arithmetic op \<longleftrightarrow> op \<in> {Add, Sub, Mul, Div, Mod}"

datatype expr =
    Column string
  | Literal sql_value
  | NullOf data_type
  | Binary bin_op expr expr
  | Not expr
  | And expr expr
  | Or expr expr
  | IsNull expr
  | IsNotNull expr
  | Case "(expr \<times> expr) list" "expr option"

datatype agg_func =
    CountStar
  | Count expr
  | Sum expr
  | Min expr
  | Max expr
  | Avg expr

fun agg_name :: "agg_func \<Rightarrow> string" where
  "agg_name CountStar = ''COUNT(*)''"
| "agg_name (Count _) = ''COUNT''"
| "agg_name (Sum _) = ''SUM''"
| "agg_name (Min _) = ''MIN''"
| "agg_name (Max _) = ''MAX''"
| "agg_name (Avg _) = ''AVG''"

fun agg_argument :: "agg_func \<Rightarrow> expr option" where
  "agg_argument CountStar = None"
| "agg_argument (Count e) = Some e"
| "agg_argument (Sum e) = Some e"
| "agg_argument (Min e) = Some e"
| "agg_argument (Max e) = Some e"
| "agg_argument (Avg e) = Some e"

record 'a named =
  nm_name :: string
  nm_value :: 'a

record group_by =
  gb_keys :: "expr named list"
  gb_aggregates :: "agg_func named list"
  gb_having :: "expr option"

record query =
  q_source :: source
  q_filter :: "expr option"
  q_group_by :: "group_by option"
  q_project :: "expr named list option"
  q_distinct :: bool

section \<open>Errors\<close>

datatype plan_error =
    PlanZSet zset_error
  | UnknownTable string
  | NotInDialect string
  | DuplicateAlias string
  | UnqualifiedColumn string
  | QualifiedColumnAfterGroupBy string
  | UnknownColumn string string
  | DuplicateOutputName string
  | UntypedNullLiteral
  | TypeMismatch string data_type data_type
  | UnaryTypeMismatch string data_type
  | ExpectedBoolean string data_type
  | CaseBranchTypeMismatch data_type data_type
  | EmptyCase
  | EmptyGroupKeys
  | CrossJoinNotSupported
  | AggregateTypeUnsupported string data_type
  | AggregateInHaving string
  | AggregateInWhere string
  | NestedAggregate string string
  | AggregateNotTopLevel string
  | ColumnNotGrouped string
  | ArithmeticOverflow string
  | DivisionByZero string
  | AggregateOverflow string

fun is_evaluation_error :: "plan_error \<Rightarrow> bool" where
  "is_evaluation_error (ArithmeticOverflow _) = True"
| "is_evaluation_error (DivisionByZero _) = True"
| "is_evaluation_error (AggregateOverflow _) = True"
| "is_evaluation_error _ = False"

text \<open>
  The rendered text of the evaluation errors, which is what the error stream and the live errors
  are keyed by. Only evaluation errors are ever rendered into a value; the other variants have no
  case here because every caller propagates them first.
\<close>

fun evaluation_message :: "plan_error \<Rightarrow> string" where
  "evaluation_message (ArithmeticOverflow op) = ''arithmetic overflow in '' @ op @ '' (S-20)''"
| "evaluation_message (DivisionByZero op) = ''division by zero in '' @ op @ '' (S-21)''"
| "evaluation_message (AggregateOverflow func) = func @ '' overflowed the Int64 range (S-30)''"
| "evaluation_message _ = ''''"

section \<open>Evaluation\<close>

definition as_bool :: "sql_value \<Rightarrow> bool option" where
  "as_bool v = (case v of VBool b \<Rightarrow> Some b | _ \<Rightarrow> None)"

definition kleene_and :: "bool option \<Rightarrow> bool option \<Rightarrow> sql_value" where
  "kleene_and l r =
    (if l = Some False \<or> r = Some False then VBool False
     else if l = Some True \<and> r = Some True then VBool True
     else VNull)"

definition kleene_or :: "bool option \<Rightarrow> bool option \<Rightarrow> sql_value" where
  "kleene_or l r =
    (if l = Some True \<or> r = Some True then VBool True
     else if l = Some False \<and> r = Some False then VBool False
     else VNull)"

definition eval_arithmetic :: "bin_op \<Rightarrow> int \<Rightarrow> int \<Rightarrow> (plan_error, int) result" where
  "eval_arithmetic op a b =
    (let overflow = ArithmeticOverflow (bin_op_name op); by_zero = DivisionByZero (bin_op_name op) in
     case op of
       Add \<Rightarrow> ok_or (checked_add a b) overflow
     | Sub \<Rightarrow> ok_or (checked_sub a b) overflow
     | Mul \<Rightarrow> ok_or (checked_mul a b) overflow
     | Div \<Rightarrow> if b = 0 then Err by_zero else ok_or (checked_div a b) overflow
     | Mod \<Rightarrow> if b = 0 then Err by_zero else ok_or (checked_rem a b) overflow
     | _ \<Rightarrow> Err overflow)"

definition compare_values :: "bin_op \<Rightarrow> ordering \<Rightarrow> (plan_error, sql_value) result" where
  "compare_values op ord = (case op of
      Eq \<Rightarrow> Ok (VBool (ord = Equal))
    | Ne \<Rightarrow> Ok (VBool (ord \<noteq> Equal))
    | Lt \<Rightarrow> Ok (VBool (ord = Less))
    | Le \<Rightarrow> Ok (VBool (ord \<noteq> Greater))
    | Gt \<Rightarrow> Ok (VBool (ord = Greater))
    | Ge \<Rightarrow> Ok (VBool (ord \<noteq> Less))
    | _ \<Rightarrow> Err (ArithmeticOverflow (bin_op_name op)))"

definition eval_binary :: "bin_op \<Rightarrow> sql_value \<Rightarrow> sql_value \<Rightarrow> (plan_error, sql_value) result" where
  "eval_binary op l r =
    (if is_null l \<or> is_null r then Ok VNull
     else if is_arithmetic op then
       (case (l, r) of
          (VInt a, VInt b) \<Rightarrow> bindR (eval_arithmetic op a b) (\<lambda>i. Ok (VInt i))
        | _ \<Rightarrow> Err (TypeMismatch (bin_op_name op)
                (case value_data_type l of Some ty \<Rightarrow> ty | None \<Rightarrow> Int64)
                (case value_data_type r of Some ty \<Rightarrow> ty | None \<Rightarrow> Int64)))
     else compare_values op (value_cmp l r))"

text \<open>
  \<open>eval\<close>; the loop over the branches of a \<open>CASE\<close> is \<open>eval_whens\<close>, which returns \<open>None\<close> when no
  condition is true.
\<close>

function (sequential) eval :: "expr \<Rightarrow> row \<Rightarrow> schema \<Rightarrow> (plan_error, sql_value) result"
and eval_whens :: "(expr \<times> expr) list \<Rightarrow> row \<Rightarrow> schema \<Rightarrow> (plan_error, sql_value option) result" where
  "eval (Column name) row scope =
    bindR (ok_or (index_of scope name) (UnknownColumn name (schema_to_string scope)))
      (\<lambda>i. ok_or (row_get row i) (UnknownColumn name (schema_to_string scope)))"
| "eval (Literal v) row scope = Ok v"
| "eval (NullOf _) row scope = Ok VNull"
| "eval (Binary op left right) row scope =
    bindR (eval left row scope) (\<lambda>l. bindR (eval right row scope) (\<lambda>r. eval_binary op l r))"
| "eval (Not inner) row scope =
    bindR (eval inner row scope)
      (\<lambda>v. Ok (case as_bool v of None \<Rightarrow> VNull | Some b \<Rightarrow> VBool (\<not> b)))"
| "eval (And left right) row scope =
    bindR (eval left row scope)
      (\<lambda>l. bindR (eval right row scope) (\<lambda>r. Ok (kleene_and (as_bool l) (as_bool r))))"
| "eval (Or left right) row scope =
    bindR (eval left row scope)
      (\<lambda>l. bindR (eval right row scope) (\<lambda>r. Ok (kleene_or (as_bool l) (as_bool r))))"
| "eval (IsNull inner) row scope = bindR (eval inner row scope) (\<lambda>v. Ok (VBool (is_null v)))"
| "eval (IsNotNull inner) row scope = bindR (eval inner row scope) (\<lambda>v. Ok (VBool (\<not> is_null v)))"
| "eval (Case whens otherwise) row scope =
    bindR (eval_whens whens row scope)
      (\<lambda>found. case found of
          Some v \<Rightarrow> Ok v
        | None \<Rightarrow> (case otherwise of Some e \<Rightarrow> eval e row scope | None \<Rightarrow> Ok VNull))"
| "eval_whens [] row scope = Ok None"
| "eval_whens ((condition, outcome) # whens) row scope =
    bindR (eval condition row scope)
      (\<lambda>c. if as_bool c = Some True
           then bindR (eval outcome row scope) (\<lambda>v. Ok (Some v))
           else eval_whens whens row scope)"
  by pat_completeness auto
termination
  by (relation "measure (case_sum (\<lambda>(e, _, _). size e) (\<lambda>(ws, _, _). size_list (size_prod size size) ws))")
    auto

definition is_true :: "expr \<Rightarrow> row \<Rightarrow> schema \<Rightarrow> (plan_error, bool) result" where
  "is_true e row scope = bindR (eval e row scope) (\<lambda>v. Ok (as_bool v = Some True))"

end
