(* ===== verification/ZSet_Props.thy ===== *)
theory ZSet_Props
  imports ZSet "HOL-Library.Multiset"
begin

text \<open>
  The Z-set layer is correct: a batch gives back the entries it was built from, construction
  succeeds exactly on rows that conform to the schema, and consolidation computes the canonical
  form, the unique strictly sorted, zero-free list of entries with the same weight function.
\<close>

section \<open>Columns: what is written is what is read\<close>

lemma append_Ok:
  "append_int f v = Ok x \<longleftrightarrow> (v = VNull \<and> x = None) \<or> (\<exists>i. v = VInt i \<and> x = Some i)"
  "append_str f v = Ok y \<longleftrightarrow> (v = VNull \<and> y = None) \<or> (\<exists>i. v = VStr i \<and> y = Some i)"
  "append_bool f v = Ok z \<longleftrightarrow> (v = VNull \<and> z = None) \<or> (\<exists>i. v = VBool i \<and> z = Some i)"
  "append_float f v = Ok u \<longleftrightarrow> (v = VNull \<and> u = None) \<or> (\<exists>i. v = VFloat i \<and> u = Some i)"
  by (cases v; auto simp: append_int_def append_str_def append_bool_def append_float_def)+

lemma append_ok_fits:
  "is_ok (append_int f v) \<longleftrightarrow> fits v Int64"
  "is_ok (append_str f v) \<longleftrightarrow> fits v Utf8"
  "is_ok (append_bool f v) \<longleftrightarrow> fits v Boolean"
  "is_ok (append_float f v) \<longleftrightarrow> fits v Float64"
  by (cases v; simp add: append_int_def append_str_def append_bool_def append_float_def fits_def)+

lemma cell_append:
  "append_int f v = Ok x \<Longrightarrow> cell VInt x = v"
  "append_str f v = Ok y \<Longrightarrow> cell VStr y = v"
  "append_bool f v = Ok z \<Longrightarrow> cell VBool z = v"
  "append_float f v = Ok u \<Longrightarrow> cell VFloat u = v"
  by (auto simp: append_Ok cell_def)

lemma map_cell_inverse:
  assumes "mapR g vs = Ok xs" and "\<And>v x. g v = Ok x \<Longrightarrow> h x = v"
  shows "map h xs = vs"
  using assms by (auto simp: mapR_eq_Ok list_all2_conv_all_nth intro!: nth_equalityI)

lemma build_array_ok_iff:
  "is_ok (build_array f vs) \<longleftrightarrow> (\<forall>v \<in> set vs. fits v (f_data_type f))"
proof -
  have bind: "is_ok (bindR (mapR g vs) (\<lambda>xs. Ok (h xs))) \<longleftrightarrow> (\<forall>v \<in> set vs. is_ok (g v))"
    for g :: "sql_value \<Rightarrow> (zset_error, 'b) result" and h :: "'b list \<Rightarrow> arrow_array"
    by (cases "mapR g vs") (auto simp flip: mapR_ok_iff)
  show ?thesis
    by (cases "f_data_type f") (simp_all add: build_array_def bind append_ok_fits)
qed

lemma read_build_array:
  assumes "build_array f vs = Ok a"
  shows "array_len a = length vs" and "read_column f a (length vs) = Ok vs"
proof -
  note inverse = map_cell_inverse [OF _ cell_append(1)] map_cell_inverse [OF _ cell_append(2)]
    map_cell_inverse [OF _ cell_append(3)] map_cell_inverse [OF _ cell_append(4)]
  show len: "array_len a = length vs"
    using assms
    by (cases "f_data_type f") (auto simp: build_array_def result_simps dest: mapR_length)
  show "read_column f a (length vs) = Ok vs"
    using assms len
    by (cases "f_data_type f")
      (auto simp: build_array_def read_column_def result_simps dest: inverse)
qed

section \<open>Construction\<close>

lemma column_cell_Ok:
  "column_cell s i e = Ok v \<longleftrightarrow>
    length (fst e) = schema_len s \<and> i < schema_len s \<and> v = fst e ! i
      \<and> value_conforms (sc_fields s ! i) v"
  by (auto simp: column_cell_def row_get_def result_simps check_value_Ok schema_len_def)

lemma mapR_column_cell:
  "mapR (column_cell s i) es = Ok vs \<longleftrightarrow>
    (\<forall>e \<in> set es. length (fst e) = schema_len s \<and> i < schema_len s
       \<and> value_conforms (sc_fields s ! i) (fst e ! i)) \<and> vs = map (\<lambda>e. fst e ! i) es"
  by (auto simp: mapR_eq_Ok column_cell_Ok list_all2_conv_all_nth all_set_conv_all_nth
      intro: nth_equalityI)

lemma enumerate_0_nth:
  "i < length xs \<Longrightarrow> enumerate 0 xs ! i = (i, xs ! i)"
  by (simp add: nth_enumerate_eq)

text \<open>A batch holds the entries \<open>es\<close> over the schema \<open>s\<close>.\<close>

definition holds :: "schema \<Rightarrow> zset_batch \<Rightarrow> entries \<Rightarrow> bool" where
  "holds s b es \<longleftrightarrow> schema_ok s \<and> from_entries s es = Ok b"

lemma from_entries_Ok_iff:
  "from_entries s es = Ok b \<longleftrightarrow>
    zb_schema b = s \<and> zb_weights b = map snd es \<and> length (zb_batch b) = schema_len s \<and>
    (\<forall>i < schema_len s. \<exists>vs. mapR (column_cell s i) es = Ok vs
       \<and> build_array (sc_fields s ! i) vs = Ok (zb_batch b ! i))"
  by (cases b)
    (auto simp: from_entries_def result_simps mapR_eq_Ok [of _ "enumerate 0 (sc_fields s)"]
      list_all2_conv_all_nth enumerate_0_nth schema_len_def)

lemma from_entries_column:
  assumes "from_entries s es = Ok b" and "i < schema_len s"
  shows "build_array (sc_fields s ! i) (map (\<lambda>e. fst e ! i) es) = Ok (zb_batch b ! i)"
    and "\<forall>e \<in> set es. length (fst e) = schema_len s \<and> value_conforms (sc_fields s ! i) (fst e ! i)"
  using assms by (auto simp: from_entries_Ok_iff mapR_column_cell)

lemma from_entries_ok_iff:
  assumes "schema_ok s"
  shows "is_ok (from_entries s es) \<longleftrightarrow> (\<forall>e \<in> set es. row_conforms s (fst e))"
proof
  assume "is_ok (from_entries s es)"
  then obtain b where b: "from_entries s es = Ok b" by (auto simp: is_ok_iff)
  have pos: "0 < schema_len s" using assms by (simp add: schema_ok_def schema_len_def)
  show "\<forall>e \<in> set es. row_conforms s (fst e)"
    using from_entries_column(2) [OF b] from_entries_column(2) [OF b pos]
    by (fastforce simp: row_conforms_def list_all2_conv_all_nth schema_len_def)
next
  assume rows: "\<forall>e \<in> set es. row_conforms s (fst e)"
  have "is_ok (bindR (mapR (column_cell s i) es) (build_array (sc_fields s ! i)))" if "i < schema_len s" for i
  proof -
    have all: "\<forall>e \<in> set es. length (fst e) = schema_len s \<and> i < schema_len s
        \<and> value_conforms (sc_fields s ! i) (fst e ! i)"
      using rows that by (auto simp: row_conforms_def list_all2_conv_all_nth schema_len_def)
    then have "mapR (column_cell s i) es = Ok (map (\<lambda>e. fst e ! i) es)"
      by (simp add: mapR_column_cell)
    moreover have "is_ok (build_array (sc_fields s ! i) (map (\<lambda>e. fst e ! i) es))"
      using all by (auto simp: build_array_ok_iff value_conforms_fits)
    ultimately show ?thesis by simp
  qed
  then have "is_ok (mapR (\<lambda>(i, f). bindR (mapR (column_cell s i) es) (build_array f))
      (enumerate 0 (sc_fields s)))"
    by (auto simp: mapR_ok_iff in_set_enumerate_eq schema_len_def)
  then show "is_ok (from_entries s es)"
    by (auto simp: from_entries_def is_ok_iff)
qed

lemma holds_exists:
  assumes "schema_ok s" "\<forall>e \<in> set es. row_conforms s (fst e)"
  obtains b where "holds s b es"
  using from_entries_ok_iff [OF assms(1), of es] assms by (auto simp: is_ok_iff holds_def)

lemma holds_conforms: "holds s b es \<Longrightarrow> \<forall>e \<in> set es. row_conforms s (fst e)"
  using from_entries_ok_iff [of s es] by (simp add: holds_def)

lemma holds_schema [simp]: "holds s b es \<Longrightarrow> zb_schema b = s"
  by (simp add: holds_def from_entries_Ok_iff)

lemma holds_len: "holds s b es \<Longrightarrow> zb_len b = length es"
proof -
  assume h: "holds s b es"
  then have b: "from_entries s es = Ok b" and pos: "0 < schema_len s"
    by (simp_all add: holds_def schema_ok_def schema_len_def)
  have "array_len (zb_batch b ! 0) = length es"
    using read_build_array(1) [OF from_entries_column(1) [OF b pos]] by simp
  moreover have "zb_batch b \<noteq> []"
    using b pos by (auto simp: from_entries_Ok_iff)
  ultimately show "zb_len b = length es"
    by (auto simp: zb_len_def neq_Nil_conv)
qed

lemma holds_entries:
  assumes h: "holds s b es"
  shows "zb_entries b = Ok es"
proof -
  have b: "from_entries s es = Ok b" using h by (simp add: holds_def)
  have sch: "zb_schema b = s" and w: "zb_weights b = map snd es"
    and cols: "length (zb_batch b) = schema_len s"
    using from_entries_Ok_iff [THEN iffD1, OF b] by blast+
  have len: "zb_len b = length es" by (rule holds_len [OF h])
  define columns where "columns = map (\<lambda>i. map (\<lambda>e. fst e ! i) es) [0..<schema_len s]"
  have col: "read_column (sc_fields s ! i) (zb_batch b ! i) (length es) = Ok (map (\<lambda>e. fst e ! i) es)"
    if "i < schema_len s" for i
    using read_build_array(2) [OF from_entries_column(1) [OF b that]] by simp
  have read: "mapR (\<lambda>(i, f). bindR (ok_or (nth_opt (zb_batch b) i) (UnknownColumnZ (f_name f)))
      (\<lambda>a. read_column f a (length es))) (enumerate 0 (sc_fields s)) = Ok columns"
    unfolding mapR_eq_Ok list_all2_conv_all_nth
    by (simp add: enumerate_0_nth columns_def cols schema_len_def col [unfolded schema_len_def])
  have row: "mapR (\<lambda>c. ok_or (nth_opt c i) e) columns = Ok (fst (es ! i))" if "i < length es" for i e
  proof -
    have "length (fst (es ! i)) = schema_len s"
      using holds_conforms [OF h] that by (auto simp: row_conforms_length schema_len_def)
    then show ?thesis
      using that unfolding mapR_eq_Ok list_all2_conv_all_nth by (simp add: columns_def)
  qed
  have rows: "mapR (\<lambda>i. bindR (mapR (\<lambda>c. ok_or (nth_opt c i) e) columns)
      (\<lambda>vs. bindR (ok_or (nth_opt (map snd es) i) e) (\<lambda>w. Ok (vs, w)))) [0..<length es]
      = Ok (map (\<lambda>i. es ! i) [0..<length es])" for e
    by (rule mapR_all_Ok) (simp add: row)
  show ?thesis
    by (simp add: zb_entries_def Let_def sch len w read rows map_nth)
qed

section \<open>The weight function of a list of entries\<close>

text \<open>
  Two lists of entries are the same Z-set when every row has the same total weight in both. Sums
  over a Z-set depend on this function alone, which is what makes the operators of the engine
  insensitive to the physical layout of their inputs.
\<close>

definition zw :: "('k \<times> int) list \<Rightarrow> 'k \<Rightarrow> int" where
  "zw es r = sum_list (map (\<lambda>e. if fst e = r then snd e else 0) es)"

definition zint :: "('k \<Rightarrow> int) \<Rightarrow> ('k \<times> int) list \<Rightarrow> int" where
  "zint h es = sum_list (map (\<lambda>e. snd e * h (fst e)) es)"

lemma zw_simps [simp]:
  "zw [] r = 0"
  "zw (e # es) r = (if fst e = r then snd e else 0) + zw es r"
  "zw (xs @ ys) r = zw xs r + zw ys r"
  by (simp_all add: zw_def)

lemma zw_rev [simp]: "zw (rev es) r = zw es r"
  by (simp add: zw_def sum_list_rev flip: rev_map)

lemma zw_notin: "r \<notin> fst ` set es \<Longrightarrow> zw es r = 0"
  by (induction es) auto

lemma zint_simps [simp]:
  "zint h [] = 0"
  "zint h (e # es) = snd e * h (fst e) + zint h es"
  "zint h (xs @ ys) = zint h xs + zint h ys"
  by (simp_all add: zint_def)

lemma zw_as_zint: "zw es r = zint (\<lambda>r'. if r' = r then 1 else 0) es"
  by (induction es) auto

lemma zw_map_inj:
  assumes "inj f"
  shows "zw (map (\<lambda>(x, w). (f x, w)) es) (f x) = zw es x"
  using assms by (induction es) (auto simp: inj_eq)

lemma zw_map_outside: "k \<notin> range f \<Longrightarrow> zw (map (\<lambda>(x, w). (f x, w)) es) k = 0"
  by (rule zw_notin) auto

lemma zint_as_sum:
  assumes "finite A" "fst ` set es \<subseteq> A"
  shows "zint h es = (\<Sum>r \<in> A. zw es r * h r)"
  using assms(2)
proof (induction es)
  case (Cons e es)
  have "(\<Sum>r \<in> A. zw (e # es) r * h r) = (\<Sum>r \<in> A. if fst e = r then snd e * h r else 0) + (\<Sum>r \<in> A. zw es r * h r)"
    unfolding sum.distrib [symmetric] by (rule sum.cong) (auto simp: algebra_simps)
  then show ?case using Cons assms(1) by simp
qed simp

lemma zint_cong: "zw es = zw fs \<Longrightarrow> zint h es = zint h fs"
  using zint_as_sum [of "fst ` set es \<union> fst ` set fs" es h] zint_as_sum [of "fst ` set es \<union> fst ` set fs" fs h]
  by simp

lemma zint_fun_cong: "(\<And>r. r \<in> fst ` set es \<Longrightarrow> h r = g r) \<Longrightarrow> zint h es = zint g es"
  by (induction es) auto

lemma zint_add: "zint (\<lambda>r. h r + g r) es = zint h es + zint g es"
  by (induction es) (simp_all add: algebra_simps)

lemma zw_sort_key [simp]: "zw (sort_key f es) = zw es"
proof
  fix r
  show "zw (sort_key f es) r = zw es r"
    unfolding zw_def sum_mset_sum_list [symmetric] mset_map by (simp add: mset_sort)
qed

section \<open>Consolidation\<close>

definition canon :: "('k::linorder \<times> int) list \<Rightarrow> bool" where
  "canon es \<longleftrightarrow> bt_ok es \<and> (\<forall>e \<in> set es. snd e \<noteq> 0)"

lemma canon_weight:
  assumes "canon es"
  shows "map_of es r = (if zw es r = 0 then None else Some (zw es r))"
proof -
  have "distinct (map fst es)" "\<forall>e \<in> set es. snd e \<noteq> 0"
    using assms by (simp_all add: canon_def bt_ok_distinct)
  then show ?thesis
    by (induction es) (auto simp: zw_notin)
qed

lemma canon_unique: "canon es \<Longrightarrow> canon fs \<Longrightarrow> zw es = zw fs \<Longrightarrow> es = fs"
  by (rule bt_ext) (auto simp: canon_def fun_eq_iff canon_weight)

lemma bt_ok_snoc: "bt_ok (xs @ [(k, v)]) \<longleftrightarrow> bt_ok xs \<and> (\<forall>k' \<in> fst ` set xs. k' < k)"
  by (auto simp: bt_ok_def sorted_wrt_append)

text \<open>What one round of the merge loop does to the accumulated entries.\<close>

lemma merge_step_Ok:
  assumes "merge_step acc (r, w) = Ok acc'"
  obtains "w = 0" "acc' = acc"
  | "w \<noteq> 0" "acc' = (r, w) # acc" "acc = [] \<or> fst (hd acc) \<noteq> r"
  | w' rest where "w \<noteq> 0" "acc = (r, w') # rest" "w' + w = 0" "acc' = rest"
  | w' rest where "w \<noteq> 0" "acc = (r, w') # rest" "w' + w \<noteq> 0" "acc' = (r, w' + w) # rest"
  using assms
  by (auto simp: merge_step_def result_simps split: if_splits list.splits prod.splits)

lemma merge_step_inv:
  assumes step: "merge_step acc (r, w) = Ok acc'" and canon: "canon (rev acc)"
    and le: "\<forall>k \<in> fst ` set acc. k \<le> r"
  shows "canon (rev acc')" "\<forall>k \<in> fst ` set acc'. k \<le> r"
    "zw acc' q = zw acc q + (if r = q then w else 0)"
proof -
  have less: "\<forall>k \<in> fst ` set acc. k < r" if "acc = [] \<or> fst (hd acc) \<noteq> r"
  proof (cases acc)
    case (Cons a rest)
    then have "fst a < r" using that le by (auto simp: less_le)
    moreover have "\<forall>k \<in> fst ` set rest. k < fst a"
      using canon Cons by (cases a) (auto simp: canon_def bt_ok_snoc)
    ultimately show ?thesis using Cons by (auto intro: less_trans)
  qed simp
  from step show "canon (rev acc')"
    by (cases rule: merge_step_Ok) (use canon less in \<open>auto simp: canon_def bt_ok_snoc\<close>)
  from step show "\<forall>k \<in> fst ` set acc'. k \<le> r"
    by (cases rule: merge_step_Ok) (use le in auto)
  from step show "zw acc' q = zw acc q + (if r = q then w else 0)"
    by (cases rule: merge_step_Ok) auto
qed

lemma merge_loop:
  assumes "foldR merge_step acc es = Ok acc'" "sorted (map fst es)" "canon (rev acc)"
    "\<forall>k \<in> fst ` set acc. \<forall>k' \<in> fst ` set es. k \<le> k'"
  shows "canon (rev acc') \<and> zw acc' = (\<lambda>r. zw acc r + zw es r)"
  using assms
proof (induction es arbitrary: acc)
  case (Cons e es)
  obtain r w where e: "e = (r, w)" by (cases e)
  obtain acc1 where step: "merge_step acc (r, w) = Ok acc1" and rest: "foldR merge_step acc1 es = Ok acc'"
    using Cons.prems(1) e by (auto simp: result_simps)
  have le: "\<forall>k \<in> fst ` set acc. k \<le> r" using Cons.prems(4) e by auto
  note inv = merge_step_inv [OF step Cons.prems(3) le]
  have "\<forall>k \<in> fst ` set acc1. \<forall>k' \<in> fst ` set es. k \<le> k'"
    using inv(2) Cons.prems(2) e by fastforce
  with Cons.IH [OF rest _ inv(1)] Cons.prems(2) show ?case
    using inv(3) e by (auto simp: fun_eq_iff)
qed auto

lemma merge_sorted_Ok:
  assumes "merge_sorted es = Ok ms"
  shows "canon ms" "zw ms = zw es"
proof -
  obtain acc where acc: "foldR merge_step [] (sort_key fst es) = Ok acc" and ms: "ms = rev acc"
    using assms by (auto simp: merge_sorted_def result_simps)
  have "canon (rev acc) \<and> zw acc = (\<lambda>r. zw [] r + zw (sort_key fst es) r)"
    by (rule merge_loop [OF acc]) (auto simp: canon_def)
  then show "canon ms" "zw ms = zw es"
    by (auto simp: ms fun_eq_iff)
qed

lemma foldR_merge_push:
  assumes "bt_ok (rev acc @ es)" "\<forall>e \<in> set es. snd e \<noteq> 0"
  shows "foldR merge_step acc es = Ok (rev es @ acc)"
  using assms
proof (induction es arbitrary: acc)
  case (Cons e es)
  obtain r w where e: "e = (r, w)" by (cases e)
  have "merge_step acc e = Ok (e # acc)"
    using Cons.prems e
    by (cases acc) (auto simp: merge_step_def bt_ok_def sorted_wrt_append)
  then show ?case using Cons by simp
qed simp

lemma merge_sorted_canon: "canon es \<Longrightarrow> merge_sorted es = Ok es"
  using foldR_merge_push [of "[]" es]
  by (simp add: merge_sorted_def canon_def sort_key_id_if_sorted bt_ok_sorted)

lemma merge_sorted_unique:
  "merge_sorted es = Ok ms \<Longrightarrow> merge_sorted fs = Ok ns \<Longrightarrow> zw es = zw fs \<Longrightarrow> ms = ns"
  by (metis canon_unique merge_sorted_Ok)

lemma holds_from_entries:
  "schema_ok s \<Longrightarrow> from_entries s es = Ok b \<Longrightarrow> holds s b es"
  by (simp add: holds_def)

lemma consolidate_Ok:
  assumes "holds s b es" "consolidate b = Ok c"
  obtains ms where "holds s c ms" "merge_sorted es = Ok ms" "canon ms" "zw ms = zw es"
proof -
  obtain ms where ms: "merge_sorted es = Ok ms" and c: "from_entries s ms = Ok c"
    using assms by (auto simp: consolidate_def consolidated_entries_def holds_entries result_simps)
  moreover have "holds s c ms" using c assms(1) by (simp add: holds_def)
  ultimately show ?thesis using that merge_sorted_Ok by blast
qed

lemma consolidate_Err:
  assumes "holds s b es" "consolidate b = Err e"
  shows "e = WeightOverflow ''consolidating weights for equal rows''"
proof (cases "merge_sorted es")
  case (Inl e')
  then have "e = e'" using assms by (simp add: consolidate_def consolidated_entries_def holds_entries)
  obtain acc x where "merge_step acc x = Err e'"
    using Inl by (auto simp: merge_sorted_def result_simps dest!: foldR_Err)
  then show ?thesis
    using \<open>e = e'\<close> by (auto simp: merge_step_def result_simps split: prod.splits list.splits if_splits)
next
  case (Inr ms)
  have "fst ` set ms \<subseteq> fst ` set es"
  proof
    fix r assume "r \<in> fst ` set ms"
    then have "map_of ms r \<noteq> None" by (auto simp: map_of_eq_None_iff)
    then have "zw ms r \<noteq> 0" using merge_sorted_Ok(1) [OF Inr] by (auto simp: canon_weight split: if_splits)
    then show "r \<in> fst ` set es" using merge_sorted_Ok(2) [OF Inr] zw_notin [of r es] by auto
  qed
  then have "\<forall>x \<in> set ms. row_conforms s (fst x)"
    using holds_conforms [OF assms(1)] by (metis (no_types, lifting) image_iff image_subset_iff)
  then have "is_ok (from_entries s ms)"
    using assms(1) from_entries_ok_iff [of s ms] by (simp add: holds_def)
  then show ?thesis
    using assms Inr holds_schema [OF assms(1)]
    by (simp add: consolidate_def consolidated_entries_def holds_entries)
qed

lemma zb_canonical_holds:
  "holds s b es \<Longrightarrow> zb_canonical b = bindR (merge_sorted es) (\<lambda>ms. Ok \<lparr>ca_schema = s, ca_entries = ms\<rparr>)"
  by (simp add: zb_canonical_def consolidated_entries_def holds_entries)

lemma zb_add_Ok:
  assumes "holds s a xs" "holds s b ys" "zb_add a b = Ok c"
  shows "holds s c (xs @ ys)"
  using assms holds_schema [OF assms(1)] holds_schema [OF assms(2)]
  by (auto simp: zb_add_def holds_entries) (simp add: holds_def)

lemma zb_add_total:
  assumes "holds s a xs" "holds s b ys"
  obtains c where "zb_add a b = Ok c" "holds s c (xs @ ys)"
proof -
  have ok: "schema_ok s" using assms(1) by (simp add: holds_def)
  have "\<forall>e \<in> set (xs @ ys). row_conforms s (fst e)"
    using holds_conforms [OF assms(1)] holds_conforms [OF assms(2)] by (simp add: ball_Un)
  then obtain c where c: "from_entries s (xs @ ys) = Ok c" using from_entries_ok_iff [OF ok] by (metis is_ok_iff)
  have "zb_add a b = Ok c"
    using c holds_schema [OF assms(1)] holds_schema [OF assms(2)]
    by (simp add: zb_add_def holds_entries [OF assms(1)] holds_entries [OF assms(2)])
  then show thesis by (rule that) (use c ok in \<open>simp add: holds_def\<close>)
qed

lemma negate_entries_Ok:
  "mapR negate_entry es = Ok fs \<Longrightarrow> fs = map (\<lambda>(r, w). (r, - w)) es"
  by (auto simp: mapR_eq_Ok negate_entry_def result_simps list_all2_conv_all_nth split_beta
      intro!: nth_equalityI)

lemma zw_negate: "zw (map (\<lambda>(r, w). (r, - w)) es) r = - zw es r"
  by (induction es) auto

lemma zb_negate_Ok:
  assumes "holds s b es" "zb_negate b = Ok c"
  shows "holds s c (map (\<lambda>(r, w). (r, - w)) es)"
  using assms by (auto simp: zb_negate_def holds_entries result_simps dest!: negate_entries_Ok)
    (simp add: holds_def)

lemma zb_negate_ok_iff:
  assumes "holds s b es" "\<forall>e \<in> set es. in_i64 (snd e)"
  shows "is_ok (zb_negate b) \<longleftrightarrow> i64_min \<notin> snd ` set es"
proof -
  have "is_ok (negate_entry e) \<longleftrightarrow> snd e \<noteq> i64_min" if "e \<in> set es" for e
    using assms(2) that by (cases e) (force simp: negate_entry_def is_ok_iff result_simps i64_defs)
  then have "is_ok (mapR negate_entry es) \<longleftrightarrow> i64_min \<notin> snd ` set es" by (auto simp: mapR_ok_iff image_iff)
  moreover have "is_ok (from_entries s (map (\<lambda>(r, w). (r, - w)) es))"
    using holds_conforms [OF assms(1)] assms(1) by (auto simp: from_entries_ok_iff holds_def)
  ultimately show ?thesis
    using negate_entries_Ok [of es] holds_schema [OF assms(1)]
    by (cases "mapR negate_entry es") (auto simp: zb_negate_def holds_entries [OF assms(1)])
qed


section \<open>When merging overflows\<close>

text \<open>
  Merging adds the weights of a row in arrival order and checks every sum. \<open>running_sums_ok f es\<close> says that
  no such sum leaves the range when the weight of a row starts from \<open>f\<close>.
\<close>

definition running_sums_ok :: "(row \<Rightarrow> int) \<Rightarrow> entries \<Rightarrow> bool" where
  "running_sums_ok f es \<longleftrightarrow> (\<forall>i < length es. in_i64 (f (fst (es ! i)) + zw (take (Suc i) es) (fst (es ! i))))"

definition weights_of :: "row \<Rightarrow> entries \<Rightarrow> int list" where
  "weights_of r es = map snd (filter (\<lambda>e. fst e = r) es)"

lemma running_sums_Cons:
  "running_sums_ok f (e # es) \<longleftrightarrow> in_i64 (f (fst e) + snd e) \<and> running_sums_ok (f(fst e := f (fst e) + snd e)) es"
  by (cases e) (auto simp: running_sums_ok_def All_less_Suc2 add.assoc)

lemma running_sums_Nil [simp]: "running_sums_ok f []"
  by (simp add: running_sums_ok_def)

lemma all_nat_cases: "(\<forall>k. P k) \<longleftrightarrow> P 0 \<and> (\<forall>k. P (Suc k))"
  by (metis not0_implies_Suc)

text \<open>The sums of different rows do not meet, so only the order within a row matters.\<close>

lemma running_sums_rows:
  assumes "\<forall>r. in_i64 (f r)"
  shows "running_sums_ok f es \<longleftrightarrow> (\<forall>r k. in_i64 (f r + sum_list (take k (weights_of r es))))"
  using assms
proof (induction es arbitrary: f)
  case (Cons e es)
  let ?g = "f(fst e := f (fst e) + snd e)"
  have split: "(\<forall>k. in_i64 (f r + sum_list (take k (weights_of r (e # es)))))
    \<longleftrightarrow> in_i64 (f r) \<and> in_i64 (?g r) \<and> (\<forall>k. in_i64 (?g r + sum_list (take k (weights_of r es))))" for r
  proof (cases "fst e = r")
    case True
    then have "(\<forall>k. in_i64 (f r + sum_list (take k (weights_of r (e # es)))))
      \<longleftrightarrow> in_i64 (f r) \<and> (\<forall>k. in_i64 (f r + (snd e + sum_list (take k (weights_of r es)))))"
      by (subst all_nat_cases) (simp add: weights_of_def)
    then show ?thesis using True by (auto simp: add.assoc dest: spec [of _ 0])
  next
    case False
    then show ?thesis using Cons.prems by (auto simp: weights_of_def)
  qed
  show ?case
  proof (cases "in_i64 (f (fst e) + snd e)")
    case True
    then have g: "\<forall>r. in_i64 (?g r)" using Cons.prems by simp
    have "running_sums_ok f (e # es) \<longleftrightarrow> running_sums_ok ?g es" using True by (simp only: running_sums_Cons simp_thms)
    also have "\<dots> \<longleftrightarrow> (\<forall>r k. in_i64 (?g r + sum_list (take k (weights_of r es))))" by (rule Cons.IH [OF g])
    also have "\<dots> \<longleftrightarrow> (\<forall>r k. in_i64 (f r + sum_list (take k (weights_of r (e # es)))))" using split g Cons.prems by blast
    finally show ?thesis .
  next
    case False
    then show ?thesis using split [of "fst e"] by (auto simp: running_sums_Cons)
  qed
qed (simp add: weights_of_def)

lemma running_sums_sort:
  "\<forall>r. in_i64 (f r) \<Longrightarrow> running_sums_ok f (sort_key fst es) \<longleftrightarrow> running_sums_ok f es"
  by (simp add: running_sums_rows weights_of_def sort_key_stable)

lemma merge_step_ok_iff:
  assumes "canon (rev acc)" "\<forall>k \<in> fst ` set acc. k \<le> r" "\<forall>e \<in> set acc. in_i64 (snd e)" "in_i64 w"
  shows "is_ok (merge_step acc (r, w)) \<longleftrightarrow> in_i64 (zw acc r + w)"
proof (cases "acc \<noteq> [] \<and> fst (hd acc) = r")
  case True
  then obtain w' rest where acc: "acc = (r, w') # rest" by (cases acc) auto
  then have "r \<notin> fst ` set rest" using assms(1) by (auto simp: canon_def bt_ok_snoc)
  then have "zw acc r = w'" using acc by (simp add: zw_notin)
  then show ?thesis using acc assms(3) by (auto simp: merge_step_def is_ok_iff result_simps)
next
  case False
  have "r \<notin> fst ` set acc"
  proof
    assume r: "r \<in> fst ` set acc"
    then obtain a rest where acc: "acc = a # rest" by (cases acc) auto
    then have "\<forall>k \<in> fst ` set rest. k < fst a" using assms(1) by (cases a) (auto simp: canon_def bt_ok_snoc)
    then show False using r acc False assms(2) by force
  qed
  then show ?thesis using False assms(4) by (auto simp: zw_notin merge_step_def is_ok_iff split: list.splits)
qed

lemma merge_loop_ok_iff:
  assumes "sorted (map fst es)" "canon (rev acc)" "\<forall>k \<in> fst ` set acc. \<forall>k' \<in> fst ` set es. k \<le> k'"
    "\<forall>e \<in> set acc. in_i64 (snd e)" "\<forall>e \<in> set es. in_i64 (snd e)"
  shows "is_ok (foldR merge_step acc es) \<longleftrightarrow> running_sums_ok (zw acc) es"
  using assms
proof (induction es arbitrary: acc)
  case (Cons e es)
  obtain r w where e: "e = (r, w)" by (cases e)
  have le: "\<forall>k \<in> fst ` set acc. k \<le> r" using Cons.prems(3) e by auto
  have here: "is_ok (merge_step acc e) \<longleftrightarrow> in_i64 (zw acc r + w)"
    unfolding e by (rule merge_step_ok_iff [OF Cons.prems(2) le Cons.prems(4)]) (use Cons.prems(5) e in simp)
  show ?case
  proof (cases "merge_step acc e")
    case (Inl x)
    then show ?thesis using here e by (simp add: running_sums_Cons)
  next
    case (Inr acc1)
    note inv = merge_step_inv [OF Inr [unfolded e] Cons.prems(2) le]
    have acc1: "\<forall>x \<in> set acc1. in_i64 (snd x)"
      using Inr Cons.prems(4,5) e by (auto simp: merge_step_def result_simps Ball_def split: if_splits list.splits)
    have step: "zw acc1 = (zw acc)(r := zw acc r + w)" using inv(3) by (auto simp: fun_eq_iff)
    have "is_ok (foldR merge_step acc1 es) \<longleftrightarrow> running_sums_ok (zw acc1) es"
      by (rule Cons.IH) (use Cons.prems inv acc1 e in \<open>fastforce+\<close>)
    then show ?thesis using Inr here e step by (simp add: running_sums_Cons)
  qed
qed simp

lemma merge_sorted_ok_iff:
  assumes "\<forall>e \<in> set es. in_i64 (snd e)"
  shows "is_ok (merge_sorted es) \<longleftrightarrow> running_sums_ok (\<lambda>_. 0) es"
proof -
  have "is_ok (merge_sorted es) \<longleftrightarrow> is_ok (foldR merge_step [] (sort_key fst es))"
    by (cases "foldR merge_step [] (sort_key fst es)") (simp_all add: merge_sorted_def)
  also have "\<dots> \<longleftrightarrow> running_sums_ok (zw []) (sort_key fst es)"
    by (rule merge_loop_ok_iff) (use assms in \<open>simp_all add: canon_def\<close>)
  also have "zw [] = (\<lambda>_. 0)" by (simp add: fun_eq_iff)
  finally show ?thesis by (simp add: running_sums_sort)
qed

lemma zb_canonical_ok_iff:
  assumes "holds s b es" "\<forall>e \<in> set es. in_i64 (snd e)"
  shows "is_ok (zb_canonical b) \<longleftrightarrow> running_sums_ok (\<lambda>_. 0) es"
  using merge_sorted_ok_iff [OF assms(2)] by (cases "merge_sorted es") (simp_all add: zb_canonical_holds [OF assms(1)])

lemma zb_canonical_unique:
  assumes "holds s b es" "holds s c fs" "zw es = zw fs" "is_ok (zb_canonical b)" "is_ok (zb_canonical c)"
  shows "zb_canonical b = zb_canonical c"
proof -
  obtain ms ns where "merge_sorted es = Ok ms" "merge_sorted fs = Ok ns"
    using assms(4,5) unfolding zb_canonical_holds [OF assms(1)] zb_canonical_holds [OF assms(2)]
    by (cases "merge_sorted es"; cases "merge_sorted fs") auto
  moreover from this have "ms = ns" by (rule merge_sorted_unique [OF _ _ assms(3)])
  ultimately show ?thesis by (simp add: zb_canonical_holds [OF assms(1)] zb_canonical_holds [OF assms(2)])
qed

section \<open>Properties\<close>

text \<open>
  C18: Building a batch over a schema made by \<open>Schema::new\<close> succeeds exactly when every row has one
  value per column of the column's type, with no null in a \<open>NOT NULL\<close> column; and the columnar
  batch then gives back, through \<open>entries\<close>, exactly the rows and weights it was built from.
\<close>

theorem from_entries_roundtrip:
  assumes "schema_new fs = Ok s"
  shows "case from_entries s es of
      Inr b \<Rightarrow> zb_entries b = Ok es \<and> zb_len b = length es \<and> (\<forall>(r, w) \<in> set es. row_conforms s r)
    | Inl _ \<Rightarrow> \<exists>(r, w) \<in> set es. \<not> row_conforms s r"
proof -
  have ok: "schema_ok s" using assms schema_new_Ok by blast
  show ?thesis
  proof (cases "from_entries s es")
    case (Inr b)
    then have "holds s b es" using ok by (simp add: holds_def)
    then show ?thesis using Inr holds_entries holds_len holds_conforms by fastforce
  next
    case (Inl e)
    then have "\<not> is_ok (from_entries s es)" by simp
    then show ?thesis using Inl from_entries_ok_iff [OF ok, of es] by auto
  qed
qed

theorem from_entries_roundtrip_witness:
  "schema_new [field_nullable ''k'' Int64, field_not_null ''s'' Utf8]
      = Ok \<lparr>sc_fields = [field_nullable ''k'' Int64, field_not_null ''s'' Utf8]\<rparr> \<and>
   (case from_entries \<lparr>sc_fields = [field_nullable ''k'' Int64, field_not_null ''s'' Utf8]\<rparr>
        [([VNull, VStr ''a''], 2), ([VInt 7, VStr ''b''], - 1)] of
      Inr b \<Rightarrow> zb_entries b = Ok [([VNull, VStr ''a''], 2), ([VInt 7, VStr ''b''], - 1)] \<and> zb_len b = 2
    | Inl _ \<Rightarrow> False)"
proof -
  have s: "schema_new [field_nullable ''k'' Int64, field_not_null ''s'' Utf8]
      = Ok \<lparr>sc_fields = [field_nullable ''k'' Int64, field_not_null ''s'' Utf8]\<rparr>"
    by code_simp
  show ?thesis
    using s from_entries_roundtrip [OF s, of "[([VNull, VStr ''a''], 2), ([VInt 7, VStr ''b''], - 1)]"]
    by (auto split: sum.splits simp: row_conforms_def value_conforms_def fits_def
        field_nullable_def field_not_null_def)
qed

text \<open>
  C19: Consolidating a batch yields its canonical form: rows strictly increasing in the total order,
  no zero weight, and every row's weight the sum of its weights before. The result is a batch over
  the same schema, and consolidating it again changes nothing.
\<close>

theorem consolidate_canonical:
  assumes "schema_ok s" "from_entries s es = Ok b" "consolidate b = Ok c"
  shows "\<exists>ms. zb_entries c = Ok ms \<and> zb_schema c = s \<and> sorted_wrt (<) (map fst ms)
    \<and> (\<forall>e \<in> set ms. snd e \<noteq> 0) \<and> (\<forall>r. zw ms r = zw es r) \<and> consolidate c = Ok c"
proof -
  have b: "holds s b es" using assms by (simp add: holds_def)
  obtain ms where ms: "holds s c ms" "canon ms" "zw ms = zw es"
    using consolidate_Ok [OF b assms(3)] by blast
  have "consolidate c = Ok c"
    using ms holds_schema [OF ms(1)]
    by (simp add: consolidate_def consolidated_entries_def holds_entries merge_sorted_canon)
      (simp add: holds_def)
  then show ?thesis
    using ms holds_entries [OF ms(1)] holds_schema [OF ms(1)]
    by (auto simp: canon_def bt_ok_def)
qed

theorem consolidate_canonical_witness:
  "\<exists>b c ms. from_entries \<lparr>sc_fields = [field_nullable ''k'' Int64]\<rparr>
      [([VInt 2], 1), ([VInt 1], 3), ([VInt 2], - 1), ([VInt 1], 4)] = Ok b
    \<and> consolidate b = Ok c \<and> zb_entries c = Ok ms \<and> zw ms [VInt 1] = 7 \<and> zw ms [VInt 2] = 0
    \<and> consolidate c = Ok c"
proof -
  let ?s = "\<lparr>sc_fields = [field_nullable ''k'' Int64]\<rparr>"
  let ?b = "\<lparr>zb_schema = ?s, zb_batch = [Int64Array [Some 2, Some 1, Some 2, Some 1]],
    zb_weights = [1, 3, - 1, 4]\<rparr>"
  let ?c = "\<lparr>zb_schema = ?s, zb_batch = [Int64Array [Some 1]], zb_weights = [7]\<rparr>"
  have b: "from_entries ?s [([VInt 2], 1), ([VInt 1], 3), ([VInt 2], - 1), ([VInt 1], 4)] = Ok ?b"
    by code_simp
  have c: "consolidate ?b = Ok ?c" by code_simp
  have s: "schema_ok ?s" by code_simp
  from consolidate_canonical [OF s b c] b c show ?thesis by fastforce
qed

text \<open>
  C20: The laws of addition, and where they stop. Two batches over one schema can be added in either
  order. A sum has a canonical form exactly when no running sum of the weights of a row, taken in arrival
  order, leaves the 64-bit range; so one order may have a canonical form and the other not. Where both
  have one it is the same. A batch can be negated exactly when no weight is the least 64-bit integer, and
  the canonical form of a batch and its negation, where there is one, is empty.
\<close>

theorem zset_group_laws:
  assumes "schema_ok s" "from_entries s xs = Ok a" "from_entries s ys = Ok b"
    and "\<forall>e \<in> set (xs @ ys). in_i64 (snd e)"
  shows "(\<exists>ab ba. zb_add a b = Ok ab \<and> zb_add b a = Ok ba
      \<and> (is_ok (zb_canonical ab) \<longleftrightarrow> running_sums_ok (\<lambda>_. 0) (xs @ ys))
      \<and> (is_ok (zb_canonical ba) \<longleftrightarrow> running_sums_ok (\<lambda>_. 0) (ys @ xs))
      \<and> (is_ok (zb_canonical ab) \<and> is_ok (zb_canonical ba) \<longrightarrow> zb_canonical ab = zb_canonical ba))
    \<and> (is_ok (zb_negate a) \<longleftrightarrow> i64_min \<notin> snd ` set xs)
    \<and> (\<forall>na. zb_negate a = Ok na \<longrightarrow> (\<exists>z. zb_add a na = Ok z
      \<and> (is_ok (zb_canonical z) \<longrightarrow> zb_canonical z = Ok \<lparr>ca_schema = s, ca_entries = []\<rparr>)))"
proof (intro conjI allI impI)
  have a: "holds s a xs" and b: "holds s b ys" using assms by (simp_all add: holds_def)
  obtain ab where ab: "zb_add a b = Ok ab" "holds s ab (xs @ ys)" by (rule zb_add_total [OF a b])
  obtain ba where ba: "zb_add b a = Ok ba" "holds s ba (ys @ xs)" by (rule zb_add_total [OF b a])
  have "zw (xs @ ys) = zw (ys @ xs)" by (simp add: fun_eq_iff)
  then have "zb_canonical ab = zb_canonical ba" if "is_ok (zb_canonical ab) \<and> is_ok (zb_canonical ba)"
    using zb_canonical_unique [OF ab(2) ba(2)] that by simp
  then show "\<exists>ab ba. zb_add a b = Ok ab \<and> zb_add b a = Ok ba
      \<and> (is_ok (zb_canonical ab) \<longleftrightarrow> running_sums_ok (\<lambda>_. 0) (xs @ ys))
      \<and> (is_ok (zb_canonical ba) \<longleftrightarrow> running_sums_ok (\<lambda>_. 0) (ys @ xs))
      \<and> (is_ok (zb_canonical ab) \<and> is_ok (zb_canonical ba) \<longrightarrow> zb_canonical ab = zb_canonical ba)"
    using ab(1) ba(1) zb_canonical_ok_iff [OF ab(2)] zb_canonical_ok_iff [OF ba(2)] assms(4) by (intro exI conjI) auto
  show "is_ok (zb_negate a) \<longleftrightarrow> i64_min \<notin> snd ` set xs"
    by (rule zb_negate_ok_iff [OF a]) (use assms(4) in simp)
  fix na assume na: "zb_negate a = Ok na"
  obtain z where z: "zb_add a na = Ok z" "holds s z (xs @ map (\<lambda>(r, w). (r, - w)) xs)"
    by (rule zb_add_total [OF a zb_negate_Ok [OF a na]])
  have "merge_sorted [] = Ok []" by (simp add: merge_sorted_def)
  then have "ms = []" if "merge_sorted (xs @ map (\<lambda>(r, w). (r, - w)) xs) = Ok ms" for ms
    by (rule merge_sorted_unique [OF that]) (simp add: fun_eq_iff zw_negate)
  then have "is_ok (zb_canonical z) \<longrightarrow> zb_canonical z = Ok \<lparr>ca_schema = s, ca_entries = []\<rparr>"
    unfolding zb_canonical_holds [OF z(2)] by (cases "merge_sorted (xs @ map (\<lambda>(r, w). (r, - w)) xs)") auto
  then show "\<exists>z. zb_add a na = Ok z \<and> (is_ok (zb_canonical z) \<longrightarrow> zb_canonical z = Ok \<lparr>ca_schema = s, ca_entries = []\<rparr>)"
    using z(1) by blast
qed

theorem zset_group_laws_witness:
  "\<exists>a b ab ba. from_entries \<lparr>sc_fields = [field_nullable ''k'' Int64]\<rparr> [([VInt 2], i64_max)] = Ok a
    \<and> from_entries \<lparr>sc_fields = [field_nullable ''k'' Int64]\<rparr> [([VInt 2], 1), ([VInt 2], - 1)] = Ok b
    \<and> zb_add a b = Ok ab \<and> zb_add b a = Ok ba \<and> \<not> is_ok (zb_canonical ab) \<and> is_ok (zb_canonical ba) \<and> is_ok (zb_negate a)"
proof -
  let ?s = "\<lparr>sc_fields = [field_nullable ''k'' Int64]\<rparr>"
  let ?b = "\<lambda>vs ws. \<lparr>zb_schema = ?s, zb_batch = [Int64Array vs], zb_weights = ws\<rparr>"
  have s: "schema_ok ?s" by code_simp
  have a: "from_entries ?s [([VInt 2], i64_max)] = Ok (?b [Some 2] [i64_max])" by code_simp
  have b: "from_entries ?s [([VInt 2], 1), ([VInt 2], - 1)] = Ok (?b [Some 2, Some 2] [1, - 1])" by code_simp
  have range: "\<forall>e \<in> set ([([VInt 2], i64_max)] @ [([VInt 2], 1), ([VInt 2], - 1)]). in_i64 (snd e)" by (simp add: i64_defs)
  have "\<not> running_sums_ok (\<lambda>_. 0) ([([VInt 2], i64_max)] @ [([VInt 2], 1), ([VInt 2], - 1)])"
    "running_sums_ok (\<lambda>_. 0) ([([VInt 2], 1), ([VInt 2], - 1)] @ [([VInt 2], i64_max)])"
    "i64_min \<notin> snd ` set [([VInt 2], i64_max)]"
    by (simp_all add: running_sums_Cons i64_defs)
  then show ?thesis using zset_group_laws [OF s a b range] a b by blast
qed

end
