(* ===== verification/Bind.thy ===== *)
theory Bind
  imports Plan ZSet_Props
begin

text \<open>
  Binding a query against a catalog (\<open>schweep-plan/src/bind.rs\<close>): name resolution, the type of every
  expression, and the schemas of the stages of the query. The main result is that binding is a
  sound type system for evaluation: a bound expression on a row of its scope yields a value of its
  type or one of the data-dependent evaluation errors, never any other failure.
\<close>

section \<open>Scopes and types\<close>

type_synonym catalog = "(string, schema) btree"

datatype naming = Qualified | Unqualified

record scope =
  sp_schema :: schema
  sp_naming :: naming

abbreviation Scope :: "schema \<Rightarrow> naming \<Rightarrow> scope" where
  "Scope s n \<equiv> \<lparr>sp_schema = s, sp_naming = n\<rparr>"

definition has_dot :: "string \<Rightarrow> bool" where
  "has_dot name \<longleftrightarrow> CHR ''.'' \<in> set name"

definition resolve :: "scope \<Rightarrow> string \<Rightarrow> (plan_error, field) result" where
  "resolve sc name =
    (if sp_naming sc = Qualified \<and> \<not> has_dot name then Err (UnqualifiedColumn name)
     else if sp_naming sc = Unqualified \<and> has_dot name then Err (QualifiedColumnAfterGroupBy name)
     else let unknown = UnknownColumn name (schema_to_string (sp_schema sc)) in
       bindR (ok_or (index_of (sp_schema sc) name) unknown)
         (\<lambda>i. ok_or (schema_field (sp_schema sc) i) unknown))"

definition literal_type :: "sql_value \<Rightarrow> (plan_error, data_type) result" where
  "literal_type v = (case v of
      VNull \<Rightarrow> Err UntypedNullLiteral
    | VFloat _ \<Rightarrow> Err (NotInDialect ''a FLOAT literal'')
    | _ \<Rightarrow> ok_or (value_data_type v) UntypedNullLiteral)"

definition binary_type :: "bin_op \<Rightarrow> data_type \<Rightarrow> data_type \<Rightarrow> (plan_error, data_type) result" where
  "binary_type op lt rt =
    (if is_arithmetic op
     then (if lt = Int64 \<and> rt = Int64 then Ok Int64 else Err (TypeMismatch (bin_op_name op) lt rt))
     else if lt = rt \<and> lt \<in> {Int64, Utf8, Boolean} then Ok Boolean
     else Err (TypeMismatch (bin_op_name op) lt rt))"

definition logic_type :: "string \<Rightarrow> data_type \<Rightarrow> data_type \<Rightarrow> (plan_error, data_type) result" where
  "logic_type op lt rt =
    (if lt = Boolean \<and> rt = Boolean then Ok Boolean else Err (TypeMismatch op lt rt))"

definition boolean_or :: "plan_error \<Rightarrow> data_type \<Rightarrow> (plan_error, data_type) result" where
  "boolean_or e found = (if found = Boolean then Ok Boolean else Err e)"

text \<open>The running branch type of a \<open>CASE\<close>: the first branch fixes it, later ones must agree.\<close>

definition join_branch :: "data_type option \<Rightarrow> data_type \<Rightarrow> (plan_error, data_type option) result" where
  "join_branch branch ty = (case branch of
      None \<Rightarrow> Ok (Some ty)
    | Some expected \<Rightarrow>
        if expected = ty then Ok branch else Err (CaseBranchTypeMismatch expected ty))"

function (sequential) type_of :: "expr \<Rightarrow> scope \<Rightarrow> (plan_error, data_type) result"
and type_of_whens :: "(expr \<times> expr) list \<Rightarrow> scope \<Rightarrow> data_type option \<Rightarrow> (plan_error, data_type option) result" where
  "type_of (Column name) sc = bindR (resolve sc name) (\<lambda>f. Ok (f_data_type f))"
| "type_of (Literal v) sc = literal_type v"
| "type_of (NullOf ty) sc = (if ty = Float64 then Err (NotInDialect ''a FLOAT null'') else Ok ty)"
| "type_of (Binary op left right) sc =
    bindR (type_of left sc) (\<lambda>lt. bindR (type_of right sc) (\<lambda>rt. binary_type op lt rt))"
| "type_of (Not inner) sc =
    bindR (type_of inner sc) (\<lambda>found. boolean_or (UnaryTypeMismatch ''NOT'' found) found)"
| "type_of (And left right) sc =
    bindR (type_of left sc) (\<lambda>lt. bindR (type_of right sc) (\<lambda>rt. logic_type ''AND'' lt rt))"
| "type_of (Or left right) sc =
    bindR (type_of left sc) (\<lambda>lt. bindR (type_of right sc) (\<lambda>rt. logic_type ''OR'' lt rt))"
| "type_of (IsNull inner) sc = bindR (type_of inner sc) (\<lambda>_. Ok Boolean)"
| "type_of (IsNotNull inner) sc = bindR (type_of inner sc) (\<lambda>_. Ok Boolean)"
| "type_of (Case whens otherwise) sc =
    (if whens = [] then Err EmptyCase
     else bindR (type_of_whens whens sc None)
       (\<lambda>branch. bindR (case otherwise of
            Some e \<Rightarrow> bindR (type_of e sc) (\<lambda>ty. join_branch branch ty)
          | None \<Rightarrow> Ok branch)
         (\<lambda>branch'. ok_or branch' EmptyCase)))"
| "type_of_whens [] sc branch = Ok branch"
| "type_of_whens ((condition, outcome) # whens) sc branch =
    bindR (type_of condition sc)
      (\<lambda>found. bindR (boolean_or (ExpectedBoolean ''a CASE condition'' found) found)
        (\<lambda>_. bindR (type_of outcome sc)
          (\<lambda>ty. bindR (join_branch branch ty) (\<lambda>branch'. type_of_whens whens sc branch'))))"
  by pat_completeness auto
termination
  by (relation "measure (case_sum (\<lambda>(e, _). size e) (\<lambda>(ws, _, _). size_list (size_prod size size) ws))")
    auto

definition expect_boolean :: "expr \<Rightarrow> scope \<Rightarrow> string \<Rightarrow> (plan_error, unit) result" where
  "expect_boolean e sc context =
    bindR (type_of e sc) (\<lambda>found. if found = Boolean then Ok () else Err (ExpectedBoolean context found))"

section \<open>Schemas of the stages\<close>

definition aggregate_result_type :: "agg_func \<Rightarrow> scope \<Rightarrow> (plan_error, data_type) result" where
  "aggregate_result_type func sc = (case func of
      CountStar \<Rightarrow> Ok Int64
    | Count arg \<Rightarrow> bindR (type_of arg sc) (\<lambda>_. Ok Int64)
    | Sum arg \<Rightarrow> bindR (type_of arg sc)
        (\<lambda>ty. if ty = Int64 then Ok Int64 else Err (AggregateTypeUnsupported (agg_name func) ty))
    | Avg arg \<Rightarrow> bindR (type_of arg sc)
        (\<lambda>ty. if ty = Int64 then Ok Float64 else Err (AggregateTypeUnsupported (agg_name func) ty))
    | Min arg \<Rightarrow> bindR (type_of arg sc)
        (\<lambda>ty. if ty \<in> {Int64, Utf8, Boolean} then Ok ty else Err (AggregateTypeUnsupported (agg_name func) ty))
    | Max arg \<Rightarrow> bindR (type_of arg sc)
        (\<lambda>ty. if ty \<in> {Int64, Utf8, Boolean} then Ok ty else Err (AggregateTypeUnsupported (agg_name func) ty)))"

definition output_field :: "string \<Rightarrow> data_type \<Rightarrow> field" where
  "output_field name ty = field_nullable name ty"

definition build_output_schema :: "field list \<Rightarrow> (plan_error, schema) result" where
  "build_output_schema fs = (case first_duplicate [] fs of
      Some n \<Rightarrow> Err (DuplicateOutputName n)
    | None \<Rightarrow> map_err PlanZSet (schema_new fs))"

definition bind_group_by :: "group_by \<Rightarrow> scope \<Rightarrow> (plan_error, schema) result" where
  "bind_group_by g input =
    (if gb_aggregates g = [] then Err EmptyGroupKeys
     else bindR (mapR (\<lambda>key. bindR (type_of (nm_value key) input)
              (\<lambda>ty. Ok (output_field (nm_name key) ty))) (gb_keys g))
       (\<lambda>ks. bindR (mapR (\<lambda>agg. bindR (aggregate_result_type (nm_value agg) input)
              (\<lambda>ty. Ok (output_field (nm_name agg) ty))) (gb_aggregates g))
         (\<lambda>gs. build_output_schema (ks @ gs))))"

definition projection_schema :: "scope \<Rightarrow> expr named list \<Rightarrow> (plan_error, schema) result" where
  "projection_schema sc items =
    bindR (mapR (\<lambda>item. bindR (type_of (nm_value item) sc)
        (\<lambda>ty. Ok (output_field (nm_name item) ty))) items) build_output_schema"

fun check_duplicate_alias :: "string list \<Rightarrow> string list \<Rightarrow> (plan_error, unit) result" where
  "check_duplicate_alias prior [] = Ok ()"
| "check_duplicate_alias prior (a # as) =
    (if a \<in> set prior then Err (DuplicateAlias a) else check_duplicate_alias (prior @ [a]) as)"

definition check_aliases_unique :: "source \<Rightarrow> (plan_error, unit) result" where
  "check_aliases_unique src = check_duplicate_alias [] (aliases src)"

definition check_join_key :: "scope \<Rightarrow> scope \<Rightarrow> string \<times> string \<Rightarrow> (plan_error, unit) result" where
  "check_join_key ls rs key =
    bindR (resolve ls (fst key)) (\<lambda>lf. bindR (resolve rs (snd key))
      (\<lambda>rf. if f_data_type lf \<noteq> f_data_type rf
            then Err (TypeMismatch ''join key ='' (f_data_type lf) (f_data_type rf)) else Ok ()))"

fun bind_source :: "source \<Rightarrow> catalog \<Rightarrow> (plan_error, schema) result" where
  "bind_source (Scan table alias) cat =
    bindR (ok_or (bt_get cat table) (UnknownTable table))
      (\<lambda>s. map_err PlanZSet (schema_new
        (map (\<lambda>f. f\<lparr>f_name := alias @ ''.'' @ f_name f\<rparr>) (sc_fields s))))"
| "bind_source (JoinSource left right on) cat =
    (if on = [] then Err CrossJoinNotSupported
     else bindR (bind_source left cat) (\<lambda>ls. bindR (bind_source right cat)
       (\<lambda>rs. bindR (mapR (check_join_key (Scope ls Qualified) (Scope rs Qualified)) on)
         (\<lambda>_. map_err PlanZSet (schema_new (sc_fields ls @ sc_fields rs))))))"

record bound =
  bd_input_schema :: schema
  bd_grouped_schema :: schema
  bd_output_schema :: schema

definition grouped_naming :: "query \<Rightarrow> naming" where
  "grouped_naming q = (if q_group_by q \<noteq> None then Unqualified else Qualified)"

definition bind :: "query \<Rightarrow> catalog \<Rightarrow> (plan_error, bound) result" where
  "bind q cat =
    bindR (check_aliases_unique (q_source q))
     (\<lambda>_. bindR (bind_source (q_source q) cat)
     (\<lambda>input. bindR (case q_filter q of
            Some p \<Rightarrow> expect_boolean p (Scope input Qualified) ''WHERE'' | None \<Rightarrow> Ok ())
     (\<lambda>_. bindR (case q_group_by q of
            None \<Rightarrow> Ok input | Some g \<Rightarrow> bind_group_by g (Scope input Qualified))
     (\<lambda>grouped. bindR (case q_group_by q of
            Some g \<Rightarrow> (case gb_having g of
                Some h \<Rightarrow> expect_boolean h (Scope grouped (grouped_naming q)) ''HAVING'' | None \<Rightarrow> Ok ())
          | None \<Rightarrow> Ok ())
     (\<lambda>_. bindR (case q_project q of
            None \<Rightarrow> Ok grouped | Some items \<Rightarrow> projection_schema (Scope grouped (grouped_naming q)) items)
     (\<lambda>output. Ok \<lparr>bd_input_schema = input, bd_grouped_schema = grouped, bd_output_schema = output\<rparr>))))))"

section \<open>Type soundness of evaluation\<close>

definition sound :: "data_type \<Rightarrow> (plan_error, sql_value) result \<Rightarrow> bool" where
  "sound ty r = (case r of Inr v \<Rightarrow> fits v ty | Inl e \<Rightarrow> is_evaluation_error e)"

lemma sound_simps [simp]:
  "sound ty (Ok v) = fits v ty"
  "sound ty (Err e) = is_evaluation_error e"
  by (simp_all add: sound_def)

lemma sound_bindR:
  assumes "sound ty r" and "\<And>v. r = Ok v \<Longrightarrow> fits v ty \<Longrightarrow> sound ty' (f v)"
  shows "sound ty' (bindR r f)"
  using assms by (cases r) auto

lemma fits_simps [simp]:
  "fits VNull ty"
  "fits (VInt i) ty \<longleftrightarrow> ty = Int64"
  "fits (VStr x) ty \<longleftrightarrow> ty = Utf8"
  "fits (VBool b) ty \<longleftrightarrow> ty = Boolean"
  "fits (VFloat w) ty \<longleftrightarrow> ty = Float64"
  by (auto simp: fits_def)

lemma resolve_Ok:
  "resolve sc name = Ok f \<Longrightarrow>
    \<exists>i. index_of (sp_schema sc) name = Some i \<and> i < length (sc_fields (sp_schema sc))
      \<and> f = sc_fields (sp_schema sc) ! i"
  by (auto simp: resolve_def schema_field_def Let_def result_simps split: if_splits)

lemma sound_column:
  assumes "resolve sc name = Ok f" "row_conforms (sp_schema sc) row"
  shows "sound (f_data_type f) (eval (Column name) row (sp_schema sc))"
proof -
  obtain i where i: "index_of (sp_schema sc) name = Some i" "i < length (sc_fields (sp_schema sc))"
      "f = sc_fields (sp_schema sc) ! i"
    using resolve_Ok [OF assms(1)] by blast
  moreover have "i < length row" "value_conforms f (row ! i)"
    using assms(2) i by (auto simp: row_conforms_def list_all2_conv_all_nth)
  ultimately show ?thesis by (simp add: row_get_def value_conforms_fits)
qed

lemma sound_arithmetic: "is_arithmetic op \<Longrightarrow> sound Int64 (bindR (eval_arithmetic op a b) (\<lambda>i. Ok (VInt i)))"
  by (cases op)
    (auto simp: eval_arithmetic_def is_arithmetic_def checked_defs ok_or_def Let_def split: option.splits)

lemma sound_compare: "\<not> is_arithmetic op \<Longrightarrow> sound Boolean (compare_values op ord)"
  by (cases op) (auto simp: compare_values_def is_arithmetic_def)

lemma fits_Int64: "fits v Int64 \<longleftrightarrow> v = VNull \<or> (\<exists>i. v = VInt i)"
  by (cases v) auto

lemma sound_binary:
  assumes "binary_type op lt rt = Ok ty" "fits l lt" "fits r rt"
  shows "sound ty (eval_binary op l r)"
proof (cases "is_arithmetic op")
  case True
  with assms have "lt = Int64" "rt = Int64" "ty = Int64"
    by (auto simp: binary_type_def split: if_splits)
  with assms True show ?thesis
    using sound_arithmetic [OF True] by (auto simp: eval_binary_def fits_Int64 is_null_def)
next
  case False
  with assms have "ty = Boolean" by (auto simp: binary_type_def split: if_splits)
  with False show ?thesis by (simp add: eval_binary_def sound_compare)
qed

lemma fits_kleene [simp]: "fits (kleene_and l r) Boolean" "fits (kleene_or l r) Boolean"
  by (auto simp: kleene_and_def kleene_or_def)

lemma join_branch_Ok: "join_branch b ty = Ok b' \<longleftrightarrow> b' = Some ty \<and> (b = None \<or> b = Some ty)"
  by (auto simp: join_branch_def split: option.splits if_splits)

lemma type_of_whens_keeps: "type_of_whens ws sc (Some ty) = Ok b \<Longrightarrow> b = Some ty"
proof (induction ws)
  case (Cons w ws)
  then show ?case by (cases w) (auto simp: result_simps join_branch_Ok)
qed simp

lemma type_soundness:
  "type_of e sc = Ok ty \<Longrightarrow> row_conforms (sp_schema sc) row
    \<Longrightarrow> sound ty (eval e row (sp_schema sc))"
  "type_of_whens ws sc b = Ok b' \<Longrightarrow> row_conforms (sp_schema sc) row
    \<Longrightarrow> case eval_whens ws row (sp_schema sc) of
          Inr None \<Rightarrow> True
        | Inr (Some v) \<Rightarrow> \<exists>ty. b' = Some ty \<and> fits v ty
        | Inl err \<Rightarrow> is_evaluation_error err"
proof (induction e sc and ws sc b arbitrary: ty and b' rule: type_of_type_of_whens.induct)
  case (1 name sc)
  then show ?case using sound_column by (auto simp: result_simps simp del: eval.simps)
next
  case (2 v sc)
  then show ?case by (cases v) (auto simp: literal_type_def)
next
  case (4 op left right sc)
  then show ?case by (auto simp: result_simps intro!: sound_bindR sound_binary)
next
  case (10 whens otherwise sc)
  obtain b1 b2 where ws: "type_of_whens whens sc None = Ok b1" and ne: "whens \<noteq> []"
    and other: "(case otherwise of Some e \<Rightarrow> bindR (type_of e sc) (\<lambda>ty. join_branch b1 ty) | None \<Rightarrow> Ok b1) = Ok b2"
    and ty: "b2 = Some ty"
    using 10(3) by (auto simp: result_simps split: if_splits)
  have b1: "b1 = None \<or> b1 = Some ty"
    using other ty by (auto simp: result_simps join_branch_Ok split: option.splits)
  note IH = 10(1) [OF ne ws 10(4)]
  show ?case
  proof (cases "eval_whens whens row (sp_schema sc)")
    case (Inl e)
    then show ?thesis using IH by simp
  next
    case (Inr found)
    show ?thesis
    proof (cases found)
      case (Some v)
      then show ?thesis using IH Inr b1 by auto
    next
      case None
      then show ?thesis
        using Inr other 10(2) [OF ne ws _ _ 10(4)]
        by (cases otherwise) (auto simp: result_simps join_branch_Ok ty)
    qed
  qed
next
  case (12 condition outcome whens sc b)
  obtain ty b1 where c: "type_of condition sc = Ok Boolean" and o: "type_of outcome sc = Ok ty"
    and j: "join_branch b ty = Ok b1" and rest: "type_of_whens whens sc b1 = Ok b'"
    using 12(4) by (auto simp: result_simps boolean_or_def split: if_splits)
  have b': "b' = Some ty" using j rest by (auto simp: join_branch_Ok dest: type_of_whens_keeps)
  have "sound Boolean (eval condition row (sp_schema sc))" "sound ty (eval outcome row (sp_schema sc))"
    using 12(1) [OF c 12(5)] 12(2) [OF c _ o 12(5)] by (auto simp: boolean_or_def)
  moreover have "case eval_whens whens row (sp_schema sc) of
          Inr None \<Rightarrow> True
        | Inr (Some v) \<Rightarrow> \<exists>ty. b' = Some ty \<and> fits v ty
        | Inl err \<Rightarrow> is_evaluation_error err"
    using 12(3) [OF c _ o j rest 12(5)] by (auto simp: boolean_or_def)
  ultimately show ?case
    by (cases "eval condition row (sp_schema sc)"; cases "eval outcome row (sp_schema sc)")
      (auto simp: b')
qed (auto simp: result_simps boolean_or_def logic_type_def split: if_splits option.splits intro!: sound_bindR)

section \<open>Integers stay in range\<close>

function (sequential) expr_in_range :: "expr \<Rightarrow> bool"
and whens_in_range :: "(expr \<times> expr) list \<Rightarrow> bool" where
  "expr_in_range (Column _) = True"
| "expr_in_range (Literal v) = value_in_range v"
| "expr_in_range (NullOf _) = True"
| "expr_in_range (Binary _ l r) = (expr_in_range l \<and> expr_in_range r)"
| "expr_in_range (Not e) = expr_in_range e"
| "expr_in_range (And l r) = (expr_in_range l \<and> expr_in_range r)"
| "expr_in_range (Or l r) = (expr_in_range l \<and> expr_in_range r)"
| "expr_in_range (IsNull e) = expr_in_range e"
| "expr_in_range (IsNotNull e) = expr_in_range e"
| "expr_in_range (Case ws otherwise) =
    (whens_in_range ws \<and> (case otherwise of None \<Rightarrow> True | Some e \<Rightarrow> expr_in_range e))"
| "whens_in_range [] = True"
| "whens_in_range ((c, e) # ws) = (expr_in_range c \<and> expr_in_range e \<and> whens_in_range ws)"
  by pat_completeness auto
termination
  by (relation "measure (case_sum size (size_list (size_prod size size)))") auto

lemma eval_arithmetic_in_range:
  "eval_arithmetic op a b = Ok i \<Longrightarrow> in_i64 a \<Longrightarrow> in_i64 b \<Longrightarrow> in_i64 i"
  by (cases op)
    (auto simp: eval_arithmetic_def result_simps Let_def split: if_splits
      dest: in_i64_checked in_i64_checked_div in_i64_checked_rem)

lemma eval_binary_in_range:
  "eval_binary op l r = Ok v \<Longrightarrow> value_in_range l \<Longrightarrow> value_in_range r \<Longrightarrow> value_in_range v"
  by (cases op; cases l; cases r)
    (auto simp: eval_binary_def compare_values_def is_arithmetic_def is_null_def result_simps
      dest: eval_arithmetic_in_range)

lemma kleene_in_range [simp]: "value_in_range (kleene_and l r)" "value_in_range (kleene_or l r)"
  by (auto simp: kleene_and_def kleene_or_def)

lemma eval_in_range:
  "eval e row sch = Ok v \<Longrightarrow> list_all value_in_range row \<Longrightarrow> expr_in_range e \<Longrightarrow> value_in_range v"
  "eval_whens ws row sch = Ok (Some u) \<Longrightarrow> list_all value_in_range row \<Longrightarrow> whens_in_range ws
    \<Longrightarrow> value_in_range u"
proof (induction e row sch and ws row sch arbitrary: v and u rule: eval_eval_whens.induct)
  case (1 name row scope)
  then show ?case by (auto simp: result_simps row_get_def list_all_length split: if_splits)
next
  case (4 op left right row scope)
  then show ?case by (auto simp: result_simps dest: eval_binary_in_range)
next
  case (10 whens otherwise row scope)
  then show ?case by (fastforce simp: result_simps split: option.splits)
next
  case (12 condition outcome whens row scope)
  then show ?case by (fastforce simp: result_simps split: if_splits)
qed (auto simp: result_simps split: option.splits)

section \<open>The schemas that binding computes\<close>

definition catalog_ok :: "catalog \<Rightarrow> bool" where
  "catalog_ok cat \<longleftrightarrow> bt_ok cat \<and> (\<forall>(t, s) \<in> set cat. schema_ok s)"

lemma catalog_ok_get: "catalog_ok cat \<Longrightarrow> bt_get cat t = Some s \<Longrightarrow> schema_ok s"
  by (auto simp: catalog_ok_def bt_get_iff)

lemma schema_new_schema_ok: "schema_new fs = Ok s \<Longrightarrow> schema_ok s"
  using schema_new_Ok by blast

lemma schema_new_fields: "schema_new fs = Ok s \<Longrightarrow> sc_fields s = fs"
  using schema_new_Ok by (metis schema.select_convs(1))

lemma bind_source_schema_ok: "bind_source src cat = Ok s \<Longrightarrow> schema_ok s"
  by (induction src arbitrary: s) (auto simp: result_simps split: if_splits dest: schema_new_schema_ok)

lemma build_output_schema_ok: "build_output_schema fs = Ok s \<Longrightarrow> schema_ok s"
  by (auto simp: build_output_schema_def result_simps split: option.splits dest: schema_new_schema_ok)

lemma bind_Ok:
  assumes "bind q cat = Ok b"
  shows "bind_source (q_source q) cat = Ok (bd_input_schema b)"
    and "q_filter q = Some p \<Longrightarrow> type_of p (Scope (bd_input_schema b) Qualified) = Ok Boolean"
    and "q_group_by q = None \<Longrightarrow> bd_grouped_schema b = bd_input_schema b"
    and "q_group_by q = Some g \<Longrightarrow> bind_group_by g (Scope (bd_input_schema b) Qualified) = Ok (bd_grouped_schema b)"
    and "q_group_by q = Some g \<Longrightarrow> gb_having g = Some h \<Longrightarrow>
      type_of h (Scope (bd_grouped_schema b) Unqualified) = Ok Boolean"
    and "q_project q = None \<Longrightarrow> bd_output_schema b = bd_grouped_schema b"
    and "q_project q = Some items \<Longrightarrow>
      projection_schema (Scope (bd_grouped_schema b) (grouped_naming q)) items = Ok (bd_output_schema b)"
  using assms
  by (auto simp: bind_def result_simps expect_boolean_def grouped_naming_def split: if_splits option.splits)

lemma bind_schemas_ok:
  assumes "bind q cat = Ok b"
  shows "schema_ok (bd_input_schema b)" "schema_ok (bd_grouped_schema b)" "schema_ok (bd_output_schema b)"
proof -
  show i: "schema_ok (bd_input_schema b)"
    using bind_Ok(1) [OF assms] bind_source_schema_ok by blast
  show g: "schema_ok (bd_grouped_schema b)"
    using bind_Ok(3,4) [OF assms] i
    by (cases "q_group_by q") (auto simp: bind_group_by_def result_simps split: if_splits dest: build_output_schema_ok)
  show "schema_ok (bd_output_schema b)"
    using bind_Ok(6,7) [OF assms] g
    by (cases "q_project q") (auto simp: projection_schema_def result_simps dest: build_output_schema_ok)
qed

section \<open>Properties\<close>

text \<open>
  C21: Binding is sound for evaluation. An expression that type-checks in a scope, evaluated on a row
  of the scope's schema whose integers are 64-bit, yields a value of the checked type whose integer
  is 64-bit again, or one of the evaluation errors that are facts about the data; no other error
  can come out of evaluation.
\<close>

theorem eval_type_sound:
  assumes "type_of e (Scope s n) = Ok ty" "row_conforms s row"
    and "list_all value_in_range row" "expr_in_range e"
  shows "case eval e row s of
      Inr v \<Rightarrow> fits v ty \<and> value_in_range v
    | Inl err \<Rightarrow> is_evaluation_error err"
  using type_soundness(1) [OF assms(1), of row] eval_in_range(1) [of e row s] assms
  by (auto simp: sound_def split: sum.splits)

theorem eval_type_sound_witness:
  "let s = \<lparr>sc_fields = [field_nullable ''t.a'' Int64, field_not_null ''t.b'' Boolean]\<rparr>;
       e = Case [(Column ''t.b'', Binary Div (Literal (VInt 6)) (Column ''t.a''))] (Some (NullOf Int64))
   in type_of e (Scope s Qualified) = Ok Int64
      \<and> row_conforms s [VInt 0, VBool True] \<and> list_all value_in_range [VInt 0, VBool True]
      \<and> (\<exists>err. eval e [VInt 0, VBool True] s = Err err \<and> is_evaluation_error err)"
proof -
  let ?s = "\<lparr>sc_fields = [field_nullable ''t.a'' Int64, field_not_null ''t.b'' Boolean]\<rparr>"
  let ?e = "Case [(Column ''t.b'', Binary Div (Literal (VInt 6)) (Column ''t.a''))] (Some (NullOf Int64))"
  have ty: "type_of ?e (Scope ?s Qualified) = Ok Int64" by code_simp
  have row: "row_conforms ?s [VInt 0, VBool True]" by code_simp
  have range: "list_all value_in_range [VInt 0, VBool True]" "expr_in_range ?e" by code_simp+
  have "eval ?e [VInt 0, VBool True] ?s = Err (DivisionByZero ''/'')" by code_simp
  with eval_type_sound [OF ty row range] show ?thesis
    using ty row range by (simp add: Let_def)
qed

end
