(* ===== verification/State.thy ===== *)
theory State
  imports ZSet_Props "HOL-Library.Sublist"
begin

text \<open>
  Operator state: the \<open>StateBackend\<close> contract (\<open>schweep-state/src/backend.rs\<close>) as a locale, and its
  in-memory implementation \<open>MemBackend\<close> (\<open>mem.rs\<close>) on an ordered map from value tuples to weights.
  The locale carries the facts the stateful operators rest on; its interpretation discharges the
  contract for the code's own backend.
\<close>

section \<open>The in-memory backend\<close>

datatype state_error = StateWeightOverflow string | Backend string

type_synonym key = "sql_value list"
type_synonym write_batch = "(key \<times> int) list"
type_synonym mem_backend = "(key, int) btree"

definition mem_new :: mem_backend where
  "mem_new = []"

definition batch_add :: "key \<Rightarrow> int \<Rightarrow> write_batch \<Rightarrow> write_batch" where
  "batch_add k w b = b @ [(k, w)]"

definition pending_weight :: "mem_backend \<Rightarrow> (key, int) btree \<Rightarrow> key \<Rightarrow> int" where
  "pending_weight m staged k =
    (case bt_get staged k of Some pending \<Rightarrow> pending | None \<Rightarrow> bt_get_or 0 m k)"

definition stage_add :: "mem_backend \<Rightarrow> (key, int) btree \<Rightarrow> key \<times> int
    \<Rightarrow> (state_error, (key, int) btree) result" where
  "stage_add m staged e =
    bindR (ok_or (checked_add (pending_weight m staged (fst e)) (snd e))
        (StateWeightOverflow ''adding a weight to operator state''))
      (\<lambda>sum. Ok (bt_insert (fst e) sum staged))"

definition apply_staged :: "mem_backend \<Rightarrow> key \<times> int \<Rightarrow> mem_backend" where
  "apply_staged m e = (if snd e = 0 then bt_remove (fst e) m else bt_insert (fst e) (snd e) m)"

text \<open>The call returns its result and the store it leaves, on an error too.\<close>

definition mem_write :: "mem_backend \<Rightarrow> write_batch \<Rightarrow> (state_error, unit) result \<times> mem_backend" where
  "mem_write m batch =
    (case foldR (stage_add m) [] batch of
       Inl e \<Rightarrow> (Err e, m)
     | Inr staged \<Rightarrow> (Ok (), foldl apply_staged m staged))"

text \<open>
  \<open>visit_prefix\<close> with its visitor: a function of the captured state, the key and the weight that
  returns the new captured state and whether to go on.
\<close>

fun visit_range :: "(key \<times> int) list \<Rightarrow> key \<Rightarrow> ('s \<Rightarrow> key \<Rightarrow> int \<Rightarrow> 's \<times> bool) \<Rightarrow> 's \<Rightarrow> 's" where
  "visit_range [] p visitor s = s"
| "visit_range ((k, w) # rest) p visitor s =
    (if length k < length p \<or> \<not> prefix p k then s
     else case visitor s k w of (s', continue) \<Rightarrow> if continue then visit_range rest p visitor s' else s')"

definition mem_visit_prefix :: "mem_backend \<Rightarrow> key \<Rightarrow> ('s \<Rightarrow> key \<Rightarrow> int \<Rightarrow> 's \<times> bool) \<Rightarrow> 's \<Rightarrow> 's" where
  "mem_visit_prefix m p visitor s = visit_range (bt_range_from p m) p visitor s"

definition mem_scan_prefix :: "mem_backend \<Rightarrow> key \<Rightarrow> (key \<times> int) list" where
  "mem_scan_prefix m p = mem_visit_prefix m p (\<lambda>acc k w. (acc @ [(k, w)], True)) []"

definition mem_get :: "mem_backend \<Rightarrow> key \<Rightarrow> int option" where
  "mem_get m k = bt_get m k"

definition mem_len :: "mem_backend \<Rightarrow> nat" where
  "mem_len m = length m"

definition mem_iter_all :: "mem_backend \<Rightarrow> (key \<times> int) list" where
  "mem_iter_all m = m"

section \<open>A prefix is one contiguous range\<close>

lemma prefix_between:
  fixes p :: "'a::linorder list"
  shows "p \<le> k1 \<Longrightarrow> k1 \<le> k2 \<Longrightarrow> prefix p k2 \<Longrightarrow> prefix p k1"
proof (induction p arbitrary: k1 k2)
  case (Cons a p)
  obtain k2' where k2: "k2 = a # k2'" "prefix p k2'" using Cons.prems(3) by (cases k2) auto
  obtain b k1' where k1: "k1 = b # k1'" using Cons.prems(1) by (cases k1) auto
  show ?case using Cons.prems k1 k2 Cons.IH [of k1' k2'] by auto
qed simp

lemma prefix_ge:
  fixes p :: "'a::linorder list"
  shows "prefix p k \<Longrightarrow> p \<le> k"
  by (induction p arbitrary: k) (auto simp: prefix_def)

lemma visit_range_takeWhile:
  "visit_range es p visitor s = visit_range (takeWhile (\<lambda>(k, _). prefix p k) es) p visitor s"
proof (induction es arbitrary: s)
  case (Cons e es)
  then show ?case by (cases e) (auto split: prod.split dest: prefix_length_le)
qed simp

text \<open>The visitor sees exactly the entries under the prefix, in key order, until it stops.\<close>

fun visit_all :: "(key \<times> int) list \<Rightarrow> ('s \<Rightarrow> key \<Rightarrow> int \<Rightarrow> 's \<times> bool) \<Rightarrow> 's \<Rightarrow> 's" where
  "visit_all [] visitor s = s"
| "visit_all ((k, w) # rest) visitor s =
    (case visitor s k w of (s', continue) \<Rightarrow> if continue then visit_all rest visitor s' else s')"

lemma visit_range_all:
  "\<forall>e \<in> set es. prefix p (fst e) \<Longrightarrow> visit_range es p visitor s = visit_all es visitor s"
proof (induction es arbitrary: s)
  case (Cons e es)
  then show ?case by (cases e) (auto split: prod.split dest: prefix_length_le)
qed simp

lemma range_prefix_filter:
  assumes "bt_ok m"
  shows "takeWhile (\<lambda>(k, _). prefix p k) (bt_range_from p m) = filter (\<lambda>(k, _). prefix p k) m"
proof -
  let ?r = "filter (\<lambda>(k, _). p \<le> k) m"
  have "sorted_wrt (\<lambda>x y. fst x < fst y) ?r"
    using assms by (auto simp: bt_ok_def sorted_wrt_map intro: sorted_wrt_filter)
  then have "sorted_wrt (\<lambda>x y. (case y of (k, _) \<Rightarrow> prefix p k) \<longrightarrow> (case x of (k, _) \<Rightarrow> prefix p k)) ?r"
    by (rule sorted_wrt_mono_rel [rotated]) (clarsimp, metis less_imp_le prefix_between)
  then have "takeWhile (\<lambda>(k, _). prefix p k) ?r = filter (\<lambda>(k, _). prefix p k) ?r"
    by (rule takeWhile_eq_filter_sorted)
  also have "\<dots> = filter (\<lambda>(k, _). prefix p k) m"
    by (auto simp: filter_filter intro!: filter_cong dest: prefix_ge)
  finally show ?thesis by (simp add: bt_range_from_eq_filter [OF assms])
qed

lemma mem_visit_prefix_all:
  "bt_ok m \<Longrightarrow> mem_visit_prefix m p visitor s = visit_all (filter (\<lambda>(k, _). prefix p k) m) visitor s"
  unfolding mem_visit_prefix_def
  by (subst visit_range_takeWhile) (simp add: range_prefix_filter visit_range_all split_beta)

lemma visit_all_collect:
  "visit_all es (\<lambda>acc k w. (acc @ [(k, w)], True)) acc = acc @ es"
  by (induction es arbitrary: acc) auto

lemma mem_scan_prefix_filter:
  "bt_ok m \<Longrightarrow> mem_scan_prefix m p = filter (\<lambda>(k, _). prefix p k) m"
  by (simp add: mem_scan_prefix_def mem_visit_prefix_all visit_all_collect)

section \<open>Writes\<close>

lemma zw_bt: "bt_ok m \<Longrightarrow> zw m k = bt_get_or 0 m k"
proof (induction m)
  case (Cons e m)
  obtain k' v where e: "e = (k', v)" by (cases e)
  have "k' \<notin> fst ` set m" using Cons.prems e by auto
  then show ?case using Cons e zw_notin [of k' m] by (auto simp: bt_get_or_def)
qed simp

lemma stage_fold:
  assumes "foldR (stage_add m) staged batch = Ok staged'" "bt_ok staged"
  shows "bt_ok staged' \<and> (\<forall>k. pending_weight m staged' k = pending_weight m staged k + zw batch k)"
  using assms
proof (induction batch arbitrary: staged)
  case (Cons e batch)
  then obtain staged1 where s1: "stage_add m staged e = Ok staged1"
      and rest: "foldR (stage_add m) staged1 batch = Ok staged'"
    by (auto simp: result_simps)
  have s1': "staged1 = bt_insert (fst e) (pending_weight m staged (fst e) + snd e) staged"
    using s1 by (auto simp: stage_add_def result_simps)
  have "bt_ok staged1" using Cons.prems(2) s1' by simp
  with Cons.IH [OF rest] show ?case
    by (auto simp: s1' pending_weight_def btree_simps)
qed simp

lemma apply_staged_fold:
  assumes "canon m" "bt_ok staged"
  shows "canon (foldl apply_staged m staged) \<and>
    (\<forall>k. bt_get_or 0 (foldl apply_staged m staged) k = pending_weight m staged k)"
  using assms
proof (induction staged arbitrary: m)
  case (Cons e staged)
  obtain k v where e: "e = (k, v)" by (cases e)
  have canon: "canon (apply_staged m e)"
    using Cons.prems(1) by (auto simp: apply_staged_def canon_def e bt_remove_def bt_get_iff [symmetric] btree_simps
        split: if_splits)
  have "k \<notin> fst ` set staged" using Cons.prems(2) e by auto
  then have none: "bt_get staged k = None" by (simp add: bt_get_def map_of_eq_None_iff)
  have get: "bt_get_or 0 (apply_staged m e) k' = (if k' = k then v else bt_get_or 0 m k')" for k'
    by (auto simp: apply_staged_def e bt_get_or_def btree_simps)
  show ?case
    using Cons.IH [OF canon] Cons.prems(2) none get
    by (auto simp: e pending_weight_def bt_get_def split: option.splits)
qed (simp add: pending_weight_def bt_get_def)

lemma mem_write_Ok:
  assumes "canon m" "mem_write m batch = (Ok u, m')"
  shows "canon m'" "zw m' k = zw m k + zw batch k"
proof -
  obtain staged where st: "foldR (stage_add m) [] batch = Ok staged" and m': "m' = foldl apply_staged m staged"
    using assms(2) by (auto simp: mem_write_def split: sum.splits)
  note staged = stage_fold [OF st, simplified]
  note applied = apply_staged_fold [OF assms(1), of staged]
  show canon: "canon m'" using staged applied m' by blast
  have "zw m' k = bt_get_or 0 m' k" "zw m k = bt_get_or 0 m k"
    using canon assms(1) by (simp_all add: zw_bt canon_def)
  then show "zw m' k = zw m k + zw batch k"
    using staged applied m' by (simp add: pending_weight_def [of m "[]"] bt_get_def)
qed

lemma stage_fold_in_range:
  assumes "foldR (stage_add m) staged batch = Ok staged'" "\<forall>k. in_i64 (pending_weight m staged k)"
  shows "\<forall>k. in_i64 (pending_weight m staged' k)"
  by (rule foldR_inv [where P = "\<lambda>st. \<forall>k. in_i64 (pending_weight m st k)", OF assms])
    (auto simp: stage_add_def result_simps pending_weight_def btree_simps)

lemma mem_write_in_range:
  assumes "canon m" "mem_write m batch = (Ok u, m')" "\<forall>k. in_i64 (zw m k)"
  shows "\<forall>k. in_i64 (zw m' k)"
proof -
  obtain staged where st: "foldR (stage_add m) [] batch = Ok staged" and m': "m' = foldl apply_staged m staged"
    using assms(2) by (auto simp: mem_write_def split: sum.splits)
  have "\<forall>k. in_i64 (pending_weight m staged k)"
    by (rule stage_fold_in_range [OF st])
      (use assms in \<open>simp add: pending_weight_def bt_get_def zw_bt canon_def\<close>)
  then show ?thesis
    using apply_staged_fold [OF assms(1), of staged] stage_fold [OF st] mem_write_Ok(1) [OF assms(1,2)]
    by (simp add: m' zw_bt canon_def)
qed

lemma stage_add_ok: "is_ok (stage_add m staged e) \<longleftrightarrow>
    in_i64 (pending_weight m staged (fst e) + snd e)"
  by (auto simp: stage_add_def is_ok_iff result_simps)

lemma stage_fold_ok_iff:
  assumes "bt_ok staged"
  shows "is_ok (foldR (stage_add m) staged batch) \<longleftrightarrow> running_sums_ok (pending_weight m staged) batch"
  using assms
proof (induction batch arbitrary: staged)
  case (Cons e batch)
  show ?case
  proof (cases "stage_add m staged e")
    case (Inl err)
    then have "\<not> in_i64 (pending_weight m staged (fst e) + snd e)"
      using stage_add_ok [of m staged e] by simp
    then show ?thesis using Inl by (simp add: running_sums_Cons)
  next
    case (Inr staged1)
    then have s1: "staged1 = bt_insert (fst e) (pending_weight m staged (fst e) + snd e) staged"
      by (auto simp: stage_add_def result_simps)
    have here: "in_i64 (pending_weight m staged (fst e) + snd e)"
      using Inr stage_add_ok [of m staged e] by simp
    have base: "pending_weight m staged1
        = (pending_weight m staged)(fst e := pending_weight m staged (fst e) + snd e)"
      by (auto simp: fun_eq_iff s1 pending_weight_def btree_simps)
    have "is_ok (foldR (stage_add m) staged1 batch) \<longleftrightarrow> running_sums_ok (pending_weight m staged1) batch"
      using Cons.IH [of staged1] Cons.prems by (simp add: s1)
    then show ?thesis using Inr here base by (simp add: running_sums_Cons)
  qed
qed simp

lemma mem_write_ok_iff:
  assumes "canon m"
  shows "is_ok (fst (mem_write m batch)) \<longleftrightarrow> running_sums_ok (zw m) batch"
proof -
  have "is_ok (fst (mem_write m batch)) \<longleftrightarrow> is_ok (foldR (stage_add m) [] batch)"
    by (cases "foldR (stage_add m) [] batch") (simp_all add: mem_write_def)
  also have "\<dots> \<longleftrightarrow> running_sums_ok (pending_weight m []) batch" by (simp add: stage_fold_ok_iff)
  also have "pending_weight m [] = zw m" using assms by (simp add: fun_eq_iff pending_weight_def bt_get_def zw_bt canon_def)
  finally show ?thesis .
qed

section \<open>The backend contract\<close>

text \<open>
  A backend represents a history of additions when it holds, for every key, the key's total weight.
  The lemmas below are what a stateful operator uses: one write extends the history, and a sum over
  a prefix scan is a sum over the part of the history under the prefix.
\<close>

locale state_backend =
  fixes apply_batch :: "'b \<Rightarrow> write_batch \<Rightarrow> (state_error, unit) result \<times> 'b"
    and weight :: "'b \<Rightarrow> key \<Rightarrow> int"
    and scan_prefix :: "'b \<Rightarrow> key \<Rightarrow> (key \<times> int) list"
    and backend_ok :: "'b \<Rightarrow> bool"
  assumes write_ok: "backend_ok m \<Longrightarrow> apply_batch m b = (Ok u, m') \<Longrightarrow> backend_ok m'"
    and write_weight: "backend_ok m \<Longrightarrow> apply_batch m b = (Ok u, m') \<Longrightarrow> weight m' k = weight m k + zw b k"
    and write_atomic: "backend_ok m \<Longrightarrow> apply_batch m b = (Err e, m') \<Longrightarrow> m' = m"
    and scan_set: "backend_ok m \<Longrightarrow> (k, w) \<in> set (scan_prefix m p) \<longleftrightarrow> prefix p k \<and> w = weight m k \<and> w \<noteq> 0"
    and scan_sorted: "backend_ok m \<Longrightarrow> sorted_wrt (<) (map fst (scan_prefix m p))"
begin

definition represents :: "'b \<Rightarrow> entries \<Rightarrow> bool" where
  "represents m h \<longleftrightarrow> backend_ok m \<and> (\<forall>k. weight m k = zw h k)"

lemma represents_write: "represents m h \<Longrightarrow> apply_batch m b = (Ok u, m') \<Longrightarrow> represents m' (h @ b)"
  by (auto simp: represents_def write_ok write_weight)

lemma scan_canon: "represents m h \<Longrightarrow> canon (scan_prefix m p)"
  by (auto simp: represents_def canon_def bt_ok_def scan_sorted scan_set)

lemma scan_weight:
  assumes "represents m h"
  shows "zw (scan_prefix m p) k = (if prefix p k then zw h k else 0)"
proof -
  have ok: "backend_ok m" and w: "weight m k = zw h k" using assms by (auto simp: represents_def)
  have "map_of (scan_prefix m p) k = Some v \<longleftrightarrow> prefix p k \<and> v = zw h k \<and> v \<noteq> 0" for v
    using scan_canon [OF assms, of p] scan_set [OF ok, of k v p] w
      bt_get_iff [of "scan_prefix m p" k v]
    by (simp add: canon_def bt_get_def)
  then show ?thesis
    using canon_weight [OF scan_canon [OF assms], of p k] by (auto split: if_splits)
qed

lemma scan_zint:
  assumes "represents m h"
  shows "zint f (scan_prefix m p) = zint (\<lambda>k. if prefix p k then f k else 0) h"
proof -
  have "zw (scan_prefix m p) = zw (filter (\<lambda>e. prefix p (fst e)) h)"
  proof
    fix k
    have "zw (filter (\<lambda>e. prefix p (fst e)) h) k = (if prefix p k then zw h k else 0)"
      by (induction h) auto
    then show "zw (scan_prefix m p) k = zw (filter (\<lambda>e. prefix p (fst e)) h) k"
      using scan_weight [OF assms] by simp
  qed
  then have "zint f (scan_prefix m p) = zint f (filter (\<lambda>e. prefix p (fst e)) h)"
    by (rule zint_cong)
  also have "\<dots> = zint (\<lambda>k. if prefix p k then f k else 0) h"
    by (induction h) auto
  finally show ?thesis .
qed

lemma represents_cong: "represents m h \<Longrightarrow> zw h = zw h' \<Longrightarrow> represents m h'"
  by (simp add: represents_def)

end

definition mem_weight :: "mem_backend \<Rightarrow> key \<Rightarrow> int" where
  "mem_weight m k = (case mem_get m k of Some w \<Rightarrow> w | None \<Rightarrow> 0)"

lemma mem_weight_zw: "canon m \<Longrightarrow> mem_weight m k = zw m k"
  by (simp add: mem_weight_def mem_get_def bt_get_def zw_bt canon_def bt_get_or_def split: option.split)

interpretation mem: state_backend mem_write mem_weight mem_scan_prefix canon
proof
  fix m m' :: mem_backend and b :: write_batch and k p :: key and w :: int and u :: unit and e :: state_error
  assume c: "canon m"
  show "canon m'" if "mem_write m b = (Ok u, m')" using mem_write_Ok(1) [OF c that] .
  show "mem_weight m' k = mem_weight m k + zw b k" if "mem_write m b = (Ok u, m')"
    using mem_write_Ok [OF c that] c by (simp add: mem_weight_zw)
  show "m' = m" if "mem_write m b = (Err e, m')" using that by (simp add: mem_write_def split: sum.splits)
  show "(k, w) \<in> set (mem_scan_prefix m p) \<longleftrightarrow> prefix p k \<and> w = mem_weight m k \<and> w \<noteq> 0"
    using c canon_weight [OF c, of k]
    by (auto simp: mem_scan_prefix_filter canon_def mem_weight_zw [OF c] bt_get_iff [symmetric] bt_get_def
        split: if_splits)
  show "sorted_wrt (<) (map fst (mem_scan_prefix m p))"
    using c by (simp add: mem_scan_prefix_filter canon_def flip: bt_ok_def)
qed

lemma represents_iff: "mem.represents m h \<longleftrightarrow> canon m \<and> zw m = zw h"
  by (auto simp: mem.represents_def mem_weight_zw fun_eq_iff)

lemma represents_new [simp]: "mem.represents mem_new []"
  by (simp add: represents_iff mem_new_def canon_def)

section \<open>Properties\<close>

text \<open>
  C22: A write to the in-memory backend is atomic and exact. It succeeds precisely when no running sum
  of weights for a key leaves the 64-bit range, adding the batch in order to what is stored. When it
  succeeds the store holds, for every key, the old weight plus the batch's weights, with keys
  strictly ordered and no entry of weight zero. When it fails the error is the overflow error and the
  store it leaves is the one before the call.
\<close>

theorem mem_write_exact:
  assumes "canon m"
  shows "case mem_write m batch of
      (Inr _, m') \<Rightarrow>
        (\<forall>i < length batch. in_i64 (mem_weight m (fst (batch ! i)) + zw (take (Suc i) batch) (fst (batch ! i))))
        \<and> canon m' \<and> (\<forall>k. mem_weight m' k = mem_weight m k + zw batch k)
    | (Inl e, m') \<Rightarrow>
        (\<exists>i < length batch. \<not> in_i64 (mem_weight m (fst (batch ! i)) + zw (take (Suc i) batch) (fst (batch ! i))))
        \<and> m' = m \<and> e = StateWeightOverflow ''adding a weight to operator state''"
proof -
  obtain res m' where w: "mem_write m batch = (res, m')" by (cases "mem_write m batch")
  have sums: "is_ok res \<longleftrightarrow>
      (\<forall>i < length batch. in_i64 (mem_weight m (fst (batch ! i)) + zw (take (Suc i) batch) (fst (batch ! i))))"
    using mem_write_ok_iff [OF assms, of batch] w assms by (simp add: running_sums_ok_def mem_weight_zw)
  show ?thesis
  proof (cases res)
    case (Inr u)
    then show ?thesis using sums w mem_write_Ok [OF assms w [unfolded Inr]] assms by (simp add: mem_weight_zw)
  next
    case (Inl e)
    obtain st x where "stage_add m st x = Err e"
      using w Inl by (auto simp: mem_write_def split: sum.splits dest!: foldR_Err)
    then have "e = StateWeightOverflow ''adding a weight to operator state''"
      by (auto simp: stage_add_def result_simps)
    then show ?thesis using sums w Inl mem.write_atomic [OF assms w [unfolded Inl]] by simp
  qed
qed

theorem mem_write_exact_witness:
  "canon [([VInt 1], 5)]
    \<and> (case mem_write [([VInt 1], 5)] [([VInt 2], 3), ([VInt 1], - 5)] of
      (Inr _, m') \<Rightarrow> mem_weight m' [VInt 1] = 0 \<and> mem_weight m' [VInt 2] = 3 | (Inl _, _) \<Rightarrow> False)
    \<and> (case mem_write [([VInt 1], 5)] [([VInt 2], 3), ([VInt 1], i64_max)] of
      (Inr _, _) \<Rightarrow> False | (Inl _, m') \<Rightarrow> m' = [([VInt 1], 5)])"
proof -
  have c: "canon [([VInt 1], 5)]" by code_simp
  have w: "fst (mem_write [([VInt 1], 5)] [([VInt 2], 3), ([VInt 1], - 5)]) = Ok ()" by code_simp
  have f: "\<not> is_ok (fst (mem_write [([VInt 1], 5)] [([VInt 2], 3), ([VInt 1], i64_max)]))" by code_simp
  show ?thesis
    using c w f mem_write_exact [OF c, of "[([VInt 2], 3), ([VInt 1], - 5)]"]
      mem_write_exact [OF c, of "[([VInt 2], 3), ([VInt 1], i64_max)]"]
    by (auto split: prod.splits sum.splits simp: mem_weight_def mem_get_def bt_get_def)
qed

text \<open>
  C23: A prefix scan seeks to the prefix and stops at the first key outside it, and still visits every
  entry under the prefix exactly once, in key order: the keys under a prefix are one contiguous
  range of the order. A visitor that asks to stop sees an initial part of the same sequence.
\<close>

theorem visit_prefix_contiguous:
  assumes "bt_ok m"
  shows "mem_scan_prefix m p = filter (\<lambda>(k, _). prefix p k) (mem_iter_all m)
    \<and> mem_visit_prefix m p visitor s = visit_all (mem_scan_prefix m p) visitor s"
  by (simp add: assms mem_scan_prefix_filter mem_visit_prefix_all mem_iter_all_def)

theorem visit_prefix_contiguous_witness:
  "mem_scan_prefix [([VInt 1], 5), ([VInt 1, VInt 9], 2), ([VInt 2], 1)] [VInt 1]
    = [([VInt 1], 5), ([VInt 1, VInt 9], 2)]"
proof -
  have "bt_ok [([VInt 1], 5), ([VInt 1, VInt 9], 2), ([VInt 2], 1 :: int)]" by code_simp
  from visit_prefix_contiguous [OF this, of "[VInt 1]" "\<lambda>s k w. (s, True)" "()", THEN conjunct1] show ?thesis
    by (simp add: mem_iter_all_def)
qed

end
