(* ===== verification/Operators.thy ===== *)
theory Operators
  imports Bind State
begin

text \<open>
  What the operators of \<open>schweep-ops\<close> share (\<open>operator.rs\<close>, \<open>error.rs\<close>): the errors of a step, the
  error stream that carries evaluation errors as data, the output of a step, and the declared state
  bounds. The locale \<open>incremental_operator\<close> is the contract every operator fulfils: one step changes
  the accumulated output by exactly the delta it emits.
\<close>

section \<open>Errors, the error stream and step outputs\<close>

datatype op_error =
    OpPlan plan_error
  | OpZSet zset_error
  | OpArity string nat nat
  | InputSchemaMismatch string string string
  | PredicateNotBoolean string data_type
  | OpState state_error
  | JoinKeyOutOfRange string nat
  | JoinWeightOverflow
  | CorruptJoinIndex
  | CorruptAggregateState

definition error_schema :: "(op_error, schema) result" where
  "error_schema = map_err OpZSet (schema_new [field_not_null ''error'' Utf8])"

definition error_row :: "plan_error \<Rightarrow> row" where
  "error_row e = [VStr (evaluation_message e)]"

record step_output =
  so_data :: zset_batch
  so_errors :: zset_batch

definition step_output_new :: "zset_batch \<Rightarrow> entries \<Rightarrow> (op_error, step_output) result" where
  "step_output_new d es =
    bindR error_schema (\<lambda>s. bindR (map_err OpZSet (from_entries s es))
      (\<lambda>e. Ok \<lparr>so_data = d, so_errors = e\<rparr>))"

definition step_output_infallible :: "zset_batch \<Rightarrow> (op_error, step_output) result" where
  "step_output_infallible d =
    bindR error_schema (\<lambda>s. bindR (map_err OpZSet (zb_empty s))
      (\<lambda>e. Ok \<lparr>so_data = d, so_errors = e\<rparr>))"

datatype state_bound =
    Stateless
  | ProportionalToInputs "string list" nat nat
  | Unbounded string

definition unary :: "string \<Rightarrow> zset_batch list \<Rightarrow> (op_error, zset_batch) result" where
  "unary op inputs = (case inputs of [only] \<Rightarrow> Ok only | _ \<Rightarrow> Err (OpArity op 1 (length inputs)))"

definition check_schema :: "string \<Rightarrow> schema \<Rightarrow> zset_batch \<Rightarrow> (op_error, unit) result" where
  "check_schema op expected input =
    (if zb_schema input \<noteq> expected
     then Err (InputSchemaMismatch op (schema_to_string expected) (schema_to_string (zb_schema input)))
     else Ok ())"

section \<open>Facts the operators share\<close>

definition err_schema :: schema where
  "err_schema = \<lparr>sc_fields = [field_not_null ''error'' Utf8]\<rparr>"

lemma err_schema_ok [simp]: "schema_ok err_schema"
  by (simp add: err_schema_def schema_ok_def)

lemma error_schema_eq [simp]: "error_schema = Ok err_schema"
proof -
  have "schema_new [field_not_null ''error'' Utf8] = Ok err_schema"
    by (simp add: schema_new_Ok err_schema_def schema_ok_def)
  then show ?thesis by (simp add: error_schema_def)
qed

lemma error_row_conforms [simp]: "row_conforms err_schema (error_row e)"
  by (simp add: row_conforms_def err_schema_def error_row_def value_conforms_def field_not_null_def)

lemma step_output_new_Ok:
  assumes "step_output_new d es = Ok out"
  shows "so_data out = d" "holds err_schema (so_errors out) es"
  using assms by (auto simp: step_output_new_def result_simps holds_def)

lemma step_output_new_total:
  assumes "\<forall>e \<in> set es. row_conforms err_schema (fst e)"
  shows "is_ok (step_output_new d es)"
  using from_entries_ok_iff [OF err_schema_ok, of es] assms
  by (auto simp: step_output_new_def is_ok_iff)

lemma step_output_infallible_Ok:
  assumes "step_output_infallible d = Ok out"
  shows "so_data out = d" "holds err_schema (so_errors out) []"
  using assms by (auto simp: step_output_infallible_def zb_empty_def result_simps holds_def)

lemma step_output_infallible_total: "is_ok (step_output_infallible d)"
  using from_entries_ok_iff [OF err_schema_ok, of "[]"]
  by (auto simp: step_output_infallible_def zb_empty_def is_ok_iff)

lemma unary_Ok: "unary op bs = Ok b \<longleftrightarrow> bs = [b]"
  by (auto simp: unary_def split: list.splits)

lemma holds_unique: "holds s b xs \<Longrightarrow> holds t b ys \<Longrightarrow> xs = ys"
  by (metis holds_entries sum.inject(2))

section \<open>The contract of an incremental operator\<close>

text \<open>
  \<open>inv op hs\<close> says that the state of \<open>op\<close> is the one reached by absorbing the input histories \<open>hs\<close>,
  one list of entries per input. \<open>out op hs\<close> and \<open>errs op hs\<close> are the weights that the data stream and
  the error stream have accumulated by then. The one law is differential: a successful step moves
  the state to the extended histories and emits exactly the difference of the accumulated streams.
  Its consequence for whole runs is proved once, here.
\<close>

definition extend_histories :: "entries list \<Rightarrow> entries list \<Rightarrow> entries list" where
  "extend_histories hs ds = map2 (@) hs ds"

fun inputs_hold :: "schema list \<Rightarrow> zset_batch list \<Rightarrow> entries list \<Rightarrow> bool" where
  "inputs_hold [] [] [] = True"
| "inputs_hold (s # ss) (b # bs) (d # ds) = (holds s b d \<and> inputs_hold ss bs ds)"
| "inputs_hold _ _ _ = False"

lemma inputs_hold_unary: "inputs_hold [s] bs ds \<longleftrightarrow> (\<exists>b d. bs = [b] \<and> ds = [d] \<and> holds s b d)"
  by (cases "([s], bs, ds)" rule: inputs_hold.cases; cases "([] :: schema list, tl bs, tl ds)" rule: inputs_hold.cases)
    auto

lemma inputs_hold_binary:
  "inputs_hold [s, t] bs ds \<longleftrightarrow> (\<exists>b c d e. bs = [b, c] \<and> ds = [d, e] \<and> holds s b d \<and> holds t c e)"
  by (cases "([s, t], bs, ds)" rule: inputs_hold.cases) (auto simp: inputs_hold_unary)

lemma extend_histories_simps [simp]:
  "extend_histories [h] [d] = [h @ d]"
  "extend_histories [h, k] [d, e] = [h @ d, k @ e]"
  by (simp_all add: extend_histories_def)

locale incremental_operator =
  fixes step :: "'op \<Rightarrow> zset_batch list \<Rightarrow> (op_error, step_output) result \<times> 'op"
    and in_schemas :: "'op \<Rightarrow> schema list"
    and out_schema :: "'op \<Rightarrow> schema"
    and inv :: "'op \<Rightarrow> entries list \<Rightarrow> bool"
    and out :: "'op \<Rightarrow> entries list \<Rightarrow> row \<Rightarrow> int"
    and errs :: "'op \<Rightarrow> entries list \<Rightarrow> row \<Rightarrow> int"
  assumes step_inv: "inv op hs \<Longrightarrow> inputs_hold (in_schemas op) bs ds \<Longrightarrow> step op bs = (Ok o', op')
      \<Longrightarrow> inv op' (extend_histories hs ds)"
    and step_schemas: "step op bs = (Ok o', op') \<Longrightarrow> in_schemas op' = in_schemas op \<and> out_schema op' = out_schema op"
    and step_data: "inv op hs \<Longrightarrow> inputs_hold (in_schemas op) bs ds \<Longrightarrow> step op bs = (Ok o', op')
      \<Longrightarrow> \<exists>es. holds (out_schema op) (so_data o') es
           \<and> (\<forall>r. zw es r = out op' (extend_histories hs ds) r - out op hs r)"
    and step_errors: "inv op hs \<Longrightarrow> inputs_hold (in_schemas op) bs ds \<Longrightarrow> step op bs = (Ok o', op')
      \<Longrightarrow> \<exists>es. holds err_schema (so_errors o') es
           \<and> (\<forall>r. zw es r = errs op' (extend_histories hs ds) r - errs op hs r)"
begin

text \<open>A run: the operator after a sequence of successful steps, and the deltas of each step.\<close>

inductive run :: "'op \<Rightarrow> entries list \<Rightarrow> 'op \<Rightarrow> entries list \<Rightarrow> entries \<Rightarrow> entries \<Rightarrow> bool" where
  run_start: "run op hs op hs [] []"
| run_step: "run op hs op1 hs1 ds es \<Longrightarrow> inputs_hold (in_schemas op1) bs ins
    \<Longrightarrow> step op1 bs = (Ok o', op2) \<Longrightarrow> holds (out_schema op1) (so_data o') d
    \<Longrightarrow> holds err_schema (so_errors o') e
    \<Longrightarrow> run op hs op2 (extend_histories hs1 ins) (ds @ d) (es @ e)"

lemma run_inv: "run op hs op' hs' ds es \<Longrightarrow> inv op hs \<Longrightarrow> inv op' hs'"
  by (induction rule: run.induct) (auto intro: step_inv)

text \<open>
  The deltas emitted over a run add up to the change of the accumulated streams.
\<close>

lemma run_telescopes:
  assumes "run op hs op' hs' ds es" "inv op hs"
  shows "(\<forall>r. zw ds r = out op' hs' r - out op hs r) \<and> (\<forall>r. zw es r = errs op' hs' r - errs op hs r)"
  using assms
proof (induction rule: run.induct)
  case (run_step op hs op1 hs1 ds es bs ins o' op2 d e)
  have inv1: "inv op1 hs1" using run_inv [OF run_step.hyps(1) run_step.prems] .
  obtain d' e' where "holds (out_schema op1) (so_data o') d'" "holds err_schema (so_errors o') e'"
    and "\<forall>r. zw d' r = out op2 (extend_histories hs1 ins) r - out op1 hs1 r"
    and "\<forall>r. zw e' r = errs op2 (extend_histories hs1 ins) r - errs op1 hs1 r"
    using step_data [OF inv1 run_step.hyps(2,3)] step_errors [OF inv1 run_step.hyps(2,3)] by blast
  moreover from this have "d' = d" "e' = e"
    using run_step.hyps(4,5) holds_unique by blast+
  ultimately show ?case using run_step.IH run_step.prems by simp
qed auto

end

end
