(* ===== verification/Join.thy ===== *)
theory Join
  imports Operators
begin

text \<open>
  The incremental equi-join (\<open>schweep-ops/src/join.rs\<close>). The operator keeps the integral of each side,
  indexed by join key and row; a step probes the integrals as they were before the epoch with the
  deltas, adds the delta-delta term, and only then integrates. The development shows that the three
  terms are the derivative of the join: over any run the emitted deltas add up to the join of the
  accumulated inputs, weights multiplied, null keys matching nothing.
\<close>

record join_op =
  jo_left_schema :: schema
  jo_right_schema :: schema
  jo_output_schema :: schema
  jo_left_key :: "nat list"
  jo_right_key :: "nat list"
  jo_left_index :: mem_backend
  jo_right_index :: mem_backend

definition check_key_pair :: "schema \<Rightarrow> schema \<Rightarrow> nat \<times> nat \<Rightarrow> (op_error, unit) result" where
  "check_key_pair ls rs p =
    bindR (ok_or (schema_field ls (fst p)) (JoinKeyOutOfRange ''left'' (fst p))) (\<lambda>lf.
    bindR (ok_or (schema_field rs (snd p)) (JoinKeyOutOfRange ''right'' (snd p))) (\<lambda>rf.
      if f_data_type lf \<noteq> f_data_type rf
      then Err (OpPlan (TypeMismatch ''join key ='' (f_data_type lf) (f_data_type rf)))
      else Ok ()))"

definition join_new :: "schema \<Rightarrow> schema \<Rightarrow> (nat \<times> nat) list \<Rightarrow> mem_backend \<Rightarrow> mem_backend
    \<Rightarrow> (op_error, join_op) result" where
  "join_new ls rs on li ri =
    (if on = [] then Err (OpPlan CrossJoinNotSupported)
     else bindR (mapR (check_key_pair ls rs) on) (\<lambda>_.
       bindR (map_err OpZSet (schema_new (sc_fields ls @ sc_fields rs))) (\<lambda>output.
         Ok \<lparr>jo_left_schema = ls, jo_right_schema = rs, jo_output_schema = output,
             jo_left_key = map fst on, jo_right_key = map snd on,
             jo_left_index = li, jo_right_index = ri\<rparr>)))"

fun key_of :: "row \<Rightarrow> nat list \<Rightarrow> sql_value list option" where
  "key_of row [] = Some []"
| "key_of row (p # ps) = (case row_get row p of
      None \<Rightarrow> None
    | Some v \<Rightarrow> if v = VNull then None else map_option ((#) v) (key_of row ps))"

definition index_key :: "sql_value list \<Rightarrow> row \<Rightarrow> key" where
  "index_key k row = k @ row"

definition row_from_index_key :: "key \<Rightarrow> nat \<Rightarrow> (op_error, row) result" where
  "row_from_index_key k n = (if n \<le> length k then Ok (drop n k) else Err CorruptJoinIndex)"

definition joined :: "row \<Rightarrow> int \<Rightarrow> row \<Rightarrow> int \<Rightarrow> (op_error, row \<times> int) result" where
  "joined l lw r rw = bindR (ok_or (checked_mul lw rw) JoinWeightOverflow) (\<lambda>w. Ok (l @ r, w))"

text \<open>The visitor of a probe: push the joined entry, or record the failure and stop.\<close>

definition probe_visitor :: "(key \<Rightarrow> int \<Rightarrow> (op_error, row \<times> int) result)
    \<Rightarrow> entries \<times> op_error option \<Rightarrow> key \<Rightarrow> int \<Rightarrow> (entries \<times> op_error option) \<times> bool" where
  "probe_visitor f s k w = (case f k w of
      Inr e \<Rightarrow> ((fst s @ [e], snd s), True)
    | Inl err \<Rightarrow> ((fst s, Some err), False))"

definition probe :: "mem_backend \<Rightarrow> key \<Rightarrow> (key \<Rightarrow> int \<Rightarrow> (op_error, row \<times> int) result) \<Rightarrow> entries
    \<Rightarrow> (op_error, entries) result" where
  "probe index k f out = (case mem_visit_prefix index k (probe_visitor f) (out, None) of
      (out', None) \<Rightarrow> Ok out'
    | (_, Some err) \<Rightarrow> Err err)"

definition probe_right :: "join_op \<Rightarrow> entries \<Rightarrow> row \<times> int \<Rightarrow> (op_error, entries) result" where
  "probe_right op out e = (case key_of (fst e) (jo_left_key op) of
      None \<Rightarrow> Ok out
    | Some k \<Rightarrow> probe (jo_right_index op) k
        (\<lambda>ik rw. bindR (row_from_index_key ik (length (jo_left_key op))) (\<lambda>r. joined (fst e) (snd e) r rw)) out)"

definition probe_left :: "join_op \<Rightarrow> entries \<Rightarrow> row \<times> int \<Rightarrow> (op_error, entries) result" where
  "probe_left op out e = (case key_of (fst e) (jo_right_key op) of
      None \<Rightarrow> Ok out
    | Some k \<Rightarrow> probe (jo_left_index op) k
        (\<lambda>ik lw. bindR (row_from_index_key ik (length (jo_left_key op))) (\<lambda>l. joined l lw (fst e) (snd e))) out)"

definition delta_pair :: "join_op \<Rightarrow> row \<times> int \<Rightarrow> entries \<Rightarrow> row \<times> int \<Rightarrow> (op_error, entries) result" where
  "delta_pair op l out r =
    (case (key_of (fst l) (jo_left_key op), key_of (fst r) (jo_right_key op)) of
       (Some lk, Some rk) \<Rightarrow>
         if lk \<noteq> rk then Ok out
         else bindR (joined (fst l) (snd l) (fst r) (snd r)) (\<lambda>e. Ok (out @ [e]))
     | _ \<Rightarrow> Ok out)"

definition delta_delta :: "join_op \<Rightarrow> entries \<Rightarrow> entries \<Rightarrow> row \<times> int \<Rightarrow> (op_error, entries) result" where
  "delta_delta op rights out l =
    (if key_of (fst l) (jo_left_key op) = None then Ok out
     else foldR (delta_pair op l) out rights)"

text \<open>The index key of a row; a row with a null key is stored under an all-null key.\<close>

definition stored_key :: "nat list \<Rightarrow> row \<Rightarrow> key" where
  "stored_key ps row = index_key (case key_of row ps of Some k \<Rightarrow> k | None \<Rightarrow> map (\<lambda>_. VNull) ps) row"

definition join_integrate :: "join_op \<Rightarrow> entries \<Rightarrow> entries \<Rightarrow> (op_error, unit) result \<times> join_op" where
  "join_integrate op ls rs =
    (case mem_write (jo_left_index op) (map (\<lambda>(r, w). (stored_key (jo_left_key op) r, w)) ls) of
       (Inl e, li) \<Rightarrow> (Err (OpState e), op\<lparr>jo_left_index := li\<rparr>)
     | (Inr _, li) \<Rightarrow>
        (case mem_write (jo_right_index op) (map (\<lambda>(r, w). (stored_key (jo_right_key op) r, w)) rs) of
           (Inl e, ri) \<Rightarrow> (Err (OpState e), op\<lparr>jo_left_index := li, jo_right_index := ri\<rparr>)
         | (Inr _, ri) \<Rightarrow> (Ok (), op\<lparr>jo_left_index := li, jo_right_index := ri\<rparr>)))"

definition join_inputs :: "join_op \<Rightarrow> zset_batch list \<Rightarrow> (op_error, entries \<times> entries) result" where
  "join_inputs op inputs = (case inputs of
      [dl, dr] \<Rightarrow>
        bindR (check_schema ''join (left)'' (jo_left_schema op) dl) (\<lambda>_.
        bindR (check_schema ''join (right)'' (jo_right_schema op) dr) (\<lambda>_.
        bindR (map_err OpZSet (zb_entries dl)) (\<lambda>ls.
        bindR (map_err OpZSet (zb_entries dr)) (\<lambda>rs. Ok (ls, rs)))))
    | _ \<Rightarrow> Err (OpArity ''join'' 2 (length inputs)))"

definition join_terms :: "join_op \<Rightarrow> entries \<Rightarrow> entries \<Rightarrow> (op_error, entries) result" where
  "join_terms op ls rs =
    bindR (foldR (probe_right op) [] ls) (\<lambda>out1.
    bindR (foldR (probe_left op) out1 rs) (\<lambda>out2.
    foldR (delta_delta op rs) out2 ls))"

definition join_step :: "join_op \<Rightarrow> zset_batch list \<Rightarrow> (op_error, step_output) result \<times> join_op" where
  "join_step op inputs =
    (case bindR (join_inputs op inputs) (\<lambda>(ls, rs). bindR (join_terms op ls rs) (\<lambda>out. Ok (ls, rs, out))) of
       Inl e \<Rightarrow> (Err e, op)
     | Inr (ls, rs, out) \<Rightarrow>
        (case join_integrate op ls rs of
           (Inl e, op') \<Rightarrow> (Err e, op')
         | (Inr _, op') \<Rightarrow>
            (bindR (map_err OpZSet (from_entries (jo_output_schema op) out)) (\<lambda>b.
             bindR (map_err OpZSet (consolidate b)) step_output_infallible), op')))"

section \<open>The join of two Z-sets\<close>

definition join_match :: "join_op \<Rightarrow> row \<Rightarrow> row \<Rightarrow> bool" where
  "join_match op l r \<longleftrightarrow> key_of l (jo_left_key op) \<noteq> None
    \<and> key_of l (jo_left_key op) = key_of r (jo_right_key op)"

definition join_pair :: "join_op \<Rightarrow> row \<Rightarrow> row \<Rightarrow> row \<Rightarrow> int" where
  "join_pair op r' l r = (if join_match op l r \<and> l @ r = r' then 1 else 0)"

text \<open>The weight of a joined row: the sum, over matching pairs, of the products of the weights.\<close>

definition join_spec :: "join_op \<Rightarrow> entries \<Rightarrow> entries \<Rightarrow> row \<Rightarrow> int" where
  "join_spec op as bs r' = zint (\<lambda>l. zint (join_pair op r' l) bs) as"

lemma zint_swap: "zint (\<lambda>l. zint (\<lambda>r. g l r) bs) as = zint (\<lambda>r. zint (\<lambda>l. g l r) as) bs"
proof (induction as)
  case Nil
  then show ?case by (induction bs) auto
next
  case (Cons a as)
  have "zint (\<lambda>r. snd a * g (fst a) r + zint (\<lambda>l. g l r) as) bs
      = snd a * zint (g (fst a)) bs + zint (\<lambda>r. zint (\<lambda>l. g l r) as) bs"
    by (induction bs) (simp_all add: algebra_simps)
  then show ?case using Cons by simp
qed

lemma join_spec_bilinear:
  "join_spec op (as @ ds) (bs @ es) r
    = join_spec op as bs r + (join_spec op ds bs r + join_spec op as es r + join_spec op ds es r)"
  by (simp add: join_spec_def zint_add)

lemma join_spec_cong:
  assumes "zw as = zw as'" "zw bs = zw bs'"
  shows "join_spec op as bs = join_spec op as' bs'"
proof
  fix r
  have "zint (join_pair op r l) bs = zint (join_pair op r l) bs'" for l
    using assms(2) by (rule zint_cong)
  then show "join_spec op as bs r = join_spec op as' bs' r"
    unfolding join_spec_def by (simp only:) (rule zint_cong [OF assms(1)])
qed

section \<open>Probes\<close>

lemma key_of_Some: "key_of row ps = Some k \<Longrightarrow> length k = length ps \<and> VNull \<notin> set k"
  by (induction ps arbitrary: k) (auto split: option.splits if_splits)

text \<open>A stored key starts with a probe key exactly when the row has that key.\<close>

lemma prefix_stored_key:
  assumes "key_of l ps = Some k" "length ps = length qs"
  shows "prefix k (stored_key qs r) \<longleftrightarrow> key_of r qs = Some k"
proof (cases "key_of r qs")
  case None
  have k: "length k = length qs" "VNull \<notin> set k" using key_of_Some [OF assms(1)] assms(2) by auto
  have "k = []" if "prefix k (map (\<lambda>_. VNull) qs @ r)"
  proof (rule ccontr)
    assume "k \<noteq> []"
    then have "hd k = VNull" using that k(1) by (cases qs; cases k) (auto simp: prefix_def)
    then show False using k(2) \<open>k \<noteq> []\<close> by (metis hd_in_set)
  qed
  moreover have "qs \<noteq> []" using None by auto
  ultimately show ?thesis using None k by (auto simp: stored_key_def index_key_def)
next
  case (Some k')
  then have "length k = length k'" using key_of_Some assms by metis
  then show ?thesis using Some by (auto simp: stored_key_def index_key_def prefix_def)
qed

lemma length_stored_key: "length (stored_key qs r) = length qs + length r"
  using key_of_Some [of r qs] by (auto simp: stored_key_def index_key_def split: option.split)

lemma drop_stored_key [simp]: "drop (length qs) (stored_key qs r) = r"
  using key_of_Some [of r qs] by (auto simp: stored_key_def index_key_def split: option.split)

lemma probe_all:
  "visit_all es (probe_visitor f) (out, None) = (out', None) \<Longrightarrow>
    \<exists>fs. list_all2 (\<lambda>(k, w) e. f k w = Ok e) es fs \<and> out' = out @ fs"
proof (induction es arbitrary: out)
  case (Cons e es)
  obtain k w where e: "e = (k, w)" by (cases e)
  show ?case
  proof (cases "f k w")
    case (Inl err)
    then show ?thesis using Cons.prems e by (simp add: probe_visitor_def)
  next
    case (Inr x)
    then obtain fs where "list_all2 (\<lambda>(k, w) e. f k w = Ok e) es fs" "out' = out @ x # fs"
      using Cons.prems Cons.IH [of "out @ [x]"] e by (auto simp: probe_visitor_def)
    then show ?thesis using Inr e by (intro exI [of _ "x # fs"]) simp
  qed
qed simp

text \<open>A probe appends, for every index entry under the key, the row it joins to.\<close>

lemma probe_Ok:
  assumes "bt_ok index" "probe index k f out = Ok out'"
    and f: "\<And>ik w e. f ik w = Ok e \<Longrightarrow> e = (g (drop n ik), w * c)"
  shows "out' = out @ map (\<lambda>(ik, w). (g (drop n ik), w * c)) (mem_scan_prefix index k)"
proof -
  have "visit_all (mem_scan_prefix index k) (probe_visitor f) (out, None) = (out', None)"
    using assms(1,2)
    by (auto simp: probe_def mem_visit_prefix_all mem_scan_prefix_filter split: prod.splits option.splits)
  then obtain fs where fs: "list_all2 (\<lambda>(k, w) e. f k w = Ok e) (mem_scan_prefix index k) fs" "out' = out @ fs"
    using probe_all by blast
  have "list_all2 (\<lambda>p e. e = (case p of (ik, w) \<Rightarrow> (g (drop n ik), w * c))) (mem_scan_prefix index k) fs"
    using fs(1) by (rule list_all2_mono) (auto dest: f)
  then have "fs = map (\<lambda>(ik, w). (g (drop n ik), w * c)) (mem_scan_prefix index k)"
    by (auto simp: list_all2_conv_all_nth intro: nth_equalityI)
  then show ?thesis using fs(2) by simp
qed

lemma zw_map_scaled: "zw (map (\<lambda>(k, w). (g k, w * c)) es) r = c * zint (\<lambda>k. if g k = r then 1 else 0) es"
proof (induction es)
  case (Cons e es)
  then show ?case by (cases e) (auto simp: algebra_simps)
qed simp

lemma zint_map_key: "zint f (map (\<lambda>(r, w). (g r, w)) es) = zint (\<lambda>r. f (g r)) es"
  by (induction es) auto

abbreviation indexed :: "nat list \<Rightarrow> entries \<Rightarrow> entries" where
  "indexed ps \<equiv> map (\<lambda>(r, w). (stored_key ps r, w))"

lemma scan_indexed:
  assumes "mem.represents index (indexed qs h)" "key_of l ps = Some k" "length ps = length qs"
  shows "zint (\<lambda>ik. if g (drop (length qs) ik) = r' then 1 else 0) (mem_scan_prefix index k)
    = zint (\<lambda>r. if key_of r qs = Some k \<and> g r = r' then 1 else 0) h"
  unfolding mem.scan_zint [OF assms(1)] zint_map_key
  by (rule zint_fun_cong) (simp add: prefix_stored_key [OF assms(2,3)])

section \<open>The three terms\<close>

definition join_wf :: "join_op \<Rightarrow> bool" where
  "join_wf op \<longleftrightarrow> length (jo_left_key op) = length (jo_right_key op) \<and> schema_ok (jo_output_schema op)"

lemma foldR_zw_sum:
  assumes "foldR f out es = Ok out'" and "\<And>o' e o''. f o' e = Ok o'' \<Longrightarrow> zw o'' r = zw o' r + snd e * h (fst e)"
  shows "zw out' r = zw out r + zint h es"
  using assms(1)
proof (induction es arbitrary: out)
  case (Cons e es)
  then obtain o1 where "f out e = Ok o1" "foldR f o1 es = Ok out'" by (auto simp: result_simps)
  then show ?case using Cons.IH assms(2) by fastforce
qed simp

lemma term1:
  assumes wf: "join_wf op" and rep: "mem.represents (jo_right_index op) (indexed (jo_right_key op) hr)"
    and "foldR (probe_right op) out ls = Ok out'"
  shows "zw out' r = zw out r + join_spec op ls hr r"
  unfolding join_spec_def
proof (rule foldR_zw_sum [OF assms(3)])
  fix o' e o''
  assume step: "probe_right op o' e = Ok o''"
  show "zw o'' r = zw o' r + snd e * zint (join_pair op r (fst e)) hr"
  proof (cases "key_of (fst e) (jo_left_key op)")
    case None
    then have "zint (join_pair op r (fst e)) hr = 0"
      by (induction hr) (auto simp: join_pair_def join_match_def)
    then show ?thesis using step None by (simp add: probe_right_def)
  next
    case (Some k)
    have len: "length (jo_left_key op) = length (jo_right_key op)" using wf by (simp add: join_wf_def)
    have "o'' = o' @ map (\<lambda>(ik, w). (fst e @ drop (length (jo_left_key op)) ik, w * snd e))
        (mem_scan_prefix (jo_right_index op) k)"
      using step Some rep
      by (intro probe_Ok [where g = "\<lambda>x. fst e @ x"])
        (auto simp: probe_right_def represents_iff canon_def joined_def row_from_index_key_def result_simps
          split: if_splits)
    then have "zw o'' r = zw o' r + snd e * zint (\<lambda>ik. if fst e @ drop (length (jo_right_key op)) ik = r then 1 else 0)
        (mem_scan_prefix (jo_right_index op) k)"
      by (simp add: len zw_map_scaled [where g = "\<lambda>ik. fst e @ drop (length (jo_right_key op)) ik"])
    also have "\<dots> = zw o' r + snd e * zint (join_pair op r (fst e)) hr"
    proof -
      have "zint (\<lambda>x. if key_of x (jo_right_key op) = Some k \<and> fst e @ x = r then 1 else 0) hr
          = zint (join_pair op r (fst e)) hr"
        by (rule zint_fun_cong) (auto simp: join_pair_def join_match_def Some)
      then show ?thesis by (simp only: scan_indexed [OF rep Some len, where g = "\<lambda>x. fst e @ x"])
    qed
    finally show ?thesis .
  qed
qed

lemma term2:
  assumes wf: "join_wf op" and rep: "mem.represents (jo_left_index op) (indexed (jo_left_key op) hl)"
    and "foldR (probe_left op) out rs = Ok out'"
  shows "zw out' r = zw out r + join_spec op hl rs r"
  unfolding join_spec_def zint_swap [of _ rs]
proof (rule foldR_zw_sum [OF assms(3)])
  fix o' e o''
  assume step: "probe_left op o' e = Ok o''"
  show "zw o'' r = zw o' r + snd e * zint (\<lambda>l. join_pair op r l (fst e)) hl"
  proof (cases "key_of (fst e) (jo_right_key op)")
    case None
    then have "zint (\<lambda>l. join_pair op r l (fst e)) hl = 0"
      by (induction hl) (auto simp: join_pair_def join_match_def)
    then show ?thesis using step None by (simp add: probe_left_def)
  next
    case (Some k)
    have len: "length (jo_right_key op) = length (jo_left_key op)" using wf by (simp add: join_wf_def)
    have "o'' = o' @ map (\<lambda>(ik, w). (drop (length (jo_left_key op)) ik @ fst e, w * snd e))
        (mem_scan_prefix (jo_left_index op) k)"
      using step Some rep
      by (intro probe_Ok [where g = "\<lambda>x. x @ fst e"])
        (auto simp: probe_left_def represents_iff canon_def joined_def row_from_index_key_def result_simps
          split: if_splits)
    then have "zw o'' r = zw o' r + snd e * zint (\<lambda>ik. if drop (length (jo_left_key op)) ik @ fst e = r then 1 else 0)
        (mem_scan_prefix (jo_left_index op) k)"
      by (simp add: zw_map_scaled [where g = "\<lambda>ik. drop (length (jo_left_key op)) ik @ fst e"])
    also have "\<dots> = zw o' r + snd e * zint (\<lambda>l. join_pair op r l (fst e)) hl"
    proof -
      have "zint (\<lambda>x. if key_of x (jo_left_key op) = Some k \<and> x @ fst e = r then 1 else 0) hl
          = zint (\<lambda>l. join_pair op r l (fst e)) hl"
        by (rule zint_fun_cong) (auto simp: join_pair_def join_match_def Some)
      then show ?thesis by (simp only: scan_indexed [OF rep Some len, where g = "\<lambda>x. x @ fst e"])
    qed
    finally show ?thesis .
  qed
qed

lemma term3:
  assumes "foldR (delta_delta op rs) out ls = Ok out'"
  shows "zw out' r = zw out r + join_spec op ls rs r"
  unfolding join_spec_def
proof (rule foldR_zw_sum [OF assms])
  fix o' e o''
  assume step: "delta_delta op rs o' e = Ok o''"
  show "zw o'' r = zw o' r + snd e * zint (join_pair op r (fst e)) rs"
  proof (cases "key_of (fst e) (jo_left_key op)")
    case None
    then have "zint (join_pair op r (fst e)) rs = 0"
      by (induction rs) (auto simp: join_pair_def join_match_def)
    then show ?thesis using step None by (simp add: delta_delta_def)
  next
    case (Some k)
    then have loop: "foldR (delta_pair op e) o' rs = Ok o''" using step by (simp add: delta_delta_def)
    have "zw o'' r = zw o' r + zint (\<lambda>x. snd e * join_pair op r (fst e) x) rs"
      by (rule foldR_zw_sum [OF loop])
        (auto simp: delta_pair_def Some joined_def join_pair_def join_match_def result_simps
          split: option.splits if_splits)
    also have "zint (\<lambda>x. snd e * join_pair op r (fst e) x) rs = snd e * zint (join_pair op r (fst e)) rs"
      by (induction rs) (simp_all add: algebra_simps)
    finally show ?thesis .
  qed
qed

section \<open>The contract\<close>

definition join_inv :: "join_op \<Rightarrow> entries list \<Rightarrow> bool" where
  "join_inv op hs \<longleftrightarrow> join_wf op \<and> (\<exists>hl hr. hs = [hl, hr]
    \<and> mem.represents (jo_left_index op) (indexed (jo_left_key op) hl)
    \<and> mem.represents (jo_right_index op) (indexed (jo_right_key op) hr))"

lemma join_integrate_Ok:
  assumes "join_integrate op ls rs = (Ok u, op')"
  obtains li ri where "op' = op\<lparr>jo_left_index := li, jo_right_index := ri\<rparr>"
    "mem_write (jo_left_index op) (indexed (jo_left_key op) ls) = (Ok (), li)"
    "mem_write (jo_right_index op) (indexed (jo_right_key op) rs) = (Ok (), ri)"
  using assms by (auto simp: join_integrate_def split: sum.splits prod.splits)

lemma join_step_Ok:
  assumes "join_inv op [hl, hr]" "holds (jo_left_schema op) bl dl" "holds (jo_right_schema op) br dr"
    and "join_step op [bl, br] = (Ok o', op')"
  shows "join_inv op' [hl @ dl, hr @ dr]"
    and "\<exists>li ri. op' = op\<lparr>jo_left_index := li, jo_right_index := ri\<rparr>"
    and "\<exists>es. holds (jo_output_schema op) (so_data o') es
      \<and> (\<forall>r. zw es r = join_spec op dl hr r + join_spec op hl dr r + join_spec op dl dr r)"
    and "holds err_schema (so_errors o') []"
proof -
  have wf: "join_wf op" and repl: "mem.represents (jo_left_index op) (indexed (jo_left_key op) hl)"
    and repr: "mem.represents (jo_right_index op) (indexed (jo_right_key op) hr)"
    using assms(1) by (auto simp: join_inv_def)
  have ins: "join_inputs op [bl, br] = Ok (dl, dr)"
    using holds_schema [OF assms(2)] holds_schema [OF assms(3)] holds_entries [OF assms(2)] holds_entries [OF assms(3)]
    by (simp add: join_inputs_def check_schema_def)
  obtain out x y where terms: "join_terms op dl dr = Ok out" and int: "join_integrate op dl dr = (Ok (), op')"
    and x: "from_entries (jo_output_schema op) out = Ok x" and y: "consolidate x = Ok y"
    and o': "step_output_infallible y = Ok o'"
    using assms(4) ins by (auto simp: join_step_def result_simps split: sum.splits prod.splits)
  obtain li ri where op': "op' = op\<lparr>jo_left_index := li, jo_right_index := ri\<rparr>"
    and li: "mem_write (jo_left_index op) (indexed (jo_left_key op) dl) = (Ok (), li)"
    and ri: "mem_write (jo_right_index op) (indexed (jo_right_key op) dr) = (Ok (), ri)"
    using join_integrate_Ok [OF int] .
  show "\<exists>li ri. op' = op\<lparr>jo_left_index := li, jo_right_index := ri\<rparr>" using op' by blast
  show "join_inv op' [hl @ dl, hr @ dr]"
    using wf mem.represents_write [OF repl li] mem.represents_write [OF repr ri]
    by (simp add: join_inv_def op' join_wf_def)
  obtain o1 o2 where o1: "foldR (probe_right op) [] dl = Ok o1" and o2: "foldR (probe_left op) o1 dr = Ok o2"
    and o3: "foldR (delta_delta op dr) o2 dl = Ok out"
    using terms by (auto simp: join_terms_def result_simps)
  have zw_out: "zw out r = join_spec op dl hr r + join_spec op hl dr r + join_spec op dl dr r" for r
    using term1 [OF wf repr o1] term2 [OF wf repl o2] term3 [OF o3] by simp
  have "holds (jo_output_schema op) x out" using x wf by (simp add: holds_def join_wf_def)
  from consolidate_Ok [OF this y] obtain ms where "holds (jo_output_schema op) y ms" "zw ms = zw out" by blast
  then show "\<exists>es. holds (jo_output_schema op) (so_data o') es
      \<and> (\<forall>r. zw es r = join_spec op dl hr r + join_spec op hl dr r + join_spec op dl dr r)"
    using step_output_infallible_Ok(1) [OF o'] zw_out by auto
  show "holds err_schema (so_errors o') []" using step_output_infallible_Ok(2) [OF o'] .
qed

lemma join_spec_op_cong:
  "jo_left_key op = jo_left_key op' \<Longrightarrow> jo_right_key op = jo_right_key op' \<Longrightarrow> join_spec op = join_spec op'"
  by (intro ext) (simp add: join_spec_def join_pair_def [abs_def] join_match_def)

interpretation jo: incremental_operator join_step "\<lambda>op. [jo_left_schema op, jo_right_schema op]" jo_output_schema
  join_inv "\<lambda>op hs. join_spec op (hs ! 0) (hs ! 1)" "\<lambda>op hs r. 0"
proof
  fix op hs bs ds o' op'
  assume inv: "join_inv op hs" and ins: "inputs_hold [jo_left_schema op, jo_right_schema op] bs ds"
    and step: "join_step op bs = (Ok o', op')"
  obtain hl hr where hs: "hs = [hl, hr]" using inv by (auto simp: join_inv_def)
  obtain bl br dl dr where bs: "bs = [bl, br]" "ds = [dl, dr]"
      "holds (jo_left_schema op) bl dl" "holds (jo_right_schema op) br dr"
    using ins by (auto simp: inputs_hold_binary)
  note ok = join_step_Ok [OF inv [unfolded hs] bs(3,4) step [unfolded bs]]
  have spec: "join_spec op' = join_spec op" using ok(2) by (auto intro!: join_spec_op_cong)
  show "join_inv op' (extend_histories hs ds)" using ok(1) by (simp add: hs bs)
  show "\<exists>es. holds (jo_output_schema op) (so_data o') es \<and>
      (\<forall>r. zw es r = join_spec op' (extend_histories hs ds ! 0) (extend_histories hs ds ! 1) r
        - join_spec op (hs ! 0) (hs ! 1) r)"
    using ok(3) by (simp add: hs bs spec join_spec_bilinear)
  show "\<exists>es. holds err_schema (so_errors o') es \<and> (\<forall>r. zw es r = 0 - 0)"
    using ok(4) by (intro exI [of _ "[]"]) simp
next
  fix op bs o' op'
  assume step: "join_step op bs = (Ok o', op')"
  then obtain ls rs where "join_integrate op ls rs = (Ok (), op')"
    by (auto simp: join_step_def split: sum.splits prod.splits)
  then obtain li ri where "op' = op\<lparr>jo_left_index := li, jo_right_index := ri\<rparr>"
    using join_integrate_Ok by blast
  then show "[jo_left_schema op', jo_right_schema op'] = [jo_left_schema op, jo_right_schema op]
      \<and> jo_output_schema op' = jo_output_schema op"
    by simp
qed

lemma join_new_inv:
  assumes "join_new ls rs on mem_new mem_new = Ok op"
  shows "join_inv op [[], []]" "jo_left_key op = map fst on" "jo_right_key op = map snd on"
  using assms
  by (auto simp: join_new_def join_inv_def join_wf_def result_simps split: if_splits dest: schema_new_schema_ok)

lemma run_keeps_keys:
  "jo.run op hs op' hs' ds es \<Longrightarrow> jo_left_key op' = jo_left_key op \<and> jo_right_key op' = jo_right_key op"
proof (induction rule: jo.run.induct)
  case (run_step op hs op1 hs1 ds es bs ins o' op2 d e)
  obtain ls rs where "join_integrate op1 ls rs = (Ok (), op2)"
    using run_step.hyps by (auto simp: join_step_def split: sum.splits prod.splits)
  then obtain li ri where "op2 = op1\<lparr>jo_left_index := li, jo_right_index := ri\<rparr>"
    using join_integrate_Ok by blast
  then show ?case using run_step.IH by simp
qed simp

section \<open>Properties\<close>

text \<open>
  C27: Incremental joining computes the join. Over any run of successful steps from empty indexes, the
  emitted deltas add up to the join of everything the two inputs received: every concatenation of a
  left and a right row whose key values are non-null and equal, at the sum of the products of their
  weights. In particular rows that arrive on both sides in one epoch are joined exactly once.
\<close>

theorem join_run_correct:
  assumes "join_new ls rs on mem_new mem_new = Ok op" "jo.run op [[], []] op' [hl, hr] ds es"
  shows "zw ds r' = zint (\<lambda>l. zint (\<lambda>r.
      if (\<exists>k. key_of l (map fst on) = Some k \<and> key_of r (map snd on) = Some k) \<and> l @ r = r' then 1 else 0) hr) hl"
proof -
  note new = join_new_inv [OF assms(1)]
  have "zw ds r' = join_spec op' hl hr r' - join_spec op [] [] r'"
    using jo.run_telescopes [OF assms(2) new(1)] by simp
  also have "\<dots> = join_spec op hl hr r'"
    using run_keeps_keys [OF assms(2)] join_spec_op_cong [of op' op] by (simp add: join_spec_def)
  finally have "zw ds r' = join_spec op hl hr r'" .
  moreover have "join_match op l r \<longleftrightarrow> (\<exists>k. key_of l (map fst on) = Some k \<and> key_of r (map snd on) = Some k)" for l r
    by (auto simp: join_match_def new)
  ultimately show ?thesis
    by (simp add: join_spec_def join_pair_def [abs_def])
qed

theorem join_run_correct_witness:
  "\<exists>op op' ds es. join_new \<lparr>sc_fields = [field_nullable ''l.a'' Int64]\<rparr> \<lparr>sc_fields = [field_nullable ''r.a'' Int64]\<rparr>
        [(0, 0)] mem_new mem_new = Ok op
    \<and> jo.run op [[], []] op' [[([VInt 1], 2)], [([VInt 1], 3)]] ds es \<and> zw ds [VInt 1, VInt 1] = 6"
proof -
  let ?l = "\<lparr>sc_fields = [field_nullable ''l.a'' Int64]\<rparr>"
  let ?r = "\<lparr>sc_fields = [field_nullable ''r.a'' Int64]\<rparr>"
  let ?o = "\<lparr>sc_fields = [field_nullable ''l.a'' Int64, field_nullable ''r.a'' Int64]\<rparr>"
  let ?e = "\<lparr>zb_schema = \<lparr>sc_fields = [field_not_null ''error'' Utf8]\<rparr>, zb_batch = [StringArray []], zb_weights = []\<rparr>"
  let ?op = "\<lambda>li ri. \<lparr>jo_left_schema = ?l, jo_right_schema = ?r, jo_output_schema = ?o, jo_left_key = [0],
    jo_right_key = [0], jo_left_index = li, jo_right_index = ri\<rparr>"
  let ?bl = "\<lparr>zb_schema = ?l, zb_batch = [Int64Array [Some 1]], zb_weights = [2]\<rparr>"
  let ?br = "\<lparr>zb_schema = ?r, zb_batch = [Int64Array [Some 1]], zb_weights = [3]\<rparr>"
  let ?bo = "\<lparr>zb_schema = ?o, zb_batch = [Int64Array [Some 1], Int64Array [Some 1]], zb_weights = [6]\<rparr>"
  have new: "join_new ?l ?r [(0, 0)] mem_new mem_new = Ok (?op [] [])" by code_simp
  have st: "join_step (?op [] []) [?bl, ?br]
      = (Ok \<lparr>so_data = ?bo, so_errors = ?e\<rparr>, ?op [([VInt 1, VInt 1], 2)] [([VInt 1, VInt 1], 3)])"
    by code_simp
  have h: "holds ?l ?bl [([VInt 1], 2)]" "holds ?r ?br [([VInt 1], 3)]" "holds ?o ?bo [([VInt 1, VInt 1], 6)]"
    "holds err_schema ?e []"
    unfolding holds_def by code_simp+
  have "jo.run (?op [] []) [[], []] (?op [([VInt 1, VInt 1], 2)] [([VInt 1, VInt 1], 3)])
      (extend_histories [[], []] [[([VInt 1], 2)], [([VInt 1], 3)]]) ([] @ [([VInt 1, VInt 1], 6)]) ([] @ [])"
    by (rule jo.run.run_step [OF jo.run.run_start _ st]) (simp_all add: h)
  then have run: "jo.run (?op [] []) [[], []] (?op [([VInt 1, VInt 1], 2)] [([VInt 1, VInt 1], 3)])
      [[([VInt 1], 2)], [([VInt 1], 3)]] [([VInt 1, VInt 1], 6)] []"
    by simp
  have "zw [([VInt 1, VInt 1], 6)] [VInt 1, VInt 1] = 6"
    using join_run_correct [OF new run, of "[VInt 1, VInt 1]"] by (simp add: row_get_def)
  with run new show ?thesis by blast
qed

end
