(* ===== verification/Distinct.thy ===== *)
theory Distinct
  imports Operators
begin

text \<open>
  \<open>SELECT DISTINCT\<close> (\<open>schweep-ops/src/distinct.rs\<close>): the operator keeps the accumulated weight of
  every row and emits a row only when its presence, a weight above zero, flips. The development
  shows that over any run the emitted deltas add up to the set of present rows, each at weight one.
\<close>

record distinct_op =
  di_schema :: schema
  di_state :: mem_backend

definition distinct_new :: "schema \<Rightarrow> mem_backend \<Rightarrow> distinct_op" where
  "distinct_new s m = \<lparr>di_schema = s, di_state = m\<rparr>"

definition sign :: "int \<Rightarrow> int" where
  "sign w = (if w > 0 then 1 else 0)"

fun distinct_entry :: "distinct_op \<Rightarrow> entries \<times> write_batch \<Rightarrow> row \<times> int
    \<Rightarrow> (op_error, entries \<times> write_batch) result" where
  "distinct_entry op (out, batch) (row, delta) =
    (let before = (case mem_get (di_state op) row of Some w \<Rightarrow> w | None \<Rightarrow> 0) in
     bindR (ok_or (checked_add before delta) JoinWeightOverflow) (\<lambda>after.
       let change = sign after - sign before in
       Ok (if change \<noteq> 0 then out @ [(row, change)] else out, batch_add row delta batch)))"

definition distinct_step :: "distinct_op \<Rightarrow> zset_batch list \<Rightarrow> (op_error, step_output) result \<times> distinct_op" where
  "distinct_step op inputs =
    (case bindR (unary ''distinct'' inputs) (\<lambda>input.
          bindR (check_schema ''distinct'' (di_schema op) input) (\<lambda>_.
          bindR (map_err OpZSet (consolidate input)) (\<lambda>consolidated.
          bindR (map_err OpZSet (zb_entries consolidated)) (\<lambda>es.
          foldR (distinct_entry op) ([], []) es)))) of
       Inl e \<Rightarrow> (Err e, op)
     | Inr (out, batch) \<Rightarrow>
        (case mem_write (di_state op) batch of
           (Inl e, m') \<Rightarrow> (Err (OpState e), op\<lparr>di_state := m'\<rparr>)
         | (Inr _, m') \<Rightarrow>
            (bindR (map_err OpZSet (from_entries (di_schema op) out)) step_output_infallible,
             op\<lparr>di_state := m'\<rparr>)))"

section \<open>What one step emits\<close>

definition flip :: "distinct_op \<Rightarrow> row \<times> int \<Rightarrow> row \<times> int" where
  "flip op e = (fst e, sign (mem_weight (di_state op) (fst e) + snd e) - sign (mem_weight (di_state op) (fst e)))"

lemma distinct_loop:
  "foldR (distinct_entry op) (out, batch) es = Ok res \<Longrightarrow>
    res = (out @ filter (\<lambda>e. snd e \<noteq> 0) (map (flip op) es), batch @ es)"
proof (induction es arbitrary: out batch)
  case (Cons e es)
  from Cons.prems show ?case
    by (cases e) (auto simp: result_simps Let_def flip_def mem_weight_def batch_add_def dest!: Cons.IH
        split: option.splits if_splits)
qed simp

lemma zw_filter_nonzero: "zw (filter (\<lambda>e. snd e \<noteq> 0) es) = zw es"
proof
  show "zw (filter (\<lambda>e. snd e \<noteq> 0) es) r = zw es r" for r by (induction es) auto
qed

lemma zw_map_distinct:
  assumes "distinct (map fst es)" "\<And>e. fst (g e) = fst e"
  shows "zw (map g es) r = (case map_of es r of None \<Rightarrow> 0 | Some w \<Rightarrow> snd (g (r, w)))"
  using assms(1)
proof (induction es)
  case (Cons e es)
  have "zw (map g es) (fst e) = 0"
    using Cons.prems assms(2) by (intro zw_notin) (auto simp: image_iff)
  then show ?case using Cons assms(2) by (cases e) auto
qed simp

lemma zw_flip:
  assumes "canon es" "canon (di_state op)"
  shows "zw (map (flip op) es) r = sign (zw (di_state op) r + zw es r) - sign (zw (di_state op) r)"
  using assms canon_weight [OF assms(1), of r]
  by (subst zw_map_distinct)
    (auto simp: canon_def bt_ok_distinct flip_def mem_weight_zw split: if_splits)

lemma distinct_step_Ok:
  assumes "holds (di_schema op) b d" "canon (di_state op)" "distinct_step op [b] = (Ok o', op')"
  obtains es out where "zw es = zw d" "mem_write (di_state op) es = (Ok (), di_state op')" "di_schema op' = di_schema op"
    "holds (di_schema op) (so_data o') out" "holds err_schema (so_errors o') []"
    "\<And>r. zw out r = sign (zw (di_state op) r + zw d r) - sign (zw (di_state op) r)"
proof -
  obtain c es out batch m' x where c: "consolidate b = Ok c" and es: "zb_entries c = Ok es"
    and loop: "foldR (distinct_entry op) ([], []) es = Ok (out, batch)"
    and m': "mem_write (di_state op) batch = (Ok (), m')" and op': "op' = op\<lparr>di_state := m'\<rparr>"
    and x: "from_entries (di_schema op) out = Ok x" and o': "step_output_infallible x = Ok o'"
    using assms(3) holds_schema [OF assms(1)]
    by (auto simp: distinct_step_def unary_def check_schema_def result_simps split: sum.splits prod.splits)
  obtain ms where ms: "holds (di_schema op) c ms" "canon ms" "zw ms = zw d"
    using consolidate_Ok [OF assms(1) c] by blast
  have "es = ms" using es holds_entries [OF ms(1)] by simp
  have out: "out = filter (\<lambda>e. snd e \<noteq> 0) (map (flip op) ms)" "batch = ms"
    using distinct_loop [OF loop] \<open>es = ms\<close> by auto
  have sch: "schema_ok (di_schema op)" using assms(1) by (simp add: holds_def)
  show ?thesis
  proof (rule that [of ms out])
    show "mem_write (di_state op) ms = (Ok (), di_state op')" using m' out op' by simp
    show "holds (di_schema op) (so_data o') out"
      using x sch step_output_infallible_Ok(1) [OF o'] by (simp add: holds_def)
    show "zw out r = sign (zw (di_state op) r + zw d r) - sign (zw (di_state op) r)" for r
      using zw_flip [OF ms(2) assms(2)] ms(3) by (simp add: out zw_filter_nonzero)
  qed (use ms op' step_output_infallible_Ok(2) [OF o'] in auto)
qed

section \<open>The contract\<close>

definition distinct_inv :: "distinct_op \<Rightarrow> entries list \<Rightarrow> bool" where
  "distinct_inv op hs \<longleftrightarrow> (\<exists>h. hs = [h] \<and> mem.represents (di_state op) h)"

interpretation di: incremental_operator distinct_step "\<lambda>op. [di_schema op]" di_schema distinct_inv
  "\<lambda>op hs r. sign (zw (hd hs) r)" "\<lambda>op hs r. 0"
proof
  fix op hs bs ds o' op'
  assume inv: "distinct_inv op hs" and ins: "inputs_hold [di_schema op] bs ds"
    and step: "distinct_step op bs = (Ok o', op')"
  obtain h where hs: "hs = [h]" and rep: "mem.represents (di_state op) h"
    using inv by (auto simp: distinct_inv_def)
  obtain b d where bs: "bs = [b]" "ds = [d]" "holds (di_schema op) b d"
    using ins by (auto simp: inputs_hold_unary)
  have canon: "canon (di_state op)" and h: "zw (di_state op) = zw h" using rep by (auto simp: represents_iff)
  obtain es out where ok: "zw es = zw d" "mem_write (di_state op) es = (Ok (), di_state op')"
    "holds (di_schema op) (so_data o') out" "holds err_schema (so_errors o') []"
    "\<And>r. zw out r = sign (zw (di_state op) r + zw d r) - sign (zw (di_state op) r)"
    using distinct_step_Ok [OF bs(3) canon step [unfolded bs]] by blast
  have "mem.represents (di_state op') (h @ es)" by (rule mem.represents_write [OF rep ok(2)])
  then have "mem.represents (di_state op') (h @ d)"
    by (rule mem.represents_cong) (simp add: ok(1) fun_eq_iff)
  then show "distinct_inv op' (extend_histories hs ds)" by (simp add: distinct_inv_def hs bs)
  show "\<exists>es. holds (di_schema op) (so_data o') es \<and>
      (\<forall>r. zw es r = sign (zw (hd (extend_histories hs ds)) r) - sign (zw (hd hs) r))"
    using ok(3,5) h by (auto simp: hs bs)
  show "\<exists>es. holds err_schema (so_errors o') es \<and> (\<forall>r. zw es r = 0 - 0)"
    using ok(4) by (intro exI [of _ "[]"]) simp
qed (auto simp: distinct_step_def split: sum.splits prod.splits)

section \<open>Properties\<close>

text \<open>
  C26: Over any run of successful steps from an empty operator, the deltas \<open>DISTINCT\<close> has emitted add
  up to presence: every row whose accumulated weight is above zero is in the answer exactly once,
  every other row not at all, however often rows came and went.
\<close>

theorem distinct_run_presence:
  assumes "di.run (distinct_new s mem_new) [[]] op' hs' ds es"
  shows "\<forall>r. zw ds r = (if zw (hd hs') r > 0 then 1 else 0)"
proof -
  have "distinct_inv (distinct_new s mem_new) [[]]"
    by (simp add: distinct_inv_def distinct_new_def)
  from di.run_telescopes [OF assms this] show ?thesis by (simp add: sign_def)
qed

text \<open>The witness takes two steps: a row arrives twice, then one copy leaves.\<close>

theorem distinct_run_presence_witness:
  "\<exists>op' hs' ds es. di.run (distinct_new \<lparr>sc_fields = [field_nullable ''k'' Int64]\<rparr> mem_new) [[]] op' hs' ds es
    \<and> hs' = [[([VInt 1], 2), ([VInt 1], - 1)]] \<and> zw ds [VInt 1] = 1 \<and> zw ds [VInt 2] = 0"
proof -
  let ?s = "\<lparr>sc_fields = [field_nullable ''k'' Int64]\<rparr>"
  let ?es = "\<lparr>sc_fields = [field_not_null ''error'' Utf8]\<rparr>"
  let ?b = "\<lambda>v w. \<lparr>zb_schema = ?s, zb_batch = [Int64Array v], zb_weights = w\<rparr>"
  let ?e = "\<lparr>zb_schema = ?es, zb_batch = [StringArray []], zb_weights = []\<rparr>"
  let ?start = "distinct_new ?s mem_new"
  let ?op = "\<lambda>w. \<lparr>di_schema = ?s, di_state = [([VInt 1], w)]\<rparr>"
  have h: "holds ?s (?b [Some 1] [2]) [([VInt 1], 2)]" "holds ?s (?b [Some 1] [- 1]) [([VInt 1], - 1)]"
    "holds ?s (?b [Some 1] [1]) [([VInt 1], 1)]" "holds ?s (?b [] []) []" "holds err_schema ?e []"
    unfolding holds_def by code_simp+
  have st: "distinct_step ?start [?b [Some 1] [2]] = (Ok \<lparr>so_data = ?b [Some 1] [1], so_errors = ?e\<rparr>, ?op 2)"
    "distinct_step (?op 2) [?b [Some 1] [- 1]] = (Ok \<lparr>so_data = ?b [] [], so_errors = ?e\<rparr>, ?op 1)"
    by code_simp+
  have "di.run ?start [[]] (?op 2) (extend_histories [[]] [[([VInt 1], 2)]]) ([] @ [([VInt 1], 1)]) ([] @ [])"
    by (rule di.run.run_step [OF di.run.run_start _ st(1)]) (simp_all add: h distinct_new_def)
  then have "di.run ?start [[]] (?op 1) (extend_histories (extend_histories [[]] [[([VInt 1], 2)]]) [[([VInt 1], - 1)]])
      (([] @ [([VInt 1], 1)]) @ []) (([] @ []) @ [])"
    by (rule di.run.run_step [OF _ _ st(2)]) (simp_all add: h)
  then have run: "di.run ?start [[]] (?op 1) [[([VInt 1], 2), ([VInt 1], - 1)]] [([VInt 1], 1)] []" by simp
  from run distinct_run_presence [OF run] show ?thesis by fastforce
qed

end
