(* ===== verification/Linear.thy ===== *)
theory Linear
  imports Operators
begin

text \<open>
  The linear operators \<open>Filter\<close> and \<open>Project\<close> (\<open>schweep-ops/src/linear.rs\<close>). Both decide row by row
  and carry weights through untouched; a row whose expression raises is dropped and its error
  recorded at the row's weight. The development shows that each is the linear extension of a
  function on rows, and that both fulfil the operator contract without any state.
\<close>

section \<open>Filter\<close>

record filter_op =
  fl_input_schema :: schema
  fl_predicate :: expr

definition filter_new :: "schema \<Rightarrow> naming \<Rightarrow> expr \<Rightarrow> (op_error, filter_op) result" where
  "filter_new s n p =
    bindR (map_err OpPlan (type_of p (Scope s n)))
      (\<lambda>found. if found = Boolean then Ok \<lparr>fl_input_schema = s, fl_predicate = p\<rparr>
               else Err (PredicateNotBoolean ''filter'' found))"

definition filter_entry :: "filter_op \<Rightarrow> entries \<times> entries \<Rightarrow> row \<times> int
    \<Rightarrow> (op_error, entries \<times> entries) result" where
  "filter_entry op acc e = (case (acc, e) of ((kept, errors), (row, weight)) \<Rightarrow>
    case is_true (fl_predicate op) row (fl_input_schema op) of
      Inr b \<Rightarrow> Ok (if b then kept @ [(row, weight)] else kept, errors)
    | Inl err \<Rightarrow> if is_evaluation_error err then Ok (kept, errors @ [(error_row err, weight)])
                else Err (OpPlan err))"

definition filter_step :: "filter_op \<Rightarrow> zset_batch list \<Rightarrow> (op_error, step_output) result \<times> filter_op" where
  "filter_step op inputs =
    (bindR (unary ''filter'' inputs) (\<lambda>input.
     bindR (check_schema ''filter'' (fl_input_schema op) input) (\<lambda>_.
     bindR (map_err OpZSet (zb_entries input)) (\<lambda>es.
     bindR (foldR (filter_entry op) ([], []) es) (\<lambda>(kept, errors).
     bindR (map_err OpZSet (from_entries (fl_input_schema op) kept)) (\<lambda>d.
     step_output_new d errors))))), op)"

section \<open>Project\<close>

record project_op =
  pj_input_schema :: schema
  pj_output_schema :: schema
  pj_items :: "expr named list"

definition project_new :: "schema \<Rightarrow> naming \<Rightarrow> expr named list \<Rightarrow> (op_error, project_op) result" where
  "project_new s n items =
    bindR (map_err OpPlan (projection_schema (Scope s n) items))
      (\<lambda>output. Ok \<lparr>pj_input_schema = s, pj_output_schema = output, pj_items = items\<rparr>)"

definition project_entry :: "project_op \<Rightarrow> entries \<times> entries \<Rightarrow> row \<times> int
    \<Rightarrow> (op_error, entries \<times> entries) result" where
  "project_entry op acc e = (case (acc, e) of ((projected, errors), (row, weight)) \<Rightarrow>
    case mapR (\<lambda>item. eval (nm_value item) row (pj_input_schema op)) (pj_items op) of
      Inr values \<Rightarrow> Ok (projected @ [(values, weight)], errors)
    | Inl err \<Rightarrow> if is_evaluation_error err then Ok (projected, errors @ [(error_row err, weight)])
                else Err (OpPlan err))"

definition project_step :: "project_op \<Rightarrow> zset_batch list \<Rightarrow> (op_error, step_output) result \<times> project_op" where
  "project_step op inputs =
    (bindR (unary ''project'' inputs) (\<lambda>input.
     bindR (check_schema ''project'' (pj_input_schema op) input) (\<lambda>_.
     bindR (map_err OpZSet (zb_entries input)) (\<lambda>es.
     bindR (foldR (project_entry op) ([], []) es) (\<lambda>(projected, errors).
     bindR (map_err OpZSet (from_entries (pj_output_schema op) projected)) (\<lambda>b.
     bindR (map_err OpZSet (consolidate b)) (\<lambda>d.
     step_output_new d errors)))))), op)"

section \<open>The linear extension of a function on rows\<close>

text \<open>
  A row function returns a row, nothing, or an error. Its linear extension maps a list of entries to
  the entries of the images, and the error stream to the errors raised, both at the rows' weights.
\<close>

type_synonym row_fun = "row \<Rightarrow> (plan_error, row option) result"

definition lin_data :: "row_fun \<Rightarrow> entries \<Rightarrow> entries" where
  "lin_data f es = concat (map (\<lambda>(r, w). case f r of Inr (Some r') \<Rightarrow> [(r', w)] | _ \<Rightarrow> []) es)"

definition lin_errs :: "row_fun \<Rightarrow> entries \<Rightarrow> entries" where
  "lin_errs f es = concat (map (\<lambda>(r, w). case f r of Inl e \<Rightarrow> [(error_row e, w)] | _ \<Rightarrow> []) es)"

lemma lin_append [simp]:
  "lin_data f (xs @ ys) = lin_data f xs @ lin_data f ys"
  "lin_errs f (xs @ ys) = lin_errs f xs @ lin_errs f ys"
  by (simp_all add: lin_data_def lin_errs_def)

lemma lin_simps [simp]:
  "lin_data f [] = []" "lin_errs f [] = []"
  "lin_data f ((r, w) # es) = (case f r of Inr (Some r') \<Rightarrow> [(r', w)] | _ \<Rightarrow> []) @ lin_data f es"
  "lin_errs f ((r, w) # es) = (case f r of Inl e \<Rightarrow> [(error_row e, w)] | _ \<Rightarrow> []) @ lin_errs f es"
  by (simp_all add: lin_data_def lin_errs_def)

lemma zw_lin_data: "zw (lin_data f es) r' = zint (\<lambda>r. if f r = Ok (Some r') then 1 else 0) es"
proof (induction es)
  case (Cons e es)
  then show ?case by (cases e) (auto split: sum.split option.split)
qed simp

lemma zw_lin_errs: "zw (lin_errs f es) r' = zint (\<lambda>r. if \<exists>e. f r = Err e \<and> error_row e = r' then 1 else 0) es"
proof (induction es)
  case (Cons e es)
  then show ?case by (cases e) (auto split: sum.split option.split)
qed simp

text \<open>Linearity: the image depends on the Z-set alone, not on how its entries are laid out.\<close>

lemma zw_lin_cong:
  "zw es = zw fs \<Longrightarrow> zw (lin_data f es) = zw (lin_data f fs)"
  "zw es = zw fs \<Longrightarrow> zw (lin_errs f es) = zw (lin_errs f fs)"
  by (auto simp: fun_eq_iff zw_lin_data zw_lin_errs intro: zint_cong)

lemma lin_errs_conforms: "\<forall>e \<in> set (lin_errs f es). row_conforms err_schema (fst e)"
  by (auto simp: lin_errs_def split: sum.splits)

fun lin_entry :: "row_fun \<Rightarrow> entries \<times> entries \<Rightarrow> row \<times> int \<Rightarrow> (op_error, entries \<times> entries) result" where
  "lin_entry f (kept, errors) (r, w) = (case f r of
      Inr (Some r') \<Rightarrow> Ok (kept @ [(r', w)], errors)
    | Inr None \<Rightarrow> Ok (kept, errors)
    | Inl err \<Rightarrow> if is_evaluation_error err then Ok (kept, errors @ [(error_row err, w)]) else Err (OpPlan err))"

lemma foldR_lin_Ok:
  "foldR (lin_entry f) (ks, errs) es = Ok res \<Longrightarrow> res = (ks @ lin_data f es, errs @ lin_errs f es)"
proof (induction es arbitrary: ks errs)
  case (Cons e es)
  from Cons.prems show ?case
    by (cases e) (auto simp: result_simps split: sum.splits option.splits if_splits dest!: Cons.IH)
qed simp

lemma foldR_lin_total:
  assumes "\<forall>(r, w) \<in> set es. \<forall>e. f r = Err e \<longrightarrow> is_evaluation_error e"
  shows "foldR (lin_entry f) (ks, errs) es = Ok (ks @ lin_data f es, errs @ lin_errs f es)"
  using assms
proof (induction es arbitrary: ks errs)
  case (Cons e es)
  then show ?case
    by (cases e) (auto split: sum.splits option.splits)
qed simp

text \<open>The two operators as row functions.\<close>

definition filter_fun :: "filter_op \<Rightarrow> row_fun" where
  "filter_fun op r = bindR (is_true (fl_predicate op) r (fl_input_schema op)) (\<lambda>b. Ok (if b then Some r else None))"

definition project_fun :: "project_op \<Rightarrow> row_fun" where
  "project_fun op r = bindR (mapR (\<lambda>item. eval (nm_value item) r (pj_input_schema op)) (pj_items op)) (\<lambda>vs. Ok (Some vs))"

lemma filter_entry_lin: "filter_entry op = lin_entry (filter_fun op)"
  by (intro ext)
    (auto simp: filter_entry_def filter_fun_def bindR_def split: sum.splits prod.splits)

lemma project_entry_lin: "project_entry op = lin_entry (project_fun op)"
  by (intro ext)
    (auto simp: project_entry_def project_fun_def bindR_def split: sum.splits prod.splits)

lemma filter_step_Ok:
  assumes "holds (fl_input_schema op) b d" "filter_step op [b] = (Ok out, op')"
  shows "op' = op" "holds (fl_input_schema op) (so_data out) (lin_data (filter_fun op) d)"
    "holds err_schema (so_errors out) (lin_errs (filter_fun op) d)"
proof -
  have schema: "schema_ok (fl_input_schema op)" and s: "zb_schema b = fl_input_schema op"
    using assms(1) by (simp_all add: holds_def holds_schema [OF assms(1)])
  show "op' = op" using assms(2) by (simp add: filter_step_def)
  obtain kept errors x where "foldR (filter_entry op) ([], []) d = Ok (kept, errors)"
    and x: "from_entries (fl_input_schema op) kept = Ok x" and out: "step_output_new x errors = Ok out"
    using assms(2) by (auto simp: filter_step_def unary_def check_schema_def s holds_entries [OF assms(1)] result_simps)
  then have "kept = lin_data (filter_fun op) d" "errors = lin_errs (filter_fun op) d"
    by (auto simp: filter_entry_lin dest: foldR_lin_Ok)
  then show "holds (fl_input_schema op) (so_data out) (lin_data (filter_fun op) d)"
    "holds err_schema (so_errors out) (lin_errs (filter_fun op) d)"
    using x step_output_new_Ok [OF out] schema by (auto simp: holds_def)
qed

lemma project_step_Ok:
  assumes "schema_ok (pj_output_schema op)"
    and "holds (pj_input_schema op) b d" "project_step op [b] = (Ok out, op')"
  shows "op' = op" "\<exists>es. holds (pj_output_schema op) (so_data out) es \<and> zw es = zw (lin_data (project_fun op) d)"
    "holds err_schema (so_errors out) (lin_errs (project_fun op) d)"
proof -
  have s: "zb_schema b = pj_input_schema op" by (rule holds_schema [OF assms(2)])
  show "op' = op" using assms(3) by (simp add: project_step_def)
  obtain ps errors x y where "foldR (project_entry op) ([], []) d = Ok (ps, errors)"
    and x: "from_entries (pj_output_schema op) ps = Ok x" and y: "consolidate x = Ok y"
    and out: "step_output_new y errors = Ok out"
    using assms(3) by (auto simp: project_step_def unary_def check_schema_def s holds_entries [OF assms(2)] result_simps)
  then have ps: "ps = lin_data (project_fun op) d" "errors = lin_errs (project_fun op) d"
    by (auto simp: project_entry_lin dest: foldR_lin_Ok)
  have "holds (pj_output_schema op) x ps" using x assms(1) by (simp add: holds_def)
  from consolidate_Ok [OF this y] obtain ms where "holds (pj_output_schema op) y ms" "zw ms = zw ps" by blast
  then show "\<exists>es. holds (pj_output_schema op) (so_data out) es \<and> zw es = zw (lin_data (project_fun op) d)"
    using step_output_new_Ok(1) [OF out] ps by auto
  show "holds err_schema (so_errors out) (lin_errs (project_fun op) d)"
    using step_output_new_Ok(2) [OF out] ps by simp
qed

section \<open>The contract\<close>

definition filter_inv :: "filter_op \<Rightarrow> entries list \<Rightarrow> bool" where
  "filter_inv op hs \<longleftrightarrow> schema_ok (fl_input_schema op) \<and> length hs = 1"

definition project_inv :: "project_op \<Rightarrow> entries list \<Rightarrow> bool" where
  "project_inv op hs \<longleftrightarrow> schema_ok (pj_output_schema op) \<and> length hs = 1"

interpretation fl: incremental_operator filter_step "\<lambda>op. [fl_input_schema op]" fl_input_schema filter_inv
  "\<lambda>op hs. zw (lin_data (filter_fun op) (hd hs))" "\<lambda>op hs. zw (lin_errs (filter_fun op) (hd hs))"
proof
  fix op hs bs ds o' op'
  assume inv: "filter_inv op hs" and ins: "inputs_hold [fl_input_schema op] bs ds"
    and step: "filter_step op bs = (Ok o', op')"
  obtain h where hs: "hs = [h]" using inv by (auto simp: filter_inv_def length_Suc_conv)
  obtain b d where bs: "bs = [b]" "ds = [d]" "holds (fl_input_schema op) b d"
    using ins by (auto simp: inputs_hold_unary)
  note ok = filter_step_Ok [OF bs(3) step [unfolded bs]]
  show "filter_inv op' (extend_histories hs ds)" using inv ok(1) bs hs by (simp add: filter_inv_def)
  show "\<exists>es. holds (fl_input_schema op) (so_data o') es \<and>
      (\<forall>r. zw es r = zw (lin_data (filter_fun op') (hd (extend_histories hs ds))) r
        - zw (lin_data (filter_fun op) (hd hs)) r)"
    using ok bs hs by auto
  show "\<exists>es. holds err_schema (so_errors o') es \<and>
      (\<forall>r. zw es r = zw (lin_errs (filter_fun op') (hd (extend_histories hs ds))) r
        - zw (lin_errs (filter_fun op) (hd hs)) r)"
    using ok bs hs by auto
qed (auto simp: filter_step_def)

interpretation pj: incremental_operator project_step "\<lambda>op. [pj_input_schema op]" pj_output_schema project_inv
  "\<lambda>op hs. zw (lin_data (project_fun op) (hd hs))" "\<lambda>op hs. zw (lin_errs (project_fun op) (hd hs))"
proof
  fix op hs bs ds o' op'
  assume inv: "project_inv op hs" and ins: "inputs_hold [pj_input_schema op] bs ds"
    and step: "project_step op bs = (Ok o', op')"
  obtain h where hs: "hs = [h]" using inv by (auto simp: project_inv_def length_Suc_conv)
  obtain b d where bs: "bs = [b]" "ds = [d]" "holds (pj_input_schema op) b d"
    using ins by (auto simp: inputs_hold_unary)
  have sch: "schema_ok (pj_output_schema op)" using inv by (simp add: project_inv_def)
  note ok = project_step_Ok [OF sch bs(3) step [unfolded bs]]
  show "project_inv op' (extend_histories hs ds)" using inv ok(1) bs hs by (simp add: project_inv_def)
  show "\<exists>es. holds (pj_output_schema op) (so_data o') es \<and>
      (\<forall>r. zw es r = zw (lin_data (project_fun op') (hd (extend_histories hs ds))) r
        - zw (lin_data (project_fun op) (hd hs)) r)"
    using ok bs hs by auto
  show "\<exists>es. holds err_schema (so_errors o') es \<and>
      (\<forall>r. zw es r = zw (lin_errs (project_fun op') (hd (extend_histories hs ds))) r
        - zw (lin_errs (project_fun op) (hd hs)) r)"
    using ok bs hs by auto
qed (auto simp: project_step_def)

section \<open>Steps of bound operators do not fail\<close>

lemma sound_Err: "sound ty r \<Longrightarrow> r = Err e \<Longrightarrow> is_evaluation_error e"
  by simp

lemma filter_new_Ok:
  "filter_new s n p = Ok op \<longleftrightarrow> op = \<lparr>fl_input_schema = s, fl_predicate = p\<rparr> \<and> type_of p (Scope s n) = Ok Boolean"
  by (auto simp: filter_new_def result_simps split: if_splits)

lemma filter_fun_errors:
  assumes "type_of (fl_predicate op) (Scope (fl_input_schema op) n) = Ok Boolean"
    and "row_conforms (fl_input_schema op) r" "filter_fun op r = Err e"
  shows "is_evaluation_error e"
  using type_soundness(1) [OF assms(1), of r] assms(2,3)
  by (auto simp: filter_fun_def is_true_def result_simps)

lemma lin_data_filter: "lin_data (filter_fun op) es = filter (\<lambda>(r, w). filter_fun op r = Ok (Some r)) es"
proof (induction es)
  case (Cons e es)
  then show ?case
    by (cases e) (auto simp: filter_fun_def bindR_def split: sum.splits)
qed simp

lemma filter_step_total:
  assumes new: "filter_new s n p = Ok op" and b: "holds s b d"
  shows "\<exists>out. filter_step op [b] = (Ok out, op)"
proof -
  have op: "op = \<lparr>fl_input_schema = s, fl_predicate = p\<rparr>" and ty: "type_of p (Scope s n) = Ok Boolean"
    using new by (simp_all add: filter_new_Ok)
  have "foldR (filter_entry op) ([], []) d = Ok (lin_data (filter_fun op) d, lin_errs (filter_fun op) d)"
    using holds_conforms [OF b] filter_fun_errors [of op n] ty op
    by (auto simp: filter_entry_lin intro!: foldR_lin_total [where ks = "[]" and errs = "[]", simplified])
  moreover have "is_ok (from_entries s (lin_data (filter_fun op) d))"
    using holds_conforms [OF b] b
    by (subst from_entries_ok_iff) (auto simp: lin_data_filter holds_def)
  moreover have "is_ok (step_output_new x (lin_errs (filter_fun op) d))" for x
    using lin_errs_conforms by (rule step_output_new_total)
  ultimately show ?thesis
    using holds_entries [OF b] holds_schema [OF b] op
    by (auto simp: filter_step_def unary_def check_schema_def is_ok_iff)
qed

lemma projection_schema_Ok:
  assumes "projection_schema (Scope s n) items = Ok output"
  shows "length (sc_fields output) = length items" "schema_ok output"
    and "i < length items \<Longrightarrow> f_nullable (sc_fields output ! i)
      \<and> type_of (nm_value (items ! i)) (Scope s n) = Ok (f_data_type (sc_fields output ! i))"
proof -
  obtain fs where fs: "mapR (\<lambda>item. bindR (type_of (nm_value item) (Scope s n))
        (\<lambda>ty. Ok (output_field (nm_name item) ty))) items = Ok fs"
      and out: "build_output_schema fs = Ok output"
    using assms by (auto simp: projection_schema_def result_simps)
  have fields: "sc_fields output = fs"
    using out by (auto simp: build_output_schema_def result_simps split: option.splits dest: schema_new_fields)
  show "length (sc_fields output) = length items" using fields mapR_length [OF fs] by simp
  show "schema_ok output" using build_output_schema_ok [OF out] .
  show "i < length items \<Longrightarrow> f_nullable (sc_fields output ! i)
      \<and> type_of (nm_value (items ! i)) (Scope s n) = Ok (f_data_type (sc_fields output ! i))"
  proof -
    assume "i < length items"
    then obtain ty where "type_of (nm_value (items ! i)) (Scope s n) = Ok ty"
        "fs ! i = output_field (nm_name (items ! i)) ty"
      using mapR_nth [OF fs, of i] by (fastforce simp: result_simps)
    then show ?thesis using fields by (simp add: output_field_def field_nullable_def)
  qed
qed

lemma project_new_Ok:
  assumes "project_new s n items = Ok op"
  shows "pj_input_schema op = s" "pj_items op = items" "schema_ok (pj_output_schema op)"
    and "projection_schema (Scope s n) items = Ok (pj_output_schema op)"
  using assms by (auto simp: project_new_def result_simps dest: projection_schema_Ok)

lemma project_fun_errors:
  assumes "projection_schema (Scope (pj_input_schema op) n) (pj_items op) = Ok output"
    and "row_conforms (pj_input_schema op) r" "project_fun op r = Err e"
  shows "is_evaluation_error e"
proof -
  obtain item where "item \<in> set (pj_items op)" and ev: "eval (nm_value item) r (pj_input_schema op) = Err e"
    using assms(3) by (auto simp: project_fun_def result_simps dest!: mapR_Err)
  then obtain ty where "type_of (nm_value item) (Scope (pj_input_schema op) n) = Ok ty"
    using projection_schema_Ok(3) [OF assms(1)] by (metis in_set_conv_nth)
  from type_soundness(1) [OF this, of r] ev assms(2) show ?thesis by simp
qed

lemma project_fun_conforms:
  assumes "projection_schema (Scope (pj_input_schema op) n) (pj_items op) = Ok output"
    and "row_conforms (pj_input_schema op) r" "project_fun op r = Ok (Some r')"
  shows "row_conforms output r'"
proof -
  have r': "mapR (\<lambda>item. eval (nm_value item) r (pj_input_schema op)) (pj_items op) = Ok r'"
    using assms(3) by (auto simp: project_fun_def result_simps)
  have "value_conforms (sc_fields output ! i) (r' ! i)" if i: "i < length (pj_items op)" for i
    using projection_schema_Ok(3) [OF assms(1) i] mapR_nth [OF r' i]
      type_soundness(1) [of "nm_value (pj_items op ! i)" "Scope (pj_input_schema op) n", of _ r] assms(2)
    by (auto simp: value_conforms_def)
  then show ?thesis
    using projection_schema_Ok(1) [OF assms(1)] mapR_length [OF r']
    by (simp add: row_conforms_def list_all2_conv_all_nth)
qed

lemma lin_data_project_conforms:
  assumes "projection_schema (Scope (pj_input_schema op) n) (pj_items op) = Ok output"
    and "\<forall>e \<in> set es. row_conforms (pj_input_schema op) (fst e)"
  shows "\<forall>e \<in> set (lin_data (project_fun op) es). row_conforms output (fst e)"
  using assms(2) project_fun_conforms [OF assms(1)]
  by (fastforce simp: lin_data_def split: sum.splits option.splits)

section \<open>Properties\<close>

text \<open>
  C24: A filter built on a well-typed predicate never fails a step: on every batch of its input schema
  it emits exactly the entries whose predicate is true, weights untouched whatever their sign, and
  puts the evaluation error of each raising row on the error stream at that row's weight.
\<close>

theorem filter_step_correct:
  assumes "filter_new s n p = Ok op" "schema_ok s" "from_entries s es = Ok b"
  shows "\<exists>out. filter_step op [b] = (Ok out, op)
    \<and> zb_entries (so_data out) = Ok (filter (\<lambda>(r, w). is_true p r s = Ok True) es)
    \<and> zb_entries (so_errors out)
        = Ok (concat (map (\<lambda>(r, w). case is_true p r s of Inl e \<Rightarrow> [(error_row e, w)] | Inr _ \<Rightarrow> []) es))"
proof -
  have b: "holds s b es" using assms by (simp add: holds_def)
  have op: "op = \<lparr>fl_input_schema = s, fl_predicate = p\<rparr>" using assms(1) by (simp add: filter_new_Ok)
  obtain out where out: "filter_step op [b] = (Ok out, op)"
    using filter_step_total [OF assms(1) b] by blast
  have b': "holds (fl_input_schema op) b es" using b op by simp
  note ok = filter_step_Ok [OF b' out]
  have "lin_data (filter_fun op) es = filter (\<lambda>(r, w). is_true p r s = Ok True) es"
    unfolding lin_data_filter
    by (rule filter_cong) (auto simp: filter_fun_def op bindR_def split: sum.splits if_splits)
  moreover have "lin_errs (filter_fun op) es
      = concat (map (\<lambda>(r, w). case is_true p r s of Inl e \<Rightarrow> [(error_row e, w)] | Inr _ \<Rightarrow> []) es)"
    unfolding lin_errs_def
    by (intro arg_cong [of _ _ concat] map_cong) (auto simp: filter_fun_def op bindR_def split: sum.splits)
  ultimately show ?thesis using out holds_entries [OF ok(2)] holds_entries [OF ok(3)] by auto
qed

theorem filter_step_correct_witness:
  "\<exists>op b out. filter_new \<lparr>sc_fields = [field_nullable ''t.a'' Int64]\<rparr> Qualified
        (Binary Gt (Binary Div (Literal (VInt 10)) (Column ''t.a'')) (Literal (VInt 1))) = Ok op
    \<and> from_entries \<lparr>sc_fields = [field_nullable ''t.a'' Int64]\<rparr> [([VInt 2], - 1), ([VInt 0], 4), ([VInt 99], 1)] = Ok b
    \<and> filter_step op [b] = (Ok out, op)
    \<and> zb_entries (so_data out) = Ok [([VInt 2], - 1)]
    \<and> zb_entries (so_errors out) = Ok [(error_row (DivisionByZero ''/''), 4)]"
proof -
  let ?s = "\<lparr>sc_fields = [field_nullable ''t.a'' Int64]\<rparr>"
  let ?p = "Binary Gt (Binary Div (Literal (VInt 10)) (Column ''t.a'')) (Literal (VInt 1))"
  let ?b = "\<lparr>zb_schema = ?s, zb_batch = [Int64Array [Some 2, Some 0, Some 99]], zb_weights = [- 1, 4, 1]\<rparr>"
  have new: "filter_new ?s Qualified ?p = Ok \<lparr>fl_input_schema = ?s, fl_predicate = ?p\<rparr>" by code_simp
  have s: "schema_ok ?s" by code_simp
  have b: "from_entries ?s [([VInt 2], - 1), ([VInt 0], 4), ([VInt 99], 1)] = Ok ?b" by code_simp
  have t: "is_true ?p [VInt 2] ?s = Ok True" "is_true ?p [VInt 0] ?s = Err (DivisionByZero ''/'')"
    "is_true ?p [VInt 99] ?s = Ok False"
    by code_simp+
  from filter_step_correct [OF new s b] new b show ?thesis by (auto simp: t)
qed

text \<open>
  C25: A projection built by the binder fails a step only if the weights of rows it merges overflow.
  Otherwise it emits the canonical form of the projected rows, each output row at the sum of the
  weights of the rows that project to it; a row with a raising item is dropped and its first
  error recorded at its weight.
\<close>

theorem project_step_correct:
  assumes "project_new s n items = Ok op" "schema_ok s" "from_entries s es = Ok b"
  shows "case project_step op [b] of
      (Inr out, op') \<Rightarrow> op' = op
        \<and> (\<exists>ms. zb_entries (so_data out) = Ok ms \<and> canon ms
             \<and> (\<forall>r'. zw ms r' = zint (\<lambda>r. if mapR (\<lambda>i. eval (nm_value i) r s) items = Ok r' then 1 else 0) es))
        \<and> zb_entries (so_errors out) = Ok (lin_errs (project_fun op) es)
    | (Inl e, op') \<Rightarrow> op' = op \<and> e = OpZSet (WeightOverflow ''consolidating weights for equal rows'')"
proof -
  have b: "holds s b es" using assms by (simp add: holds_def)
  note new = project_new_Ok [OF assms(1)]
  have proj: "projection_schema (Scope (pj_input_schema op) n) (pj_items op) = Ok (pj_output_schema op)"
    using new by simp
  have rows: "\<forall>e \<in> set es. row_conforms (pj_input_schema op) (fst e)" using holds_conforms [OF b] new by simp
  have loop: "foldR (project_entry op) ([], []) es = Ok (lin_data (project_fun op) es, lin_errs (project_fun op) es)"
    using rows project_fun_errors [OF proj]
    by (auto simp: project_entry_lin intro!: foldR_lin_total [where ks = "[]" and errs = "[]", simplified])
  obtain x where x: "from_entries (pj_output_schema op) (lin_data (project_fun op) es) = Ok x"
    using from_entries_ok_iff [OF new(3), of "lin_data (project_fun op) es"] lin_data_project_conforms [OF proj rows] by (auto simp: is_ok_iff)
  have hx: "holds (pj_output_schema op) x (lin_data (project_fun op) es)" using x new(3) by (simp add: holds_def)
  have errs: "\<exists>out. step_output_new y (lin_errs (project_fun op) es) = Ok out" for y
    using step_output_new_total [OF lin_errs_conforms] by (auto simp: is_ok_iff)
  have step: "project_step op [b] = (bindR (map_err OpZSet (consolidate x))
      (\<lambda>d. step_output_new d (lin_errs (project_fun op) es)), op)"
    using holds_entries [OF b] holds_schema [OF b] new(1)
    by (simp add: project_step_def unary_def check_schema_def loop x)
  have fun_eq: "(project_fun op r = Ok (Some r')) = (mapR (\<lambda>i. eval (nm_value i) r s) items = Ok r')" for r r'
    using new by (auto simp: project_fun_def result_simps)
  show ?thesis
  proof (cases "consolidate x")
    case (Inr d)
    obtain ms where ms: "holds (pj_output_schema op) d ms" "canon ms" "zw ms = zw (lin_data (project_fun op) es)"
      using consolidate_Ok [OF hx Inr] by blast
    obtain out where out: "step_output_new d (lin_errs (project_fun op) es) = Ok out" using errs by blast
    show ?thesis
      using step Inr out ms step_output_new_Ok [OF out] holds_entries [OF ms(1)]
        holds_entries [OF step_output_new_Ok(2) [OF out]]
      by (auto simp: zw_lin_data fun_eq)
  next
    case (Inl e)
    have "e = WeightOverflow ''consolidating weights for equal rows''"
      using consolidate_Err [OF hx Inl] .
    then show ?thesis using step Inl by simp
  qed
qed

theorem project_step_correct_witness:
  "\<exists>op b out. project_new \<lparr>sc_fields = [field_nullable ''t.a'' Int64]\<rparr> Qualified
        [\<lparr>nm_name = ''m'', nm_value = Binary Mod (Column ''t.a'') (Literal (VInt 2))\<rparr>] = Ok op
    \<and> from_entries \<lparr>sc_fields = [field_nullable ''t.a'' Int64]\<rparr> [([VInt 2], 3), ([VInt 4], - 1)] = Ok b
    \<and> project_step op [b] = (Ok out, op)
    \<and> (\<exists>ms. zb_entries (so_data out) = Ok ms \<and> zw ms [VInt 0] = 2)"
proof -
  let ?s = "\<lparr>sc_fields = [field_nullable ''t.a'' Int64]\<rparr>"
  let ?items = "[\<lparr>nm_name = ''m'', nm_value = Binary Mod (Column ''t.a'') (Literal (VInt 2))\<rparr>]"
  let ?o = "\<lparr>sc_fields = [field_nullable ''m'' Int64]\<rparr>"
  let ?op = "\<lparr>pj_input_schema = ?s, pj_output_schema = ?o, pj_items = ?items\<rparr>"
  let ?b = "\<lparr>zb_schema = ?s, zb_batch = [Int64Array [Some 2, Some 4]], zb_weights = [3, - 1]\<rparr>"
  let ?e = "\<lparr>zb_schema = \<lparr>sc_fields = [field_not_null ''error'' Utf8]\<rparr>, zb_batch = [StringArray []], zb_weights = []\<rparr>"
  let ?out = "\<lparr>so_data = \<lparr>zb_schema = ?o, zb_batch = [Int64Array [Some 0]], zb_weights = [2]\<rparr>, so_errors = ?e\<rparr>"
  have new: "project_new ?s Qualified ?items = Ok ?op" by code_simp
  have s: "schema_ok ?s" by code_simp
  have b: "from_entries ?s [([VInt 2], 3), ([VInt 4], - 1)] = Ok ?b" by code_simp
  have step: "project_step ?op [?b] = (Ok ?out, ?op)" by code_simp
  have ev: "mapR (\<lambda>i. eval (nm_value i) [VInt 2] ?s) ?items = Ok [VInt 0]"
    "mapR (\<lambda>i. eval (nm_value i) [VInt 4] ?s) ?items = Ok [VInt 0]" by code_simp+
  have "\<exists>ms. zb_entries (so_data ?out) = Ok ms \<and> zw ms [VInt 0] = 2"
    using project_step_correct [OF new s b] unfolding step by (auto simp: ev simp del: mapR.simps)
  then show ?thesis using new b step by blast
qed

end
