(* ===== verification/Float_Avg.thy ===== *)
theory Float_Avg
  imports Values
begin

text \<open>
  The one floating-point computation of the engine: \<open>AVG\<close> divides two exact 64-bit integers once,
  \<open>sum as f64 / count as f64\<close>. Both conversions and the division round to the nearest double, ties
  to even. Operands are at most \<open>2 ^ 63\<close> in magnitude, so every non-zero quotient is a normal number
  and no subnormal case arises. A division by the count zero cannot come from a present group; its
  IEEE result is written out, with the default quiet NaN for \<open>0 / 0\<close>.
\<close>

function bit_length :: "int \<Rightarrow> int" where
  "bit_length n = (if n \<le> 0 then 0 else 1 + bit_length (n div 2))"
  by auto
termination
  by (relation "measure nat") auto

declare bit_length.simps [simp del]

definition round_half_even :: "int \<Rightarrow> int \<Rightarrow> int" where
  "round_half_even n d =
    (let q = n div d; r = n mod d in
     if 2 * r < d then q else if d < 2 * r then q + 1 else if even q then q else q + 1)"

text \<open>The integer value of the double nearest to an integer of at most 64 bits.\<close>

definition round_to_f64 :: "int \<Rightarrow> int" where
  "round_to_f64 m =
    (let k = nat (bit_length m - 53) in if k = 0 then m else round_half_even m (2 ^ k) * 2 ^ k)"

text \<open>The bits, sign aside, of the nearest double to the quotient of two positive integers.\<close>

definition scaled_quotient :: "int \<Rightarrow> int \<Rightarrow> int \<Rightarrow> int \<times> int" where
  "scaled_quotient x y s = (if 0 \<le> s then (x * 2 ^ nat s, y) else (x, y * 2 ^ nat (- s)))"

definition quotient_bits :: "int \<Rightarrow> int \<Rightarrow> int" where
  "quotient_bits x y =
    (let s0 = 53 + bit_length y - bit_length x;
         (n0, d0) = scaled_quotient x y s0;
         s = (if 2 ^ 53 \<le> n0 div d0 then s0 - 1 else s0);
         (n, d) = scaled_quotient x y s;
         m = round_half_even n d;
         (m', e) = (if m = 2 ^ 53 then (2 ^ 52, 53 - s) else (m, 52 - s))
     in (e + 1023) * 2 ^ 52 + (m' - 2 ^ 52))"

definition f64_div_ints :: "int \<Rightarrow> int \<Rightarrow> 64 word" where
  "f64_div_ints a b =
    (let sign_bit = (if (a < 0) \<noteq> (b < 0) then 2 ^ 63 else 0);
         x = round_to_f64 \<bar>a\<bar>; y = round_to_f64 \<bar>b\<bar>
     in if y = 0 then (if x = 0 then word_of_int (0x7FF8 * 2 ^ 48) else word_of_int (sign_bit + 0x7FF0 * 2 ^ 48))
        else if x = 0 then word_of_int (if b < 0 then 2 ^ 63 else 0)
        else word_of_int (sign_bit + quotient_bits x y))"

text \<open>Known encodings: \<open>1.0\<close>, \<open>-2.5\<close>, \<open>1/3\<close> and \<open>2 ^ 63\<close>.\<close>

lemma f64_div_ints_samples:
  "f64_div_ints 7 7 = 0x3FF0000000000000"
  "f64_div_ints (- 5) 2 = 0xC004000000000000"
  "f64_div_ints 1 3 = 0x3FD5555555555555"
  "f64_div_ints (2 ^ 63 - 1) 1 = 0x43E0000000000000"
  by code_simp+

end
