(* ===== verification/Aggregate.thy ===== *)
theory Aggregate
  imports Linear Float_Avg
begin

text \<open>
  \<open>GROUP BY\<close> with the five aggregates (\<open>schweep-ops/src/aggregate.rs\<close>). The state holds, per group, its
  total weight, and per aggregate slot and group an ordered multiset of the argument's values; a
  step works out which groups a delta touches, what each emitted before, applies the delta, and
  emits the difference. Sums of weights within one delta use plain \<open>+=\<close>, which wraps at 64 bits.
\<close>

section \<open>State keys\<close>

datatype emission = Absent | EmRow row | Failed plan_error

record aggregate_op =
  ag_input_schema :: schema
  ag_output_schema :: schema
  ag_keys :: "expr named list"
  ag_aggregates :: "agg_func named list"
  ag_state :: mem_backend

definition aggregate_new :: "schema \<Rightarrow> schema \<Rightarrow> expr named list \<Rightarrow> agg_func named list \<Rightarrow> mem_backend
    \<Rightarrow> (op_error, aggregate_op) result" where
  "aggregate_new i out keys aggs m =
    (if aggs = [] then Err (OpPlan EmptyGroupKeys)
     else Ok \<lparr>ag_input_schema = i, ag_output_schema = out, ag_keys = keys, ag_aggregates = aggs, ag_state = m\<rparr>)"

definition total_key :: "sql_value list \<Rightarrow> key" where
  "total_key grp = VStr ''*'' # grp"

definition values_prefix :: "nat \<Rightarrow> sql_value list \<Rightarrow> key" where
  "values_prefix slot grp = VStr ''v'' # VInt (int slot) # grp"

definition value_key_at :: "nat \<Rightarrow> sql_value list \<Rightarrow> sql_value \<Rightarrow> key" where
  "value_key_at slot grp v = values_prefix slot grp @ [v]"

definition is_grand_total :: "aggregate_op \<Rightarrow> bool" where
  "is_grand_total op \<longleftrightarrow> ag_keys op = []"

definition primed_key :: key where
  "primed_key = [VStr ''primed'']"

section \<open>Folding one slot of a group\<close>

record fold_state =
  fs_failure :: "op_error option"
  fs_any :: bool
  fs_count :: int
  fs_sum :: int
  fs_extremum :: "sql_value option"

definition fold_start :: fold_state where
  "fold_start = \<lparr>fs_failure = None, fs_any = False, fs_count = 0, fs_sum = 0, fs_extremum = None\<rparr>"

definition fold_fail :: "fold_state \<Rightarrow> op_error \<Rightarrow> fold_state \<times> bool" where
  "fold_fail s e = (s\<lparr>fs_failure := Some e\<rparr>, False)"

definition overflow_of :: "agg_func \<Rightarrow> op_error" where
  "overflow_of func = OpPlan (AggregateOverflow (agg_name func))"

definition fold_count :: "agg_func \<Rightarrow> fold_state \<Rightarrow> int \<Rightarrow> fold_state \<times> bool" where
  "fold_count func s weight = (case checked_add (fs_count s) weight of
      Some next \<Rightarrow> (s\<lparr>fs_count := next\<rparr>, True)
    | None \<Rightarrow> fold_fail s (overflow_of func))"

definition fold_sum :: "agg_func \<Rightarrow> fold_state \<Rightarrow> sql_value \<Rightarrow> int \<Rightarrow> fold_state \<times> bool" where
  "fold_sum func s v weight = (case v of
      VInt x \<Rightarrow>
        if \<not> in_i128 (weight * x) then fold_fail s (overflow_of func)
        else if \<not> in_i128 (fs_sum s + weight * x) then fold_fail s (overflow_of func)
        else (case checked_add (fs_count s) weight of
            None \<Rightarrow> fold_fail s (overflow_of func)
          | Some next \<Rightarrow> (s\<lparr>fs_sum := fs_sum s + weight * x, fs_count := next\<rparr>, True))
    | _ \<Rightarrow> fold_fail s (OpPlan (AggregateTypeUnsupported (agg_name func)
              (case value_data_type v of Some ty \<Rightarrow> ty | None \<Rightarrow> Int64))))"

definition fold_visitor :: "agg_func \<Rightarrow> nat \<Rightarrow> fold_state \<Rightarrow> key \<Rightarrow> int \<Rightarrow> fold_state \<times> bool" where
  "fold_visitor func value_at s k weight = (case nth_opt k value_at of
      None \<Rightarrow> fold_fail s CorruptAggregateState
    | Some v \<Rightarrow> (let s = s\<lparr>fs_any := True\<rparr> in
        case func of
          Count _ \<Rightarrow> fold_count func s weight
        | Sum _ \<Rightarrow> fold_sum func s v weight
        | Avg _ \<Rightarrow> fold_sum func s v weight
        | Min _ \<Rightarrow> (s\<lparr>fs_extremum := Some v\<rparr>, False)
        | Max _ \<Rightarrow> (s\<lparr>fs_extremum := Some v\<rparr>, True)
        | CountStar \<Rightarrow> (s, False)))"

definition group_total :: "aggregate_op \<Rightarrow> sql_value list \<Rightarrow> int" where
  "group_total op grp = (case mem_get (ag_state op) (total_key grp) of Some w \<Rightarrow> w | None \<Rightarrow> 0)"

definition fold_result :: "aggregate_op \<Rightarrow> sql_value list \<Rightarrow> agg_func \<Rightarrow> fold_state \<Rightarrow> (op_error, sql_value) result" where
  "fold_result op grp func s = (case func of
      Count _ \<Rightarrow> Ok (VInt (fs_count s))
    | Sum _ \<Rightarrow>
        if \<not> fs_any s then Ok VNull
        else if in_i64 (fs_sum s) then Ok (VInt (fs_sum s)) else Err (overflow_of func)
    | Avg _ \<Rightarrow>
        if \<not> fs_any s then Ok VNull
        else if in_i64 (fs_sum s) then Ok (VFloat (f64_div_ints (fs_sum s) (fs_count s)))
        else Err (overflow_of func)
    | CountStar \<Rightarrow> Ok (VInt (group_total op grp))
    | _ \<Rightarrow> Ok (case fs_extremum s of Some v \<Rightarrow> v | None \<Rightarrow> VNull))"

definition agg_fold :: "aggregate_op \<Rightarrow> nat \<Rightarrow> sql_value list \<Rightarrow> agg_func \<Rightarrow> (op_error, sql_value) result" where
  "agg_fold op slot grp func =
    (if func = CountStar then Ok (VInt (group_total op grp))
     else let p = values_prefix slot grp;
              s = mem_visit_prefix (ag_state op) p (fold_visitor func (length p)) fold_start
          in case fs_failure s of
               Some e \<Rightarrow> Err e
             | None \<Rightarrow> fold_result op grp func s)"

section \<open>What a group emits\<close>

fun emit_slots :: "aggregate_op \<Rightarrow> int \<Rightarrow> sql_value list \<Rightarrow> nat \<Rightarrow> agg_func named list \<Rightarrow> sql_value list
    \<Rightarrow> (op_error, emission) result" where
  "emit_slots op tot grp slot [] values = Ok (EmRow values)"
| "emit_slots op tot grp slot (agg # aggs) values =
    (case (if nm_value agg = CountStar then Ok (VInt tot) else agg_fold op slot grp (nm_value agg)) of
       Inr v \<Rightarrow> emit_slots op tot grp (Suc slot) aggs (values @ [v])
     | Inl (OpPlan e) \<Rightarrow> if is_evaluation_error e then Ok (Failed e) else Err (OpPlan e)
     | Inl err \<Rightarrow> Err err)"

definition emission_of :: "aggregate_op \<Rightarrow> sql_value list \<Rightarrow> bool \<Rightarrow> (op_error, emission) result" where
  "emission_of op grp already_emitted =
    (let tot = group_total op grp in
     if is_grand_total op \<and> \<not> already_emitted then Ok Absent
     else if \<not> is_grand_total op \<and> tot \<le> 0 then Ok Absent
     else emit_slots op tot grp 0 (ag_aggregates op) grp)"

section \<open>One step\<close>

type_synonym slot_key = "nat \<times> sql_value list \<times> sql_value"

definition add_to :: "'k::linorder \<Rightarrow> int \<Rightarrow> ('k, int) btree \<Rightarrow> ('k, int) btree" where
  "add_to k w m = bt_insert k (wrapping_add (bt_get_or 0 m k) w) m"

definition agg_slot :: "aggregate_op \<Rightarrow> row \<Rightarrow> int \<Rightarrow> sql_value list \<Rightarrow> entries \<times> (slot_key, int) btree
    \<Rightarrow> nat \<times> agg_func named \<Rightarrow> (op_error, entries \<times> (slot_key, int) btree) result" where
  "agg_slot op row weight grp acc sa = (case (acc, sa) of ((errors, vd), (slot, agg)) \<Rightarrow>
    case agg_argument (nm_value agg) of
      None \<Rightarrow> Ok (errors, vd)
    | Some arg \<Rightarrow>
       (case eval arg row (ag_input_schema op) of
          Inr v \<Rightarrow> if v = VNull then Ok (errors, vd) else Ok (errors, add_to (slot, grp, v) weight vd)
        | Inl e \<Rightarrow> if is_evaluation_error e then Ok (errors @ [(error_row e, weight)], vd) else Err (OpPlan e)))"

type_synonym agg_acc = "entries \<times> (sql_value list, int) btree \<times> (slot_key, int) btree"

definition agg_entry :: "aggregate_op \<Rightarrow> agg_acc \<Rightarrow> row \<times> int \<Rightarrow> (op_error, agg_acc) result" where
  "agg_entry op acc e = (case (acc, e) of ((errors, td, vd), (row, weight)) \<Rightarrow>
    case mapR (\<lambda>k. eval (nm_value k) row (ag_input_schema op)) (ag_keys op) of
      Inl err \<Rightarrow> if is_evaluation_error err then Ok (errors @ [(error_row err, weight)], td, vd) else Err (OpPlan err)
    | Inr grp \<Rightarrow>
       bindR (foldR (agg_slot op row weight grp) (errors, vd) (enumerate 0 (ag_aggregates op)))
         (\<lambda>(errors', vd'). Ok (errors', add_to grp weight td, vd')))"

definition agg_touched :: "aggregate_op \<Rightarrow> (sql_value list, int) btree \<Rightarrow> sql_value list list" where
  "agg_touched op td =
    (let touched = map fst td in
     if is_grand_total op \<and> [] \<notin> set touched then touched @ [[]] else touched)"

definition agg_batch :: "aggregate_op \<Rightarrow> bool \<Rightarrow> (sql_value list, int) btree \<Rightarrow> (slot_key, int) btree \<Rightarrow> write_batch" where
  "agg_batch op was_primed td vd =
    map (\<lambda>(g, d). (total_key g, d)) td
    @ map (\<lambda>((slot, g, v), d). (value_key_at slot g v, d)) vd
    @ (if is_grand_total op \<and> \<not> was_primed then [(primed_key, 1)] else [])"

definition retract :: "emission \<Rightarrow> int \<Rightarrow> entries \<times> entries \<Rightarrow> entries \<times> entries" where
  "retract em w acc = (case em of
      Absent \<Rightarrow> acc
    | EmRow r \<Rightarrow> (fst acc @ [(r, w)], snd acc)
    | Failed e \<Rightarrow> (fst acc, snd acc @ [(error_row e, w)]))"

definition agg_emit :: "aggregate_op \<Rightarrow> entries \<times> entries \<Rightarrow> sql_value list \<times> emission
    \<Rightarrow> (op_error, entries \<times> entries) result" where
  "agg_emit op acc gw = (case gw of (grp, was) \<Rightarrow>
    bindR (emission_of op grp True)
      (\<lambda>now. Ok (if was = now then acc else retract now 1 (retract was (- 1) acc))))"

definition was_primed :: "aggregate_op \<Rightarrow> bool" where
  "was_primed op \<longleftrightarrow> mem_get (ag_state op) primed_key \<noteq> None"

definition agg_read :: "aggregate_op \<Rightarrow> zset_batch list
    \<Rightarrow> (op_error, entries \<times> sql_value list list \<times> emission list \<times> write_batch) result" where
  "agg_read op inputs =
    bindR (unary ''aggregate'' inputs) (\<lambda>input.
    bindR (check_schema ''aggregate'' (ag_input_schema op) input) (\<lambda>_.
    bindR (map_err OpZSet (zb_entries input)) (\<lambda>es.
    bindR (foldR (agg_entry op) ([], [], []) es) (\<lambda>(errors, td, vd).
    bindR (mapR (\<lambda>g. emission_of op g (was_primed op)) (agg_touched op td)) (\<lambda>before.
    Ok (errors, agg_touched op td, before, agg_batch op (was_primed op) td vd))))))"

definition aggregate_step :: "aggregate_op \<Rightarrow> zset_batch list
    \<Rightarrow> (op_error, step_output) result \<times> aggregate_op" where
  "aggregate_step op inputs =
    (case agg_read op inputs of
       Inl e \<Rightarrow> (Err e, op)
     | Inr (errors, touched, before, batch) \<Rightarrow>
        (case mem_write (ag_state op) batch of
           (Inl e, m') \<Rightarrow> (Err (OpState e), op\<lparr>ag_state := m'\<rparr>)
         | (Inr _, m') \<Rightarrow>
            (let op' = op\<lparr>ag_state := m'\<rparr> in
             (bindR (foldR (agg_emit op') ([], errors) (zip touched before)) (\<lambda>(out, errors').
              bindR (map_err OpZSet (from_entries (ag_output_schema op) out)) (\<lambda>b.
              bindR (map_err OpZSet (consolidate b)) (\<lambda>d.
              step_output_new d errors'))), op'))))"

end
