(* ===== verification/Aggregate_Props.thy ===== *)
theory Aggregate_Props
  imports Aggregate
begin

text \<open>
  The aggregate operator keeps an exact record of its input: the state holds, for every group and
  every slot value, the accumulated weight modulo \<open>2 ^ 64\<close>, and the emitted deltas add up to one row
  per present group, computed from that state. Both facts are proved for arbitrary runs through the
  operator contract.
\<close>

section \<open>What a delta contributes to the state\<close>

definition agg_group :: "aggregate_op \<Rightarrow> row \<Rightarrow> (plan_error, sql_value list) result" where
  "agg_group op r = mapR (\<lambda>k. eval (nm_value k) r (ag_input_schema op)) (ag_keys op)"

definition agg_arg :: "aggregate_op \<Rightarrow> row \<Rightarrow> agg_func named \<Rightarrow> (plan_error, sql_value option) result" where
  "agg_arg op r agg = (case agg_argument (nm_value agg) of
      None \<Rightarrow> Ok None
    | Some arg \<Rightarrow> bindR (eval arg r (ag_input_schema op)) (\<lambda>v. Ok (if v = VNull then None else Some v)))"

definition total_hist :: "aggregate_op \<Rightarrow> entries \<Rightarrow> (sql_value list \<times> int) list" where
  "total_hist op es = concat (map (\<lambda>(r, w). case agg_group op r of Inr g \<Rightarrow> [(g, w)] | Inl _ \<Rightarrow> []) es)"

definition slot_values :: "aggregate_op \<Rightarrow> row \<Rightarrow> int \<Rightarrow> sql_value list \<Rightarrow> (nat \<times> agg_func named) list \<Rightarrow> (slot_key \<times> int) list" where
  "slot_values op r w g sas = concat (map (\<lambda>(slot, agg).
     case agg_arg op r agg of Inr (Some v) \<Rightarrow> [((slot, g, v), w)] | _ \<Rightarrow> []) sas)"

definition slot_errs :: "aggregate_op \<Rightarrow> row \<Rightarrow> int \<Rightarrow> (nat \<times> agg_func named) list \<Rightarrow> entries" where
  "slot_errs op r w sas = concat (map (\<lambda>(slot, agg).
     case agg_arg op r agg of Inl e \<Rightarrow> [(error_row e, w)] | _ \<Rightarrow> []) sas)"

definition value_hist :: "aggregate_op \<Rightarrow> entries \<Rightarrow> (slot_key \<times> int) list" where
  "value_hist op es = concat (map (\<lambda>(r, w). case agg_group op r of
     Inr g \<Rightarrow> slot_values op r w g (enumerate 0 (ag_aggregates op)) | Inl _ \<Rightarrow> []) es)"

definition err_hist :: "aggregate_op \<Rightarrow> entries \<Rightarrow> entries" where
  "err_hist op es = concat (map (\<lambda>(r, w). case agg_group op r of
     Inr g \<Rightarrow> slot_errs op r w (enumerate 0 (ag_aggregates op)) | Inl e \<Rightarrow> [(error_row e, w)]) es)"

definition state_hist :: "aggregate_op \<Rightarrow> entries \<Rightarrow> entries" where
  "state_hist op es = map (\<lambda>(g, w). (total_key g, w)) (total_hist op es)
    @ map (\<lambda>(k, w). ((\<lambda>(slot, g, v). value_key_at slot g v) k, w)) (value_hist op es)"

lemma hist_append [simp]:
  "total_hist op (xs @ ys) = total_hist op xs @ total_hist op ys"
  "value_hist op (xs @ ys) = value_hist op xs @ value_hist op ys"
  "err_hist op (xs @ ys) = err_hist op xs @ err_hist op ys"
  by (simp_all add: total_hist_def value_hist_def err_hist_def)

lemma zw_state_hist_append:
  "zw (state_hist op (xs @ ys)) k = zw (state_hist op xs) k + zw (state_hist op ys) k"
  by (simp add: state_hist_def)

lemma hist_Nil [simp]: "total_hist op [] = []" "value_hist op [] = []" "err_hist op [] = []" "state_hist op [] = []"
  by (simp_all add: total_hist_def value_hist_def err_hist_def state_hist_def)

text \<open>The histories do not depend on the state of the operator.\<close>

lemma args_state_irrelevant [simp]:
  "agg_group (op\<lparr>ag_state := m\<rparr>) r = agg_group op r"
  "agg_arg (op\<lparr>ag_state := m\<rparr>) r agg = agg_arg op r agg"
  by (simp_all add: agg_group_def agg_arg_def split: option.split)

lemma hist_state_irrelevant [simp]:
  "total_hist (op\<lparr>ag_state := m\<rparr>) es = total_hist op es"
  "value_hist (op\<lparr>ag_state := m\<rparr>) es = value_hist op es"
  "err_hist (op\<lparr>ag_state := m\<rparr>) es = err_hist op es"
  "state_hist (op\<lparr>ag_state := m\<rparr>) es = state_hist op es"
  by (simp_all add: total_hist_def value_hist_def err_hist_def state_hist_def slot_values_def slot_errs_def
      cong: sum.case_cong)

section \<open>The accumulation loop\<close>

lemma bt_get_or_add_to: "bt_get_or 0 (add_to k w m) k' = (if k' = k then wrapping_add (bt_get_or 0 m k) w else bt_get_or 0 m k')"
  by (simp add: add_to_def btree_simps)

lemma bt_ok_add_to [simp]: "bt_ok m \<Longrightarrow> bt_ok (add_to k w m)"
  by (simp add: add_to_def)

lemma keys_add_to [simp]: "fst ` set (add_to k w m) = insert k (fst ` set m)"
  by (simp add: add_to_def btree_simps)

text \<open>A map accumulates a list of additions when it holds each key's sum modulo \<open>2 ^ 64\<close>.\<close>

definition accumulates :: "('k::linorder, int) btree \<Rightarrow> ('k \<times> int) list \<Rightarrow> bool" where
  "accumulates m es \<longleftrightarrow> bt_ok m \<and> fst ` set m = fst ` set es \<and> (\<forall>k. bt_get_or 0 m k = wrap64 (zw es k))"

lemma accumulates_Nil [simp]: "accumulates [] []"
  by (simp add: accumulates_def wrap64_id)

lemma accumulates_add: "accumulates m es \<Longrightarrow> accumulates (add_to k w m) (es @ [(k, w)])"
  by (auto simp: accumulates_def bt_get_or_add_to wrapping_add_def wrap64_wrap64_add)

lemma agg_slot_loop:
  assumes "foldR (agg_slot op r w g) (errs, vd) sas = Ok (errs', vd')" "accumulates vd vh"
  shows "errs' = errs @ slot_errs op r w sas \<and> accumulates vd' (vh @ slot_values op r w g sas)"
  using assms
proof (induction sas arbitrary: errs vd vh)
  case (Cons sa sas)
  obtain slot agg where sa: "sa = (slot, agg)" by (cases sa)
  obtain acc1 where step: "agg_slot op r w g (errs, vd) (slot, agg) = Ok acc1"
      and rest: "foldR (agg_slot op r w g) acc1 sas = Ok (errs', vd')"
    using Cons.prems(1) sa by (auto simp: result_simps)
  obtain errs1 vd1 where acc1: "acc1 = (errs1, vd1)" by (cases acc1)
  have "errs1 = errs @ slot_errs op r w [(slot, agg)] \<and> accumulates vd1 (vh @ slot_values op r w g [(slot, agg)])"
    using step acc1 Cons.prems(2)
    by (auto simp: agg_slot_def slot_errs_def slot_values_def agg_arg_def result_simps accumulates_add
        split: option.splits sum.splits if_splits)
  moreover have "slot_errs op r w (sa # sas) = slot_errs op r w [(slot, agg)] @ slot_errs op r w sas"
    "slot_values op r w g (sa # sas) = slot_values op r w g [(slot, agg)] @ slot_values op r w g sas"
    by (simp_all add: slot_errs_def slot_values_def sa)
  ultimately show ?case
    using Cons.IH [OF rest [unfolded acc1], of "vh @ slot_values op r w g [(slot, agg)]"] by simp
qed (simp add: slot_errs_def slot_values_def)

lemma agg_loop:
  assumes "foldR (agg_entry op) (errs, td, vd) es = Ok (errs', td', vd')" "accumulates td th" "accumulates vd vh"
  shows "errs' = errs @ err_hist op es \<and> accumulates td' (th @ total_hist op es) \<and> accumulates vd' (vh @ value_hist op es)"
  using assms
proof (induction es arbitrary: errs td vd th vh)
  case (Cons e es)
  obtain r w where e: "e = (r, w)" by (cases e)
  obtain errs1 td1 vd1 where step: "agg_entry op (errs, td, vd) (r, w) = Ok (errs1, td1, vd1)"
      and rest: "foldR (agg_entry op) (errs1, td1, vd1) es = Ok (errs', td', vd')"
    using Cons.prems(1) e by (auto simp: result_simps)
  have "errs1 = errs @ err_hist op [e] \<and> accumulates td1 (th @ total_hist op [e]) \<and> accumulates vd1 (vh @ value_hist op [e])"
  proof (cases "agg_group op r")
    case (Inl err)
    then show ?thesis
      using step Cons.prems e
      by (auto simp: agg_entry_def agg_group_def err_hist_def total_hist_def value_hist_def split: if_splits)
  next
    case (Inr g)
    then have "foldR (agg_slot op r w g) (errs, vd) (enumerate 0 (ag_aggregates op)) = Ok (errs1, vd1)"
      and td1: "td1 = add_to g w td"
      using step by (auto simp: agg_entry_def agg_group_def result_simps)
    from agg_slot_loop [OF this(1) Cons.prems(3)] show ?thesis
      using Inr e td1 accumulates_add [OF Cons.prems(2)]
      by (simp add: err_hist_def total_hist_def value_hist_def)
  qed
  moreover have "err_hist op (e # es) = err_hist op [e] @ err_hist op es" "total_hist op (e # es) = total_hist op [e] @ total_hist op es"
    "value_hist op (e # es) = value_hist op [e] @ value_hist op es"
    using hist_append [of op "[e]" es] by simp_all
  ultimately show ?case
    using Cons.IH [OF rest, of "th @ total_hist op [e]" "vh @ value_hist op [e]"] by simp
qed simp

section \<open>The batch of a step\<close>

lemma total_key_inj: "inj total_key"
  by (simp add: inj_def total_key_def)

lemma slot_key_inj: "inj (\<lambda>(slot, g, v). value_key_at slot g v)"
  by (auto simp: inj_def value_key_at_def values_prefix_def)

lemma state_keys_disjoint [simp]:
  "total_key g \<noteq> value_key_at slot g' v" "value_key_at slot g' v \<noteq> total_key g"
  "total_key g \<noteq> primed_key" "primed_key \<noteq> total_key g"
  "value_key_at slot g' v \<noteq> primed_key" "primed_key \<noteq> value_key_at slot g' v"
  by (simp_all add: total_key_def value_key_at_def values_prefix_def primed_key_def)

lemma zw_total_part [simp]:
  "zw (map (\<lambda>(g, w). (total_key g, w)) es) (total_key g) = zw es g"
  "zw (map (\<lambda>(g, w). (total_key g, w)) es) (value_key_at slot g' v) = 0"
  "zw (map (\<lambda>(g, w). (total_key g, w)) es) primed_key = 0"
  by (simp_all add: zw_map_inj [OF total_key_inj] zw_map_outside image_iff)

lemma zw_value_part [simp]:
  "zw (map (\<lambda>(k, w). ((\<lambda>(slot, g, v). value_key_at slot g v) k, w)) vs) (value_key_at slot g v) = zw vs (slot, g, v)"
  "zw (map (\<lambda>(k, w). ((\<lambda>(slot, g, v). value_key_at slot g v) k, w)) vs) (total_key g) = 0"
  "zw (map (\<lambda>(k, w). ((\<lambda>(slot, g, v). value_key_at slot g v) k, w)) vs) primed_key = 0"
  using zw_map_inj [OF slot_key_inj, of vs "(slot, g, v)"]
  by (auto simp: zw_map_outside image_iff split: prod.splits)

lemma zw_state_hist [simp]:
  "zw (state_hist op es) (total_key g) = zw (total_hist op es) g"
  "zw (state_hist op es) (value_key_at slot g v) = zw (value_hist op es) (slot, g, v)"
  "zw (state_hist op es) primed_key = 0"
  by (simp_all add: state_hist_def)

lemma agg_batch_alt:
  "agg_batch op p td vd = map (\<lambda>(g, d). (total_key g, d)) td
    @ map (\<lambda>(k, d). ((\<lambda>(slot, g, v). value_key_at slot g v) k, d)) vd
    @ (if is_grand_total op \<and> \<not> p then [(primed_key, 1)] else [])"
  by (simp add: agg_batch_def split_beta)

lemma zw_outside:
  assumes "k \<noteq> primed_key" "\<And>g. k \<noteq> total_key g" "\<And>slot g v. k \<noteq> value_key_at slot g v"
  shows "zw (agg_batch op p td vd) k = 0" "zw (state_hist op es) k = 0"
  using assms
  by (auto simp: agg_batch_alt state_hist_def zw_map_outside image_iff split: prod.splits)

lemma zw_agg_batch:
  assumes "accumulates td (total_hist op d)" "accumulates vd (value_hist op d)" "k \<noteq> primed_key"
  shows "zw (agg_batch op p td vd) k = wrap64 (zw (state_hist op d) k)"
proof -
  consider g where "k = total_key g" | slot g v where "k = value_key_at slot g v"
    | "\<And>g. k \<noteq> total_key g" "\<And>slot g v. k \<noteq> value_key_at slot g v"
    by blast
  then show ?thesis
  proof cases
    case 1
    then show ?thesis using assms zw_bt [of td g] by (simp add: agg_batch_alt accumulates_def)
  next
    case 2
    then show ?thesis using assms zw_bt [of vd "(slot, g, v)"] by (simp add: agg_batch_alt accumulates_def)
  next
    case 3
    then show ?thesis using assms(3) by (simp add: zw_outside wrap64_id)
  qed
qed

lemma zw_agg_batch_primed:
  "zw (agg_batch op p td vd) primed_key = (if is_grand_total op \<and> \<not> p then 1 else 0)"
  by (simp add: agg_batch_alt)

section \<open>An emission depends on its group alone\<close>

definition same_group :: "mem_backend \<Rightarrow> mem_backend \<Rightarrow> sql_value list \<Rightarrow> bool" where
  "same_group m m' g \<longleftrightarrow> zw m (total_key g) = zw m' (total_key g)
    \<and> (\<forall>slot k. prefix (values_prefix slot g) k \<longrightarrow> zw m k = zw m' k)"

lemma canon_filter: "canon m \<Longrightarrow> canon (filter P m)"
  by (auto simp: canon_def)

lemma zw_filter_key: "zw (filter (\<lambda>(k, _). P k) m) k = (if P k then zw m k else 0)"
  by (induction m) auto

lemma visit_prefix_cong:
  assumes "canon m" "canon m'" "\<And>k. prefix p k \<Longrightarrow> zw m k = zw m' k"
  shows "mem_visit_prefix m p f s = mem_visit_prefix m' p f s"
proof -
  have "filter (\<lambda>(k, _). prefix p k) m = filter (\<lambda>(k, _). prefix p k) m'"
    using assms by (intro canon_unique canon_filter) (auto simp: fun_eq_iff zw_filter_key)
  then show ?thesis using assms by (simp add: mem_visit_prefix_all canon_def)
qed

lemma group_total_zw: "canon (ag_state op) \<Longrightarrow> group_total op g = zw (ag_state op) (total_key g)"
  using mem_weight_zw [of "ag_state op" "total_key g"] by (simp add: group_total_def mem_weight_def)

lemma agg_fold_cong:
  assumes "canon (ag_state op)" "canon m'" "same_group (ag_state op) m' g"
  shows "agg_fold (op\<lparr>ag_state := m'\<rparr>) slot g func = agg_fold op slot g func"
proof -
  have "mem_visit_prefix (ag_state op) (values_prefix slot g) f s = mem_visit_prefix m' (values_prefix slot g) f s"
    for f :: "fold_state \<Rightarrow> key \<Rightarrow> int \<Rightarrow> fold_state \<times> bool" and s
    using assms by (intro visit_prefix_cong) (auto simp: same_group_def)
  moreover have "group_total (op\<lparr>ag_state := m'\<rparr>) g = group_total op g"
    using assms by (simp add: group_total_zw same_group_def)
  ultimately show ?thesis
    by (simp add: agg_fold_def Let_def fold_result_def split: option.split agg_func.split)
qed

lemma emit_slots_cong:
  assumes "canon (ag_state op)" "canon m'" "same_group (ag_state op) m' g"
  shows "emit_slots (op\<lparr>ag_state := m'\<rparr>) t g slot aggs vs = emit_slots op t g slot aggs vs"
proof (induction aggs arbitrary: slot vs)
  case (Cons agg aggs)
  then show ?case
    by (simp add: agg_fold_cong [OF assms] cong: sum.case_cong)
qed simp

lemma emission_cong:
  assumes "canon (ag_state op)" "canon m'" "same_group (ag_state op) m' g"
  shows "emission_of (op\<lparr>ag_state := m'\<rparr>) g a = emission_of op g a"
proof -
  have "group_total (op\<lparr>ag_state := m'\<rparr>) g = group_total op g"
    using assms by (simp add: group_total_zw same_group_def)
  then show ?thesis
    by (simp add: emission_of_def Let_def is_grand_total_def emit_slots_cong [OF assms])
qed

text \<open>An emitted row starts with its group.\<close>

lemma emit_slots_row: "emit_slots op t g slot aggs vs = Ok (EmRow r) \<Longrightarrow> prefix vs r"
proof (induction aggs arbitrary: slot vs)
  case (Cons agg aggs)
  from Cons.prems show ?case
    by (auto split: sum.splits op_error.splits if_splits dest!: Cons.IH)
      (meson prefix_append append_prefixD)+
qed simp

lemma emission_row: "emission_of op g a = Ok (EmRow r) \<Longrightarrow> take (length g) r = g"
  by (auto simp: emission_of_def Let_def split: if_splits dest!: emit_slots_row) (auto simp: prefix_def)

section \<open>The emission loop\<close>

definition em_row :: "emission \<Rightarrow> row \<Rightarrow> int" where
  "em_row em r = (if em = EmRow r then 1 else 0)"

definition em_err :: "emission \<Rightarrow> row \<Rightarrow> int" where
  "em_err em r = (case em of Failed e \<Rightarrow> if error_row e = r then 1 else 0 | _ \<Rightarrow> 0)"

definition emv :: "aggregate_op \<Rightarrow> bool \<Rightarrow> sql_value list \<Rightarrow> emission" where
  "emv op a g = (case emission_of op g a of Inr em \<Rightarrow> em | Inl _ \<Rightarrow> Absent)"

lemma em_err_iff: "em_err (emv op a g) r = 1 \<longleftrightarrow> (\<exists>e. emission_of op g a = Ok (Failed e) \<and> error_row e = r)"
  by (cases "emission_of op g a") (auto simp: emv_def em_err_def split: emission.splits)

lemma zw_retract:
  "zw (fst (retract em w acc)) r = zw (fst acc) r + w * em_row em r"
  "zw (snd (retract em w acc)) r = zw (snd acc) r + w * em_err em r"
  by (auto simp: retract_def em_row_def em_err_def split: emission.split)

lemma agg_emit_pair: "agg_emit op acc (g, was) = bindR (emission_of op g True)
    (\<lambda>now. Ok (if was = now then acc else retract now 1 (retract was (- 1) acc)))"
  by (simp add: agg_emit_def)

lemma agg_emit_loop:
  assumes "foldR (agg_emit op) acc gws = Ok acc'"
  shows "zw (fst acc') r = zw (fst acc) r + (\<Sum>(g, was) \<leftarrow> gws. em_row (emv op True g) r - em_row was r)
    \<and> zw (snd acc') r = zw (snd acc) r + (\<Sum>(g, was) \<leftarrow> gws. em_err (emv op True g) r - em_err was r)"
  using assms
proof (induction gws arbitrary: acc)
  case (Cons gw gws)
  obtain g was where gw: "gw = (g, was)" by (cases gw)
  obtain now where now: "emission_of op g True = Ok now"
      and rest: "foldR (agg_emit op) (if was = now then acc else retract now 1 (retract was (- 1) acc)) gws = Ok acc'"
    using Cons.prems gw by (auto simp: agg_emit_pair bindR_eq_Ok)
  have "emv op True g = now" by (simp add: emv_def now)
  then show ?case using Cons.IH [OF rest] by (auto simp: gw zw_retract split: if_splits)
qed simp

lemma sum_zip_before:
  assumes "list_all2 (\<lambda>g em. h g = em) gs ems" "distinct gs"
  shows "(\<Sum>(g, was) \<leftarrow> zip gs ems. F g - G was) = (\<Sum>g \<in> set gs. F g - G (h g) :: int)"
  using assms by (induction rule: list_all2_induct) auto

section \<open>Touched and untouched groups\<close>

abbreviation key_count :: "aggregate_op \<Rightarrow> nat" where
  "key_count op \<equiv> length (ag_keys op)"

lemma total_hist_length: "g \<in> fst ` set (total_hist op es) \<Longrightarrow> length g = key_count op"
  by (auto simp: total_hist_def agg_group_def split: sum.splits dest: mapR_length [OF sym])

lemma value_hist_group:
  "(slot, g, v) \<in> fst ` set (value_hist op es) \<Longrightarrow> g \<in> fst ` set (total_hist op es)"
  by (auto simp: value_hist_def total_hist_def slot_values_def image_iff split: sum.splits option.splits prod.splits)

lemma prefix_value_key:
  assumes "prefix (values_prefix slot g) (value_key_at slot' g' v)" "length g = length g'"
  shows "g = g'"
  using assms by (auto simp: value_key_at_def values_prefix_def prefix_def append_eq_append_conv2)

lemma batch_untouched:
  assumes acc: "accumulates td (total_hist op d)" "accumulates vd (value_hist op d)"
    and g: "length g = key_count op" "g \<notin> fst ` set td" and slot: "k = total_key g \<or> prefix (values_prefix slot g) k"
  shows "zw (agg_batch op p td vd) k = 0"
proof -
  have kp: "k \<noteq> primed_key"
    using slot by (auto simp: primed_key_def values_prefix_def total_key_def prefix_def)
  have keys: "fst ` set td = fst ` set (total_hist op d)" using acc by (simp add: accumulates_def)
  have "zw (state_hist op d) k = 0"
  proof (cases "k = total_key g")
    case True
    then show ?thesis using g keys by (simp add: zw_notin)
  next
    case False
    then have pre: "prefix (values_prefix slot g) k" using slot by simp
    then have "\<And>g'. k \<noteq> total_key g'" by (auto simp: values_prefix_def total_key_def prefix_def)
    moreover have "zw (state_hist op d) k = 0" if k: "k = value_key_at slot' g' v" for slot' g' v
    proof (rule ccontr)
      assume "zw (state_hist op d) k \<noteq> 0"
      then have "(slot', g', v) \<in> fst ` set (value_hist op d)" using k by (auto intro: ccontr simp: zw_notin)
      then have g': "g' \<in> fst ` set (total_hist op d)" by (rule value_hist_group)
      then have "g = g'" using prefix_value_key pre k g(1) total_hist_length by metis
      then show False using g' g(2) keys by simp
    qed
    ultimately show ?thesis using kp zw_outside(2) by blast
  qed
  then show ?thesis using zw_agg_batch [OF acc kp] by (simp add: wrap64_id)
qed

section \<open>The contract\<close>

definition primed :: "aggregate_op \<Rightarrow> bool" where
  "primed op \<longleftrightarrow> (is_grand_total op \<longrightarrow> was_primed op)"

definition agg_rows :: "aggregate_op \<Rightarrow> row \<Rightarrow> int" where
  "agg_rows op r = (if key_count op \<le> length r then em_row (emv op (was_primed op) (take (key_count op) r)) r else 0)"

definition agg_failed :: "aggregate_op \<Rightarrow> row \<Rightarrow> sql_value list set" where
  "agg_failed op r = {g. length g = key_count op \<and> em_err (emv op (was_primed op) g) r = 1}"

definition agg_inv :: "aggregate_op \<Rightarrow> entries list \<Rightarrow> bool" where
  "agg_inv op hs \<longleftrightarrow> (\<exists>h. hs = [h] \<and> schema_ok (ag_output_schema op) \<and> canon (ag_state op)
    \<and> (\<forall>k. in_i64 (zw (ag_state op) k))
    \<and> (\<forall>k. k \<noteq> primed_key \<longrightarrow> zw (ag_state op) k = wrap64 (zw (state_hist op h) k))
    \<and> zw (ag_state op) primed_key \<in> {0, 1} \<and> (\<not> is_grand_total op \<longrightarrow> zw (ag_state op) primed_key = 0))"

lemma was_primed_zw: "canon (ag_state op) \<Longrightarrow> was_primed op \<longleftrightarrow> zw (ag_state op) primed_key \<noteq> 0"
  using canon_weight [of "ag_state op" primed_key] by (simp add: was_primed_def mem_get_def bt_get_def split: if_splits)

lemma emission_flag: "\<not> is_grand_total op \<Longrightarrow> emission_of op g a = emission_of op g b"
  by (simp add: emission_of_def)

text \<open>What a successful step did, in one place.\<close>

lemma aggregate_step_Ok:
  assumes inv: "agg_inv op [h]" and b: "holds (ag_input_schema op) b d" and step: "aggregate_step op [b] = (Ok o', op')"
  obtains td vd m' out errs befores where
    "accumulates td (total_hist op d)" "accumulates vd (value_hist op d)"
    "op' = op\<lparr>ag_state := m'\<rparr>" "mem_write (ag_state op) (agg_batch op (was_primed op) td vd) = (Ok (), m')"
    "list_all2 (\<lambda>g em. emission_of op g (was_primed op) = Ok em) (agg_touched op td) befores"
    "foldR (agg_emit op') ([], err_hist op d) (zip (agg_touched op td) befores) = Ok (out, errs)"
    "\<exists>es. holds (ag_output_schema op) (so_data o') es \<and> zw es = zw out" "holds err_schema (so_errors o') errs"
proof -
  obtain errors touched before batch where rd: "agg_read op [b] = Ok (errors, touched, before, batch)"
    using step by (auto simp: aggregate_step_def split: sum.splits)
  obtain td vd where loop: "foldR (agg_entry op) ([], [], []) d = Ok (errors, td, vd)"
    and touched: "touched = agg_touched op td" and batch: "batch = agg_batch op (was_primed op) td vd"
    and before: "mapR (\<lambda>g. emission_of op g (was_primed op)) touched = Ok before"
    using rd holds_schema [OF b] holds_entries [OF b]
    by (auto simp: agg_read_def unary_def check_schema_def result_simps)
  obtain m' out errs x y where m': "mem_write (ag_state op) batch = (Ok (), m')" and op': "op' = op\<lparr>ag_state := m'\<rparr>"
    and emit: "foldR (agg_emit op') ([], errors) (zip touched before) = Ok (out, errs)"
    and x: "from_entries (ag_output_schema op) out = Ok x" and y: "consolidate x = Ok y"
    and o': "step_output_new y errs = Ok o'"
    using step rd by (auto simp: aggregate_step_def Let_def result_simps split: sum.splits prod.splits)
  have acc: "errors = err_hist op d" "accumulates td (total_hist op d)" "accumulates vd (value_hist op d)"
    using agg_loop [OF loop accumulates_Nil accumulates_Nil] by simp_all
  have "holds (ag_output_schema op) x out" using x inv by (simp add: holds_def agg_inv_def)
  from consolidate_Ok [OF this y] obtain ms where "holds (ag_output_schema op) y ms" "zw ms = zw out" by blast
  then show ?thesis
    using that [of td vd m' before out errs] acc op' m' batch before touched emit step_output_new_Ok [OF o']
    by (auto simp: mapR_eq_Ok)
qed

lemma wrap64_0_iff: "wrap64 x = 0 \<longleftrightarrow> 2 ^ 64 dvd x"
  using mod_eq_dvd_iff [of "x + 2 ^ 63" "2 ^ 64" "2 ^ 63"] by (simp add: wrap64_def)

lemma wrap64_add: "wrap64 (wrap64 a + wrap64 b) = wrap64 (a + b)"
  by (metis add.commute wrap64_wrap64_add)

lemma touched_props:
  assumes "accumulates td (total_hist op d)"
  shows "distinct (agg_touched op td)" "\<And>g. g \<in> set (agg_touched op td) \<Longrightarrow> length g = key_count op"
    "\<And>g. length g = key_count op \<Longrightarrow> g \<notin> set (agg_touched op td) \<Longrightarrow> g \<notin> fst ` set td \<and> \<not> is_grand_total op"
proof -
  have keys: "fst ` set td = fst ` set (total_hist op d)" and dist: "distinct (map fst td)"
    using assms by (simp_all add: accumulates_def bt_ok_distinct)
  have set: "set (agg_touched op td) = fst ` set td \<union> (if is_grand_total op then {[]} else {})"
    by (auto simp: agg_touched_def Let_def)
  show "distinct (agg_touched op td)" using dist by (simp add: agg_touched_def Let_def)
  show "length g = key_count op" if "g \<in> set (agg_touched op td)" for g
    using that set keys total_hist_length [of g op d] by (auto simp: is_grand_total_def split: if_splits)
  show "g \<notin> fst ` set td \<and> \<not> is_grand_total op"
    if "length g = key_count op" "g \<notin> set (agg_touched op td)" for g
    using that set by (auto simp: is_grand_total_def split: if_splits)
qed

lemma step_state:
  assumes inv: "agg_inv op [h]" and acc: "accumulates td (total_hist op d)" "accumulates vd (value_hist op d)"
    and m': "mem_write (ag_state op) (agg_batch op (was_primed op) td vd) = (Ok (), m')"
  shows "agg_inv (op\<lparr>ag_state := m'\<rparr>) [h @ d]" "is_grand_total op \<Longrightarrow> was_primed (op\<lparr>ag_state := m'\<rparr>)"
    and "length g = key_count op \<Longrightarrow> g \<notin> set (agg_touched op td) \<Longrightarrow>
      emv (op\<lparr>ag_state := m'\<rparr>) (was_primed (op\<lparr>ag_state := m'\<rparr>)) g = emv op (was_primed op) g"
proof -
  have canon: "canon (ag_state op)" and range: "\<forall>k. in_i64 (zw (ag_state op) k)"
    and hist: "\<And>k. k \<noteq> primed_key \<Longrightarrow> zw (ag_state op) k = wrap64 (zw (state_hist op h) k)"
    and prim: "zw (ag_state op) primed_key \<in> {0, 1}" "\<not> is_grand_total op \<Longrightarrow> zw (ag_state op) primed_key = 0"
    and sch: "schema_ok (ag_output_schema op)"
    using inv by (auto simp: agg_inv_def)
  note canon' = mem_write_Ok(1) [OF canon m'] and zw' = mem_write_Ok(2) [OF canon m']
    and range' = mem_write_in_range [OF canon m' range]
  have hist': "zw m' k = wrap64 (zw (state_hist op (h @ d)) k)" if "k \<noteq> primed_key" for k
  proof -
    have "zw m' k = wrap64 (zw m' k)" using range' by (simp add: wrap64_id)
    then show ?thesis
      by (simp add: zw' hist [OF that] zw_agg_batch [OF acc that] wrap64_add zw_state_hist_append)
  qed
  have prim': "zw m' primed_key \<in> {0, 1}" "is_grand_total op \<Longrightarrow> zw m' primed_key = 1"
      "\<not> is_grand_total op \<Longrightarrow> zw m' primed_key = 0"
    using prim was_primed_zw [OF canon] by (auto simp: zw' zw_agg_batch_primed)
  show "agg_inv (op\<lparr>ag_state := m'\<rparr>) [h @ d]"
    using sch canon' range' hist' prim' by (simp add: agg_inv_def is_grand_total_def)
  show "is_grand_total op \<Longrightarrow> was_primed (op\<lparr>ag_state := m'\<rparr>)"
    using prim'(2) was_primed_zw [of "op\<lparr>ag_state := m'\<rparr>"] canon' by simp
  assume g: "length g = key_count op" "g \<notin> set (agg_touched op td)"
  note not_td = touched_props(3) [OF acc(1) g]
  have "same_group (ag_state op) m' g"
    using batch_untouched [OF acc g(1)] not_td by (auto simp: same_group_def zw')
  then have "emission_of (op\<lparr>ag_state := m'\<rparr>) g a = emission_of op g a" for a
    using emission_cong [OF canon canon'] by blast
  then show "emv (op\<lparr>ag_state := m'\<rparr>) (was_primed (op\<lparr>ag_state := m'\<rparr>)) g = emv op (was_primed op) g"
    using emission_flag not_td by (simp add: emv_def) metis
qed

lemma em_row_other:
  "length g = key_count op \<Longrightarrow> g \<noteq> take (key_count op) r \<Longrightarrow> em_row (emv op a g) r = 0"
  using emission_row [of op g a r] by (auto simp: em_row_def emv_def split: sum.splits)

lemma em_row_short: "length g = key_count op \<Longrightarrow> length r < key_count op \<Longrightarrow> em_row (emv op a g) r = 0"
  by (rule em_row_other) auto

lemma rows_difference:
  assumes "finite T" "\<And>g. g \<in> T \<Longrightarrow> length g = key_count op" "ag_keys op' = ag_keys op"
    and un: "\<And>g. length g = key_count op \<Longrightarrow> g \<notin> T \<Longrightarrow> emv op' (was_primed op') g = emv op (was_primed op) g"
  shows "(\<Sum>g \<in> T. em_row (emv op' (was_primed op') g) r - em_row (emv op (was_primed op) g) r) = agg_rows op' r - agg_rows op r"
proof -
  let ?t = "take (key_count op) r"
  let ?f = "\<lambda>g. em_row (emv op' (was_primed op') g) r - em_row (emv op (was_primed op) g) r"
  have other: "?f g = 0" if "g \<in> T" "g \<noteq> ?t" for g
    using em_row_other [of g op r] em_row_other [of g op' r] that assms by simp
  show ?thesis
  proof (cases "?t \<in> T")
    case True
    then have "(\<Sum>g \<in> T. ?f g) = ?f ?t"
      using other assms(1) by (subst sum.remove [OF assms(1) True]) (auto intro!: sum.neutral)
    moreover have "key_count op \<le> length r" using assms(2) [OF True] by auto
    ultimately show ?thesis using assms(3) by (simp add: agg_rows_def)
  next
    case False
    then have "(\<Sum>g \<in> T. ?f g) = 0" using other by (intro sum.neutral) auto
    moreover have "agg_rows op' r = agg_rows op r"
      using un [of ?t] False assms(3) by (auto simp: agg_rows_def)
    ultimately show ?thesis by simp
  qed
qed

lemma card_difference:
  assumes "finite A" "finite B" "finite T" "\<And>x. x \<notin> T \<Longrightarrow> x \<in> A \<longleftrightarrow> x \<in> B"
  shows "(\<Sum>x \<in> T. (if x \<in> B then 1 else 0) - (if x \<in> A then 1 else 0)) = int (card B) - int (card A)"
proof -
  have "A - T = B - T" using assms(4) by blast
  moreover have "int (card A) = int (card (A \<inter> T)) + int (card (A - T))"
    "int (card B) = int (card (B \<inter> T)) + int (card (B - T))"
    using card_Int_Diff assms by (metis of_nat_add)+
  moreover have "(\<Sum>x \<in> T. if x \<in> A then 1 else 0) = int (card (A \<inter> T))"
    "(\<Sum>x \<in> T. if x \<in> B then 1 else 0) = int (card (B \<inter> T))"
    using assms(3) by (simp_all add: sum.If_cases Int_commute)
  ultimately show ?thesis by (simp add: sum_subtractf)
qed

lemma emv_present:
  assumes "emv op a g \<noteq> Absent" "length g = key_count op" "canon (ag_state op)"
  shows "g = [] \<or> total_key g \<in> fst ` set (ag_state op)"
proof (cases "is_grand_total op")
  case True
  then show ?thesis using assms(2) by (simp add: is_grand_total_def)
next
  case False
  then have "group_total op g \<noteq> 0" using assms(1) by (auto simp: emv_def emission_of_def Let_def split: if_splits)
  then show ?thesis using group_total_zw [OF assms(3)] zw_notin by metis
qed

lemma finite_failed: "canon (ag_state op) \<Longrightarrow> finite (agg_failed op r)"
proof -
  assume c: "canon (ag_state op)"
  have "finite {g. total_key g \<in> fst ` set (ag_state op)}"
    using finite_vimageI [OF _ total_key_inj, of "fst ` set (ag_state op)"] by (simp add: vimage_def)
  moreover have "agg_failed op r \<subseteq> insert [] {g. total_key g \<in> fst ` set (ag_state op)}"
  proof
    fix g assume "g \<in> agg_failed op r"
    then have "length g = key_count op" "emv op (was_primed op) g \<noteq> Absent"
      by (auto simp: agg_failed_def em_err_def split: emission.splits)
    then show "g \<in> insert [] {g. total_key g \<in> fst ` set (ag_state op)}" using emv_present [OF _ _ c] by blast
  qed
  ultimately show ?thesis using finite_subset by blast
qed

lemma em_err_bool: "em_err em r = (if em_err em r = 1 then 1 else 0)"
  by (auto simp: em_err_def split: emission.splits)

lemma errs_difference:
  assumes "finite T" "\<And>g. g \<in> T \<Longrightarrow> length g = key_count op" "ag_keys op' = ag_keys op"
    and un: "\<And>g. length g = key_count op \<Longrightarrow> g \<notin> T \<Longrightarrow> emv op' (was_primed op') g = emv op (was_primed op) g"
    and "canon (ag_state op)" "canon (ag_state op')"
  shows "(\<Sum>g \<in> T. em_err (emv op' (was_primed op') g) r - em_err (emv op (was_primed op) g) r)
    = int (card (agg_failed op' r)) - int (card (agg_failed op r))"
proof -
  have "(\<Sum>g \<in> T. em_err (emv op' (was_primed op') g) r - em_err (emv op (was_primed op) g) r)
      = (\<Sum>g \<in> T. (if g \<in> agg_failed op' r then 1 else 0) - (if g \<in> agg_failed op r then 1 else 0))"
  proof (rule sum.cong [OF refl])
    fix g assume "g \<in> T"
    then show "em_err (emv op' (was_primed op') g) r - em_err (emv op (was_primed op) g) r
        = (if g \<in> agg_failed op' r then 1 else 0) - (if g \<in> agg_failed op r then 1 else 0)"
      using em_err_bool [of "emv op' (was_primed op') g" r] em_err_bool [of "emv op (was_primed op) g" r] assms(2,3)
      by (simp add: agg_failed_def)
  qed
  also have "\<dots> = int (card (agg_failed op' r)) - int (card (agg_failed op r))"
    using assms(1) finite_failed [OF assms(5)] finite_failed [OF assms(6)] un assms(3)
    by (intro card_difference) (auto simp: agg_failed_def)
  finally show ?thesis .
qed

lemma emv_after:
  assumes "is_grand_total op \<Longrightarrow> was_primed op"
  shows "emv op True g = emv op (was_primed op) g"
  using assms emission_flag [of op g True "was_primed op"] by (cases "is_grand_total op") (simp_all add: emv_def)

lemma aggregate_step_contract:
  assumes inv: "agg_inv op [h]" and b: "holds (ag_input_schema op) b d" and step: "aggregate_step op [b] = (Ok o', op')"
  shows "agg_inv op' [h @ d]"
    and "\<exists>es. holds (ag_output_schema op) (so_data o') es \<and> (\<forall>r. zw es r = agg_rows op' r - agg_rows op r)"
    and "\<exists>es. holds err_schema (so_errors o') es \<and> (\<forall>r. zw es r = zw (err_hist op d) r
      + int (card (agg_failed op' r)) - int (card (agg_failed op r)))"
proof -
  obtain td vd m' out errs befores where acc: "accumulates td (total_hist op d)" "accumulates vd (value_hist op d)"
    and op': "op' = op\<lparr>ag_state := m'\<rparr>" and m': "mem_write (ag_state op) (agg_batch op (was_primed op) td vd) = (Ok (), m')"
    and before: "list_all2 (\<lambda>g em. emission_of op g (was_primed op) = Ok em) (agg_touched op td) befores"
    and emit: "foldR (agg_emit op') ([], err_hist op d) (zip (agg_touched op td) befores) = Ok (out, errs)"
    and data: "\<exists>es. holds (ag_output_schema op) (so_data o') es \<and> zw es = zw out"
    and errors: "holds err_schema (so_errors o') errs"
    using aggregate_step_Ok [OF inv b step] .
  note state = step_state [OF inv acc m']
  note touched = touched_props [OF acc(1)]
  show inv': "agg_inv op' [h @ d]" using state(1) op' by simp
  have "emv op' True g = emv op' (was_primed op') g" for g
    using state(2) op' by (intro emv_after) (simp add: is_grand_total_def)
  moreover have "list_all2 (\<lambda>g em. emv op (was_primed op) g = em) (agg_touched op td) befores"
    using before by (rule list_all2_mono) (simp add: emv_def)
  ultimately have sums: "zw out r = (\<Sum>g \<in> set (agg_touched op td). em_row (emv op' (was_primed op') g) r - em_row (emv op (was_primed op) g) r)"
    "zw errs r = zw (err_hist op d) r
      + (\<Sum>g \<in> set (agg_touched op td). em_err (emv op' (was_primed op') g) r - em_err (emv op (was_primed op) g) r)" for r
    using agg_emit_loop [OF emit, of r] touched(1)
    by (simp_all add: sum_zip_before [where F = "\<lambda>g. em_row (emv op' (was_primed op') g) r" and G = "\<lambda>em. em_row em r"]
        sum_zip_before [where F = "\<lambda>g. em_err (emv op' (was_primed op') g) r" and G = "\<lambda>em. em_err em r"])
  have un: "\<And>g. length g = key_count op \<Longrightarrow> g \<notin> set (agg_touched op td)
      \<Longrightarrow> emv op' (was_primed op') g = emv op (was_primed op) g"
    using state(3) op' by simp
  have keys: "ag_keys op' = ag_keys op" using op' by simp
  have "zw out r = agg_rows op' r - agg_rows op r" for r
    using rows_difference [OF _ touched(2) keys un] sums(1) by simp
  then show "\<exists>es. holds (ag_output_schema op) (so_data o') es \<and> (\<forall>r. zw es r = agg_rows op' r - agg_rows op r)"
    using data by auto
  have "zw errs r = zw (err_hist op d) r + int (card (agg_failed op' r)) - int (card (agg_failed op r))" for r
    using errs_difference [OF _ touched(2) keys un, where r = r] sums(2) inv inv' by (simp add: agg_inv_def)
  then show "\<exists>es. holds err_schema (so_errors o') es \<and> (\<forall>r. zw es r = zw (err_hist op d) r
      + int (card (agg_failed op' r)) - int (card (agg_failed op r)))"
    using errors by auto
qed

lemma aggregate_step_frame:
  assumes "aggregate_step op bs = (res, op')"
  shows "\<exists>m'. op' = op\<lparr>ag_state := m'\<rparr>"
proof -
  have keep: "\<exists>m'. x = x\<lparr>ag_state := m'\<rparr>" for x :: aggregate_op
    by (rule exI [of _ "ag_state x"]) simp
  show ?thesis using assms by (auto simp: aggregate_step_def Let_def keep split: sum.splits prod.splits)
qed

definition agg_errors :: "aggregate_op \<Rightarrow> entries list \<Rightarrow> row \<Rightarrow> int" where
  "agg_errors op hs r = zw (err_hist op (hd hs)) r + int (card (agg_failed op r))"

interpretation ag: incremental_operator aggregate_step "\<lambda>op. [ag_input_schema op]" ag_output_schema agg_inv
  "\<lambda>op hs. agg_rows op" agg_errors
proof
  fix op hs bs ds o' op'
  assume inv: "agg_inv op hs" and ins: "inputs_hold [ag_input_schema op] bs ds"
    and step: "aggregate_step op bs = (Ok o', op')"
  obtain h where hs: "hs = [h]" using inv by (auto simp: agg_inv_def)
  obtain b d where bs: "bs = [b]" "ds = [d]" "holds (ag_input_schema op) b d"
    using ins by (auto simp: inputs_hold_unary)
  obtain m' where op': "op' = op\<lparr>ag_state := m'\<rparr>" using aggregate_step_frame [OF step] by blast
  note ok = aggregate_step_contract [OF inv [unfolded hs] bs(3) step [unfolded bs]]
  show "agg_inv op' (extend_histories hs ds)" using ok(1) by (simp add: hs bs)
  show "\<exists>es. holds (ag_output_schema op) (so_data o') es \<and> (\<forall>r. zw es r = agg_rows op' r - agg_rows op r)"
    by (rule ok(2))
  show "\<exists>es. holds err_schema (so_errors o') es \<and>
      (\<forall>r. zw es r = agg_errors op' (extend_histories hs ds) r - agg_errors op hs r)"
    using ok(3) by (simp add: agg_errors_def hs bs op' add_diff_eq)
next
  fix op bs o' op'
  assume "aggregate_step op bs = (Ok o', op')"
  from aggregate_step_frame [OF this]
  show "[ag_input_schema op'] = [ag_input_schema op] \<and> ag_output_schema op' = ag_output_schema op" by auto
qed

lemma aggregate_new_inv:
  assumes "aggregate_new i out keys aggs mem_new = Ok op" "schema_ok out"
  shows "agg_inv op [[]]" "agg_rows op r = 0" "agg_failed op r = {}"
proof -
  have op: "op = \<lparr>ag_input_schema = i, ag_output_schema = out, ag_keys = keys, ag_aggregates = aggs, ag_state = []\<rparr>"
    using assms by (auto simp: aggregate_new_def mem_new_def split: if_splits)
  have "zw ([] :: entries) k = 0" for k by simp
  then show "agg_inv op [[]]" using assms(2) by (simp add: op agg_inv_def canon_def wrap64_id)
  have "emv op (was_primed op) g = Absent" for g
    by (simp add: emv_def emission_of_def op is_grand_total_def was_primed_def mem_get_def bt_get_def group_total_def)
  then show "agg_rows op r = 0" "agg_failed op r = {}"
    by (simp_all add: agg_rows_def agg_failed_def em_row_def em_err_def)
qed

section \<open>The ordered multiset of a slot\<close>

lemma append_less_iff: "p @ a < p @ b \<longleftrightarrow> a < (b :: 'a::linorder list)"
  by (induction p) auto

lemma value_key_at_less: "value_key_at slot g v < value_key_at slot g v' \<longleftrightarrow> v < v'"
  unfolding value_key_at_def append_less_iff by simp

lemma state_key_form:
  assumes inv: "agg_inv op [h]" and g: "length g = key_count op"
    and k: "prefix (values_prefix slot g) k" "zw (ag_state op) k \<noteq> 0"
  shows "\<exists>v. k = value_key_at slot g v"
proof -
  have np: "k \<noteq> primed_key" and nt: "\<And>g'. k \<noteq> total_key g'"
    using k(1) by (auto simp: primed_key_def total_key_def values_prefix_def prefix_def)
  have "zw (state_hist op h) k \<noteq> 0"
    using inv k(2) np by (auto simp: agg_inv_def wrap64_id)
  then obtain slot' g' v where kv: "k = value_key_at slot' g' v" using np nt zw_outside(2) by blast
  have "g' \<in> fst ` set (total_hist op h)"
    using \<open>zw (state_hist op h) k \<noteq> 0\<close> kv value_hist_group [of slot' g' v op h] zw_notin by fastforce
  then have "g = g'" using prefix_value_key k(1) kv g total_hist_length by metis
  then show ?thesis using k(1) kv by (auto simp: value_key_at_def values_prefix_def prefix_def)
qed

lemma scan_values:
  assumes inv: "agg_inv op [h]" and g: "length g = key_count op"
  obtains ms where "mem_scan_prefix (ag_state op) (values_prefix slot g) = map (\<lambda>(v, w). (value_key_at slot g v, w)) ms"
    "canon ms" "\<And>v. zw ms v = wrap64 (zw (value_hist op h) (slot, g, v))"
proof -
  let ?p = "values_prefix slot g" and ?m = "ag_state op"
  define ms where "ms = map (\<lambda>(k, w). (last k, w)) (mem_scan_prefix ?m ?p)"
  have canon: "canon ?m" using inv by (simp add: agg_inv_def)
  then have scan: "mem_scan_prefix ?m ?p = filter (\<lambda>(k, _). prefix ?p k) ?m"
    by (simp add: mem_scan_prefix_filter canon_def)
  have form: "k = value_key_at slot g (last k)" if "(k, w) \<in> set (mem_scan_prefix ?m ?p)" for k w
  proof -
    have "bt_get ?m k = Some w" "w \<noteq> 0" "prefix ?p k"
      using that canon by (auto simp: scan canon_def bt_get_iff)
    then obtain v where "k = value_key_at slot g v"
      using state_key_form [OF inv g] canon_weight [OF canon, of k] by (force simp: bt_get_def split: if_splits)
    then show ?thesis by (simp add: value_key_at_def)
  qed
  have eq: "mem_scan_prefix ?m ?p = map (\<lambda>(v, w). (value_key_at slot g v, w)) ms"
    unfolding ms_def map_map by (rule map_idI [symmetric]) (use form in auto)
  have cs: "canon (mem_scan_prefix ?m ?p)" using canon by (simp add: scan canon_filter)
  then have "canon ms"
    unfolding eq canon_def bt_ok_def by (auto simp: sorted_wrt_map value_key_at_less split_beta)
  moreover have "zw ms v = wrap64 (zw (value_hist op h) (slot, g, v))" for v
  proof -
    have "inj (value_key_at slot g)" by (auto simp: inj_def value_key_at_def)
    then have "zw ms v = zw (mem_scan_prefix ?m ?p) (value_key_at slot g v)"
      unfolding eq by (simp add: zw_map_inj)
    also have "\<dots> = zw ?m (value_key_at slot g v)"
      by (simp add: scan zw_filter_key value_key_at_def)
    finally show ?thesis using inv by (simp add: agg_inv_def)
  qed
  ultimately show ?thesis using that eq by blast
qed

text \<open>Folding a slot over its multiset.\<close>

fun fold_values :: "agg_func \<Rightarrow> (sql_value \<times> int) list \<Rightarrow> fold_state \<Rightarrow> fold_state" where
  "fold_values func [] s = s"
| "fold_values func ((v, w) # ms) s =
    (case fold_visitor func 0 s [v] w of (s', go) \<Rightarrow> if go then fold_values func ms s' else s')"

lemma fold_visitor_key: "fold_visitor func (length (values_prefix slot g)) s (value_key_at slot g v) w = fold_visitor func 0 s [v] w"
  by (simp add: fold_visitor_def value_key_at_def nth_opt_def)

lemma visit_fold_values:
  "visit_all (map (\<lambda>(v, w). (value_key_at slot g v, w)) ms) (fold_visitor func (length (values_prefix slot g))) s
    = fold_values func ms s"
proof (induction ms arbitrary: s)
  case (Cons e ms)
  then show ?case by (cases e) (simp add: fold_visitor_key split: prod.split)
qed simp

lemma agg_fold_values:
  assumes "mem_scan_prefix (ag_state op) (values_prefix slot g) = map (\<lambda>(v, w). (value_key_at slot g v, w)) ms"
    and "canon (ag_state op)" "func \<noteq> CountStar"
  shows "agg_fold op slot g func = (let s = fold_values func ms fold_start in
    case fs_failure s of Some e \<Rightarrow> Err e | None \<Rightarrow> fold_result op g func s)"
proof -
  have "bt_ok (ag_state op)" using assms(2) by (simp add: canon_def)
  then have "mem_visit_prefix (ag_state op) (values_prefix slot g) (fold_visitor func (length (values_prefix slot g))) fold_start
      = fold_values func ms fold_start"
    using assms(1) by (simp add: mem_visit_prefix_all mem_scan_prefix_filter visit_fold_values)
  then show ?thesis using assms(3) by (simp add: agg_fold_def Let_def cong: option.case_cong)
qed

lemma fold_values_min:
  "fold_values (Min e) ms fold_start
    = (case ms of [] \<Rightarrow> fold_start | (v, w) # _ \<Rightarrow> fold_start\<lparr>fs_any := True, fs_extremum := Some v\<rparr>)"
  by (cases ms) (auto simp: fold_visitor_def nth_opt_def split: list.split)

lemma fold_values_max:
  "fold_values (Max e) ms s = (if ms = [] then s else s\<lparr>fs_any := True, fs_extremum := Some (fst (last ms))\<rparr>)"
proof (induction ms arbitrary: s)
  case (Cons x ms)
  then show ?case by (cases x) (auto simp: fold_visitor_def nth_opt_def)
qed simp

lemma sorted_Min_hd: "xs \<noteq> [] \<Longrightarrow> sorted_wrt (<) xs \<Longrightarrow> Lattices_Big.Min (set xs) = (hd xs :: 'a::linorder)"
  by (cases xs) (auto simp: less_imp_le intro: Min_eqI)

lemma sorted_Max_last: "xs \<noteq> [] \<Longrightarrow> sorted_wrt (<) xs \<Longrightarrow> Lattices_Big.Max (set xs) = (last xs :: 'a::linorder)"
  by (cases xs rule: rev_cases) (auto simp: sorted_wrt_append less_imp_le intro: Max_eqI)

lemma canon_support: "canon ms \<Longrightarrow> {v. zw ms v \<noteq> 0} = fst ` set ms"
  by (auto simp: zw_notin intro: ccontr)
    (use canon_weight [of ms] bt_get_iff [of ms] in \<open>fastforce simp: canon_def bt_get_def split: if_splits\<close>)

section \<open>A concrete run\<close>

text \<open>
  \<open>SELECT k, MIN(v) GROUP BY k\<close>: two rows of one group arrive, then the smaller value is retracted.
\<close>

definition ex_in :: schema where
  "ex_in = \<lparr>sc_fields = [field_nullable ''t.k'' Int64, field_nullable ''t.v'' Int64]\<rparr>"

definition ex_out :: schema where
  "ex_out = \<lparr>sc_fields = [field_nullable ''k'' Int64, field_nullable ''m'' Int64]\<rparr>"

definition ex_op :: "mem_backend \<Rightarrow> aggregate_op" where
  "ex_op m = \<lparr>ag_input_schema = ex_in, ag_output_schema = ex_out,
    ag_keys = [\<lparr>nm_name = ''k'', nm_value = Column ''t.k''\<rparr>],
    ag_aggregates = [\<lparr>nm_name = ''m'', nm_value = Min (Column ''t.v'')\<rparr>], ag_state = m\<rparr>"

definition ex_state1 :: mem_backend where
  "ex_state1 = [([VStr ''*'', VInt 1], 2), ([VStr ''v'', VInt 0, VInt 1, VInt 3], 1), ([VStr ''v'', VInt 0, VInt 1, VInt 5], 1)]"

definition ex_state2 :: mem_backend where
  "ex_state2 = [([VStr ''*'', VInt 1], 1), ([VStr ''v'', VInt 0, VInt 1, VInt 5], 1)]"

lemma ex_new:
  "aggregate_new ex_in ex_out [\<lparr>nm_name = ''k'', nm_value = Column ''t.k''\<rparr>]
    [\<lparr>nm_name = ''m'', nm_value = Min (Column ''t.v'')\<rparr>] mem_new = Ok (ex_op [])"
  by code_simp

lemma ex_out_ok: "schema_ok ex_out"
  by code_simp

lemma ex_run:
  "ag.run (ex_op []) [[]] (ex_op ex_state2) [[([VInt 1, VInt 5], 1), ([VInt 1, VInt 3], 1), ([VInt 1, VInt 3], - 1)]]
    [([VInt 1, VInt 3], 1), ([VInt 1, VInt 3], - 1), ([VInt 1, VInt 5], 1)] []"
proof -
  let ?b = "\<lambda>s v u w. \<lparr>zb_schema = s, zb_batch = [Int64Array v, Int64Array u], zb_weights = w\<rparr>"
  let ?e = "\<lparr>zb_schema = err_schema, zb_batch = [StringArray []], zb_weights = []\<rparr>"
  have h: "holds ex_in (?b ex_in [Some 1, Some 1] [Some 5, Some 3] [1, 1]) [([VInt 1, VInt 5], 1), ([VInt 1, VInt 3], 1)]"
    "holds ex_in (?b ex_in [Some 1] [Some 3] [- 1]) [([VInt 1, VInt 3], - 1)]"
    "holds ex_out (?b ex_out [Some 1] [Some 3] [1]) [([VInt 1, VInt 3], 1)]"
    "holds ex_out (?b ex_out [Some 1, Some 1] [Some 3, Some 5] [- 1, 1]) [([VInt 1, VInt 3], - 1), ([VInt 1, VInt 5], 1)]"
    "holds err_schema ?e []"
    unfolding holds_def by code_simp+
  have s1: "aggregate_step (ex_op []) [?b ex_in [Some 1, Some 1] [Some 5, Some 3] [1, 1]]
      = (Ok \<lparr>so_data = ?b ex_out [Some 1] [Some 3] [1], so_errors = ?e\<rparr>, ex_op ex_state1)"
    by code_simp
  have s2: "aggregate_step (ex_op ex_state1) [?b ex_in [Some 1] [Some 3] [- 1]]
      = (Ok \<lparr>so_data = ?b ex_out [Some 1, Some 1] [Some 3, Some 5] [- 1, 1], so_errors = ?e\<rparr>, ex_op ex_state2)"
    by code_simp
  have "ag.run (ex_op []) [[]] (ex_op ex_state1) (extend_histories [[]] [[([VInt 1, VInt 5], 1), ([VInt 1, VInt 3], 1)]])
      ([] @ [([VInt 1, VInt 3], 1)]) ([] @ [])"
    by (rule ag.run.run_step [OF ag.run.run_start _ s1]) (simp_all add: h ex_op_def)
  then have "ag.run (ex_op []) [[]] (ex_op ex_state2)
      (extend_histories (extend_histories [[]] [[([VInt 1, VInt 5], 1), ([VInt 1, VInt 3], 1)]]) [[([VInt 1, VInt 3], - 1)]])
      (([] @ [([VInt 1, VInt 3], 1)]) @ [([VInt 1, VInt 3], - 1), ([VInt 1, VInt 5], 1)]) (([] @ []) @ [])"
    by (rule ag.run.run_step [OF _ _ s2]) (simp_all add: h ex_op_def)
  then show ?thesis by simp
qed

section \<open>Properties\<close>

text \<open>
  C28: Over any run of successful steps from an empty operator, the deltas an aggregate has emitted
  add up to exactly one row, at weight one, per group that currently emits, the row being the one
  computed from the current state. A keyed group emits while its total is positive and its folds succeed;
  an argument that raised on a member does not stop it, it is only left out of the slot's values. The
  error deltas add up to the errors that keys and arguments raised, at the weights of their rows, plus
  one for every group whose fold fails. The state is the accumulated input modulo \<open>2 ^ 64\<close>: the total of a
  group, and the weight of every value of every slot, are the wrapped sums over everything received.
\<close>

theorem aggregate_run_correct:
  assumes "aggregate_new i out keys aggs mem_new = Ok op" "schema_ok out" "ag.run op [[]] op' [h] ds es"
  shows "(\<forall>r. zw ds r = (if \<exists>g. length g = length (ag_keys op')
        \<and> emission_of op' g (was_primed op') = Ok (EmRow r) then 1 else 0))
    \<and> (\<forall>r. zw es r = zw (err_hist op' h) r + int (card {g. length g = length (ag_keys op')
        \<and> (\<exists>e. emission_of op' g (was_primed op') = Ok (Failed e) \<and> error_row e = r)}))
    \<and> (\<forall>g. mem_weight (ag_state op') (total_key g) = wrap64 (zw (total_hist op' h) g))
    \<and> (\<forall>slot g v. mem_weight (ag_state op') (value_key_at slot g v) = wrap64 (zw (value_hist op' h) (slot, g, v)))"
proof -
  note new = aggregate_new_inv [OF assms(1,2)]
  have inv: "agg_inv op' [h]" using ag.run_inv [OF assms(3) new(1)] .
  have rows: "agg_rows op' r = (if \<exists>g. length g = key_count op' \<and> emission_of op' g (was_primed op') = Ok (EmRow r) then 1 else 0)" for r
  proof (cases "\<exists>g. length g = key_count op' \<and> emission_of op' g (was_primed op') = Ok (EmRow r)")
    case True
    then obtain g where g: "length g = key_count op'" "emission_of op' g (was_primed op') = Ok (EmRow r)" by blast
    then have "take (key_count op') r = g" using emission_row by fastforce
    moreover from this have "key_count op' \<le> length r" using g(1) by auto
    ultimately show ?thesis using g True by (simp add: agg_rows_def em_row_def emv_def)
  next
    case False
    then show ?thesis
      by (auto simp: agg_rows_def em_row_def emv_def split: sum.splits)
  qed
  have failed: "agg_failed op' r = {g. length g = key_count op'
      \<and> (\<exists>e. emission_of op' g (was_primed op') = Ok (Failed e) \<and> error_row e = r)}" for r
    unfolding agg_failed_def em_err_iff ..
  show ?thesis
    using ag.run_telescopes [OF assms(3) new(1)] new(2,3) rows failed inv
    by (auto simp: agg_inv_def mem_weight_zw agg_errors_def)
qed

theorem aggregate_run_correct_witness:
  "zw [([VInt 1, VInt 3], 1), ([VInt 1, VInt 3], - 1), ([VInt 1, VInt 5], 1 :: int)] [VInt 1, VInt 5] = 1
    \<and> emission_of (ex_op ex_state2) [VInt 1] (was_primed (ex_op ex_state2)) = Ok (EmRow [VInt 1, VInt 5])
    \<and> mem_weight (ag_state (ex_op ex_state2)) (total_key [VInt 1]) = 1"
proof -
  have em: "emission_of (ex_op ex_state2) [VInt 1] (was_primed (ex_op ex_state2)) = Ok (EmRow [VInt 1, VInt 5])"
    and tot: "wrap64 (zw (total_hist (ex_op ex_state2) [([VInt 1, VInt 5], 1), ([VInt 1, VInt 3], 1), ([VInt 1, VInt 3], - 1)]) [VInt 1]) = 1"
    and len: "length [VInt 1] = length (ag_keys (ex_op ex_state2))"
    by code_simp+
  from aggregate_run_correct [OF ex_new ex_out_ok ex_run] em tot len show ?thesis
    by (metis (mono_tags, lifting))
qed

text \<open>
  C29: \<open>MIN\<close> and \<open>MAX\<close> survive retraction. After any run, the minimum of a slot of a group is the least
  value, in the total order, whose accumulated weight is not a multiple of \<open>2 ^ 64\<close>, the maximum the
  greatest, and both are null when there is none. While every accumulated weight of the slot lies in the
  64-bit range these are the values of non-zero weight: retracting the current extremum reveals the next.
\<close>

theorem extremum_after_run:
  assumes "aggregate_new i out keys aggs mem_new = Ok op" "schema_ok out" "ag.run op [[]] op' [h] ds es"
    and "length g = length (ag_keys op')"
  shows "let S = {v. \<not> 2 ^ 64 dvd zw (value_hist op' h) (slot, g, v)} in
    agg_fold op' slot g (Min e) = Ok (if S = {} then VNull else Lattices_Big.Min S)
    \<and> agg_fold op' slot g (Max e) = Ok (if S = {} then VNull else Lattices_Big.Max S)
    \<and> ((\<forall>v. in_i64 (zw (value_hist op' h) (slot, g, v))) \<longrightarrow> S = {v. zw (value_hist op' h) (slot, g, v) \<noteq> 0})"
proof -
  have inv: "agg_inv op' [h]" using ag.run_inv [OF assms(3) aggregate_new_inv(1) [OF assms(1,2)]] .
  then have canon: "canon (ag_state op')" by (simp add: agg_inv_def)
  obtain ms where scan: "mem_scan_prefix (ag_state op') (values_prefix slot g) = map (\<lambda>(v, w). (value_key_at slot g v, w)) ms"
    and ms: "canon ms" "\<And>v. zw ms v = wrap64 (zw (value_hist op' h) (slot, g, v))"
    using scan_values [OF inv assms(4)] by blast
  have S: "{v. \<not> 2 ^ 64 dvd zw (value_hist op' h) (slot, g, v)} = set (map fst ms)"
    using canon_support [OF ms(1)] ms(2) by (simp add: wrap64_0_iff)
  have range: "{v. \<not> 2 ^ 64 dvd zw (value_hist op' h) (slot, g, v)} = {v. zw (value_hist op' h) (slot, g, v) \<noteq> 0}"
    if "\<forall>v. in_i64 (zw (value_hist op' h) (slot, g, v))"
    unfolding wrap64_0_iff [symmetric] using that by (simp add: wrap64_id)
  have sorted: "sorted_wrt (<) (map fst ms)" using ms(1) by (simp add: canon_def bt_ok_def)
  have "agg_fold op' slot g (Min e) = Ok (if ms = [] then VNull else hd (map fst ms))"
    unfolding agg_fold_values [OF scan canon agg_func.distinct(5) [symmetric]] fold_values_min
    by (simp add: Let_def fold_start_def fold_result_def split: list.split)
  moreover have "agg_fold op' slot g (Max e) = Ok (if ms = [] then VNull else last (map fst ms))"
    unfolding agg_fold_values [OF scan canon agg_func.distinct(7) [symmetric]] fold_values_max
    by (simp add: Let_def fold_start_def fold_result_def last_map)
  ultimately show ?thesis
    using sorted_Min_hd [OF _ sorted] sorted_Max_last [OF _ sorted] range
    unfolding S Let_def by (auto simp del: list.set_map)
qed

theorem extremum_after_run_witness:
  "agg_fold (ex_op ex_state2) 0 [VInt 1] (Min (Column ''t.v'')) = Ok (VInt 5)"
proof -
  have len: "length [VInt 1] = length (ag_keys (ex_op ex_state2))" by code_simp
  let ?h = "[([VInt 1, VInt 5], 1), ([VInt 1, VInt 3], 1), ([VInt 1, VInt 3], - 1 :: int)]"
  have vh: "value_hist (ex_op ex_state2) ?h
      = [((0, [VInt 1], VInt 5), 1), ((0, [VInt 1], VInt 3), 1), ((0, [VInt 1], VInt 3), - 1)]" by code_simp
  have S: "{v. \<not> 2 ^ 64 dvd zw (value_hist (ex_op ex_state2) ?h) (0, [VInt 1], v)} = {VInt 5}"
    unfolding vh by auto
  show ?thesis
    using extremum_after_run [OF ex_new ex_out_ok ex_run len, of 0 "Column ''t.v''"] unfolding S Let_def by simp
qed



end
