(* ===== verification/Operator_Trait.thy ===== *)
theory Operator_Trait
  imports Join Distinct Aggregate_Props
begin

text \<open>
  The trait \<open>Operator\<close> of \<open>schweep-ops/src/operator.rs\<close> as the circuit sees it: a trait object is one
  of the five operators of \<open>schweep-ops\<close>, and each method of the trait is one function that
  dispatches on it. The contract \<open>incremental_operator\<close> holds of the dispatching step, so everything
  proved of it holds of any node of a circuit. The declared state bounds are shown to be honest: no
  operator ever holds more entries than its declaration allows for the input it has been given.
\<close>

section \<open>The methods of the trait\<close>

datatype operator =
    OpFilter filter_op
  | OpProject project_op
  | OpJoin join_op
  | OpAggregate aggregate_op
  | OpDistinct distinct_op

fun op_name :: "operator \<Rightarrow> string" where
  "op_name (OpFilter _) = ''filter''"
| "op_name (OpProject _) = ''project''"
| "op_name (OpJoin _) = ''join''"
| "op_name (OpAggregate _) = ''aggregate''"
| "op_name (OpDistinct _) = ''distinct''"

fun op_arity :: "operator \<Rightarrow> nat" where
  "op_arity (OpFilter _) = 1"
| "op_arity (OpProject _) = 1"
| "op_arity (OpJoin _) = 2"
| "op_arity (OpAggregate _) = 1"
| "op_arity (OpDistinct _) = 1"

fun op_output_schema :: "operator \<Rightarrow> schema" where
  "op_output_schema (OpFilter op) = fl_input_schema op"
| "op_output_schema (OpProject op) = pj_output_schema op"
| "op_output_schema (OpJoin op) = jo_output_schema op"
| "op_output_schema (OpAggregate op) = ag_output_schema op"
| "op_output_schema (OpDistinct op) = di_schema op"

fun op_state_bound :: "operator \<Rightarrow> state_bound" where
  "op_state_bound (OpFilter _) = Stateless"
| "op_state_bound (OpProject _) = Stateless"
| "op_state_bound (OpJoin _) = ProportionalToInputs [''left'', ''right''] 1 0"
| "op_state_bound (OpAggregate op) =
    ProportionalToInputs [''input''] (1 + length (ag_aggregates op)) (if is_grand_total op then 1 else 0)"
| "op_state_bound (OpDistinct _) = ProportionalToInputs [''input''] 1 0"

fun op_state_size :: "operator \<Rightarrow> nat" where
  "op_state_size (OpFilter _) = 0"
| "op_state_size (OpProject _) = 0"
| "op_state_size (OpJoin op) = mem_len (jo_left_index op) + mem_len (jo_right_index op)"
| "op_state_size (OpAggregate op) = mem_len (ag_state op)"
| "op_state_size (OpDistinct op) = mem_len (di_state op)"

fun op_backend_count :: "operator \<Rightarrow> nat" where
  "op_backend_count (OpFilter _) = 0"
| "op_backend_count (OpProject _) = 0"
| "op_backend_count (OpJoin _) = 2"
| "op_backend_count (OpAggregate _) = 1"
| "op_backend_count (OpDistinct _) = 1"

fun op_step :: "operator \<Rightarrow> zset_batch list \<Rightarrow> (op_error, step_output) result \<times> operator" where
  "op_step (OpFilter op) inputs = map_prod id OpFilter (filter_step op inputs)"
| "op_step (OpProject op) inputs = map_prod id OpProject (project_step op inputs)"
| "op_step (OpJoin op) inputs = map_prod id OpJoin (join_step op inputs)"
| "op_step (OpAggregate op) inputs = map_prod id OpAggregate (aggregate_step op inputs)"
| "op_step (OpDistinct op) inputs = map_prod id OpDistinct (distinct_step op inputs)"

section \<open>The contract\<close>

text \<open>
  The schemas an operator expects of its inputs, its invariant, and the streams it has accumulated.
\<close>

fun op_in_schemas :: "operator \<Rightarrow> schema list" where
  "op_in_schemas (OpFilter op) = [fl_input_schema op]"
| "op_in_schemas (OpProject op) = [pj_input_schema op]"
| "op_in_schemas (OpJoin op) = [jo_left_schema op, jo_right_schema op]"
| "op_in_schemas (OpAggregate op) = [ag_input_schema op]"
| "op_in_schemas (OpDistinct op) = [di_schema op]"

fun op_inv :: "operator \<Rightarrow> entries list \<Rightarrow> bool" where
  "op_inv (OpFilter op) hs = filter_inv op hs"
| "op_inv (OpProject op) hs = project_inv op hs"
| "op_inv (OpJoin op) hs = join_inv op hs"
| "op_inv (OpAggregate op) hs = agg_inv op hs"
| "op_inv (OpDistinct op) hs = distinct_inv op hs"

fun op_out :: "operator \<Rightarrow> entries list \<Rightarrow> row \<Rightarrow> int" where
  "op_out (OpFilter op) hs = zw (lin_data (filter_fun op) (hd hs))"
| "op_out (OpProject op) hs = zw (lin_data (project_fun op) (hd hs))"
| "op_out (OpJoin op) hs = join_spec op (hs ! 0) (hs ! 1)"
| "op_out (OpAggregate op) hs = agg_rows op"
| "op_out (OpDistinct op) hs = (\<lambda>r. sign (zw (hd hs) r))"

fun op_errs :: "operator \<Rightarrow> entries list \<Rightarrow> row \<Rightarrow> int" where
  "op_errs (OpFilter op) hs = zw (lin_errs (filter_fun op) (hd hs))"
| "op_errs (OpProject op) hs = zw (lin_errs (project_fun op) (hd hs))"
| "op_errs (OpJoin op) hs = (\<lambda>r. 0)"
| "op_errs (OpAggregate op) hs = agg_errors op hs"
| "op_errs (OpDistinct op) hs = (\<lambda>r. 0)"

interpretation dy: incremental_operator op_step op_in_schemas op_output_schema op_inv op_out op_errs
proof
  fix op hs bs ds o' op'
  assume asm: "op_inv op hs" "inputs_hold (op_in_schemas op) bs ds" "op_step op bs = (Ok o', op')"
  show "op_inv op' (extend_histories hs ds)"
    using asm by (cases op)
      (auto simp: map_prod_def split: prod.splits intro: fl.step_inv pj.step_inv jo.step_inv ag.step_inv di.step_inv)
  show "\<exists>es. holds (op_output_schema op) (so_data o') es
      \<and> (\<forall>r. zw es r = op_out op' (extend_histories hs ds) r - op_out op hs r)"
    using asm by (cases op)
      (auto simp: map_prod_def simp del: One_nat_def split: prod.splits dest: fl.step_data pj.step_data jo.step_data ag.step_data di.step_data)
  show "\<exists>es. holds err_schema (so_errors o') es
      \<and> (\<forall>r. zw es r = op_errs op' (extend_histories hs ds) r - op_errs op hs r)"
    using asm by (cases op)
      (auto simp: map_prod_def split: prod.splits
        dest: fl.step_errors pj.step_errors jo.step_errors [unfolded diff_self] ag.step_errors di.step_errors [unfolded diff_self])
next
  fix op bs o' op'
  assume "op_step op bs = (Ok o', op')"
  then show "op_in_schemas op' = op_in_schemas op \<and> op_output_schema op' = op_output_schema op"
    by (cases op) (auto simp: map_prod_def split: prod.splits
      dest: fl.step_schemas pj.step_schemas jo.step_schemas ag.step_schemas di.step_schemas)
qed

section \<open>Declared state bounds are honest\<close>

lemma canon_length_le:
  assumes "canon m" "\<And>k. zw m k \<noteq> 0 \<Longrightarrow> k \<in> fst ` set h"
  shows "length m \<le> length h"
proof -
  have "fst ` set m \<subseteq> fst ` set h" using assms canon_support [OF assms(1)] by blast
  then have "card (fst ` set m) \<le> card (fst ` set h)" by (simp add: card_mono)
  also have "\<dots> \<le> length h" by (metis card_length length_map list.set_map)
  finally show ?thesis
    using assms(1) by (metis bt_ok_distinct canon_def distinct_card length_map list.set_map)
qed

lemma represents_length_le: "mem.represents m h \<Longrightarrow> mem_len m \<le> length h"
  using canon_length_le [of m h] zw_notin [of _ h] by (fastforce simp: represents_iff mem_len_def)

lemma slot_values_length: "length (slot_values op r w g sas) \<le> length sas"
  by (induction sas) (auto simp: slot_values_def split: sum.splits option.splits)

lemma hist_length:
  "length (total_hist op es) \<le> length es"
  "length (value_hist op es) \<le> length (ag_aggregates op) * length es"
proof (induction es)
  case (Cons e es)
  obtain r w where e: "e = (r, w)" by (cases e)
  { case 1 then show ?case using Cons.IH(1) by (simp add: e total_hist_def split: sum.splits) }
  { case 2
    have "length (slot_values op r w g (enumerate 0 (ag_aggregates op))) \<le> length (ag_aggregates op)" for g
      using slot_values_length [of op r w g "enumerate 0 (ag_aggregates op)"] by simp
    then show ?case using Cons.IH(2) by (auto simp: e value_hist_def algebra_simps intro: add_mono split: sum.splits) }
qed (simp_all add: total_hist_def value_hist_def)

lemma state_hist_length: "length (state_hist op es) \<le> (1 + length (ag_aggregates op)) * length es"
  using hist_length [of op es] by (simp add: state_hist_def)

lemma agg_state_size:
  assumes "agg_inv op [h]"
  shows "mem_len (ag_state op) \<le> length h * (1 + length (ag_aggregates op)) + (if is_grand_total op then 1 else 0)"
proof -
  have canon: "canon (ag_state op)" and prim: "\<not> is_grand_total op \<Longrightarrow> zw (ag_state op) primed_key = 0"
    and hist: "\<And>k. k \<noteq> primed_key \<Longrightarrow> zw (ag_state op) k = wrap64 (zw (state_hist op h) k)"
    using assms by (auto simp: agg_inv_def)
  have in_hist: "k \<in> fst ` set (state_hist op h)" if "zw (ag_state op) k \<noteq> 0" "k \<noteq> primed_key" for k
  proof (rule ccontr)
    assume "k \<notin> fst ` set (state_hist op h)"
    then have "zw (state_hist op h) k = 0" by (rule zw_notin)
    then show False using hist [OF that(2)] that(1) wrap64_id [of 0] by (simp add: i64_defs)
  qed
  let ?extra = "if is_grand_total op then [(primed_key, 1)] else []"
  have "length (ag_state op) \<le> length (?extra @ state_hist op h)"
  proof (rule canon_length_le [OF canon])
    fix k assume "zw (ag_state op) k \<noteq> 0"
    then show "k \<in> fst ` set (?extra @ state_hist op h)"
      using in_hist [of k] prim by (cases "k = primed_key"; cases "is_grand_total op") auto
  qed
  then show ?thesis using state_hist_length [of op h] by (simp add: mem_len_def mult.commute split: if_splits)
qed

text \<open>The entries an operator may hold after it was handed \<open>n\<close> entries in total.\<close>

fun bound_allows :: "state_bound \<Rightarrow> nat \<Rightarrow> nat option" where
  "bound_allows Stateless n = Some 0"
| "bound_allows (ProportionalToInputs _ factor constant) n = Some (n * factor + constant)"
| "bound_allows (Unbounded _) n = None"

lemma op_state_within_bound:
  assumes "op_inv op hs"
  shows "\<exists>b. bound_allows (op_state_bound op) (sum_list (map length hs)) = Some b \<and> op_state_size op \<le> b"
proof (cases op)
  case (OpJoin j)
  then obtain hl hr where "hs = [hl, hr]" and "mem.represents (jo_left_index j) (indexed (jo_left_key j) hl)"
    "mem.represents (jo_right_index j) (indexed (jo_right_key j) hr)"
    using assms by (auto simp: join_inv_def)
  then show ?thesis
    using OpJoin represents_length_le [of "jo_left_index j"] represents_length_le [of "jo_right_index j"]
    by fastforce
next
  case (OpAggregate a)
  then obtain h where "hs = [h]" "agg_inv a [h]" using assms by (auto simp: agg_inv_def)
  then show ?thesis using OpAggregate agg_state_size [of a h] by simp
next
  case (OpDistinct d)
  then show ?thesis using assms represents_length_le by (auto simp: distinct_inv_def)
qed auto

lemma op_inv_arity: "op_inv op hs \<Longrightarrow> length hs = op_arity op"
  by (cases op) (auto simp: filter_inv_def project_inv_def join_inv_def agg_inv_def distinct_inv_def)

lemma op_in_schemas_arity [simp]: "length (op_in_schemas op) = op_arity op"
  by (cases op) auto

section \<open>Configuration and state\<close>

text \<open>An operator without its state: what construction fixed and no step changes.\<close>

fun op_config :: "operator \<Rightarrow> operator" where
  "op_config (OpFilter op) = OpFilter op"
| "op_config (OpProject op) = OpProject op"
| "op_config (OpJoin op) = OpJoin (op\<lparr>jo_left_index := [], jo_right_index := []\<rparr>)"
| "op_config (OpAggregate op) = OpAggregate (op\<lparr>ag_state := []\<rparr>)"
| "op_config (OpDistinct op) = OpDistinct (op\<lparr>di_state := []\<rparr>)"

fun op_primed :: "operator \<Rightarrow> bool" where
  "op_primed (OpAggregate op) = primed op"
| "op_primed _ = True"

lemma op_config_simps [simp]:
  "op_output_schema (op_config op) = op_output_schema op" "op_in_schemas (op_config op) = op_in_schemas op"
  "op_arity (op_config op) = op_arity op"
  by (cases op; simp)+

lemma join_integrate_config:
  "join_integrate op ls rs = (r, op') \<Longrightarrow> op'\<lparr>jo_left_index := [], jo_right_index := []\<rparr> = op\<lparr>jo_left_index := [], jo_right_index := []\<rparr>"
  by (auto simp: join_integrate_def split: sum.splits prod.splits)

lemma op_step_config:
  assumes "op_step op bs = (r, op')"
  shows "op_config op' = op_config op"
proof (cases op)
  case (OpJoin j)
  then obtain j' where "op' = OpJoin j'" "join_step j bs = (r, j')" using assms by (cases "join_step j bs") auto
  then show ?thesis using OpJoin by (auto simp: join_step_def split: sum.splits prod.splits dest: join_integrate_config)
next
  case (OpAggregate a)
  then obtain a' where "op' = OpAggregate a'" "aggregate_step a bs = (r, a')" using assms by (cases "aggregate_step a bs") auto
  then show ?thesis using OpAggregate aggregate_step_frame [of a bs r a'] by auto
next
  case (OpDistinct d)
  then obtain d' where "op' = OpDistinct d'" "distinct_step d bs = (r, d')" using assms by (cases "distinct_step d bs") auto
  then show ?thesis using OpDistinct by (auto simp: distinct_step_def split: sum.splits prod.splits)
qed (use assms in \<open>auto simp: filter_step_def project_step_def\<close>)

lemma op_step_primed:
  assumes "op_inv op hs" "inputs_hold (op_in_schemas op) bs ds" "op_step op bs = (Ok o', op')"
  shows "op_primed op'"
proof (cases op)
  case (OpAggregate a)
  then obtain a' where a': "op' = OpAggregate a'" and step: "aggregate_step a bs = (Ok o', a')"
    using assms(3) by (cases "aggregate_step a bs") auto
  obtain h b d where hs: "hs = [h]" "agg_inv a [h]" "bs = [b]" "holds (ag_input_schema a) b d"
    using assms(1,2) OpAggregate by (auto simp: agg_inv_def inputs_hold_unary)
  obtain td vd m' where acc: "accumulates td (total_hist a d)" "accumulates vd (value_hist a d)"
    and m': "a' = a\<lparr>ag_state := m'\<rparr>" "mem_write (ag_state a) (agg_batch a (was_primed a) td vd) = (Ok (), m')"
    using aggregate_step_Ok [OF hs(2,4) step [unfolded hs(3)]] by metis
  show ?thesis using step_state(2) [OF hs(2) acc m'(2)] m'(1) a' by (simp add: primed_def is_grand_total_def)
qed (use assms(3) in \<open>auto simp: map_prod_def split: prod.splits\<close>)

section \<open>State is a function of the accumulated input\<close>

definition zeqs :: "entries list \<Rightarrow> entries list \<Rightarrow> bool" where
  "zeqs hs hs' \<longleftrightarrow> list_all2 (\<lambda>h h'. zw h = zw h') hs hs'"

text \<open>Histories that give every row a list of keys, each at the row's weight.\<close>

lemma zw_spread:
  "zw (concat (map (\<lambda>(r, w). map (\<lambda>k. (k, w)) (F r)) es)) k = zint (\<lambda>r. int (count_list (F r) k)) es"
proof (induction es)
  case (Cons e es)
  obtain r w where e: "e = (r, w)" by (cases e)
  have "zw (map (\<lambda>k. (k, w)) ks) k = w * int (count_list ks k)" for ks
    by (induction ks) (auto simp: algebra_simps)
  then show ?case using Cons by (simp add: e)
qed simp

lemma zw_spread_cong:
  "zw es = zw fs \<Longrightarrow> zw (concat (map (\<lambda>(r, w). map (\<lambda>k. (k, w)) (F r)) es)) = zw (concat (map (\<lambda>(r, w). map (\<lambda>k. (k, w)) (F r)) fs))"
  by (rule ext) (simp add: zw_spread zint_cong [of es fs])

lemma hist_spread:
  "total_hist op es = concat (map (\<lambda>(r, w). map (\<lambda>k. (k, w)) (case agg_group op r of Inr g \<Rightarrow> [g] | Inl _ \<Rightarrow> [])) es)"
  "value_hist op es = concat (map (\<lambda>(r, w). map (\<lambda>k. (k, w)) (case agg_group op r of
     Inr g \<Rightarrow> map fst (slot_values op r 0 g (enumerate 0 (ag_aggregates op))) | Inl _ \<Rightarrow> [])) es)"
  "err_hist op es = concat (map (\<lambda>(r, w). map (\<lambda>k. (k, w)) (case agg_group op r of
     Inr g \<Rightarrow> map fst (slot_errs op r 0 (enumerate 0 (ag_aggregates op))) | Inl e \<Rightarrow> [error_row e])) es)"
proof -
  have sv: "slot_values op r w g sas = map (\<lambda>k. (k, w)) (map fst (slot_values op r 0 g sas))" for r w g sas
    by (induction sas) (auto simp: slot_values_def split: sum.split option.split)
  have se: "slot_errs op r w sas = map (\<lambda>k. (k, w)) (map fst (slot_errs op r 0 sas))" for r w sas
    by (induction sas) (auto simp: slot_errs_def split: sum.split option.split)
  show "total_hist op es = concat (map (\<lambda>(r, w). map (\<lambda>k. (k, w)) (case agg_group op r of Inr g \<Rightarrow> [g] | Inl _ \<Rightarrow> [])) es)"
    unfolding total_hist_def by (rule arg_cong [of _ _ concat], rule map_cong) (auto split: sum.split)
  show "value_hist op es = concat (map (\<lambda>(r, w). map (\<lambda>k. (k, w)) (case agg_group op r of
      Inr g \<Rightarrow> map fst (slot_values op r 0 g (enumerate 0 (ag_aggregates op))) | Inl _ \<Rightarrow> [])) es)"
    unfolding value_hist_def by (rule arg_cong [of _ _ concat], rule map_cong) (auto split: sum.split simp del: map_map intro: sv)
  show "err_hist op es = concat (map (\<lambda>(r, w). map (\<lambda>k. (k, w)) (case agg_group op r of
      Inr g \<Rightarrow> map fst (slot_errs op r 0 (enumerate 0 (ag_aggregates op))) | Inl e \<Rightarrow> [error_row e])) es)"
    unfolding err_hist_def by (rule arg_cong [of _ _ concat], rule map_cong) (auto split: sum.split simp del: map_map intro: se)
qed

lemma zw_rekey_cong: "zw es = zw fs \<Longrightarrow> zw (map (\<lambda>(r, w). (g r, w)) es) = zw (map (\<lambda>(r, w). (g r, w)) fs)"
  by (rule ext) (simp add: zw_as_zint [of "map _ _"] zint_map_key zint_cong [of es fs])

lemma hist_cong:
  assumes "zw es = zw fs"
  shows "zw (total_hist op es) = zw (total_hist op fs)" "zw (value_hist op es) = zw (value_hist op fs)"
    "zw (err_hist op es) = zw (err_hist op fs)" "zw (state_hist op es) = zw (state_hist op fs)"
proof -
  show t: "zw (total_hist op es) = zw (total_hist op fs)" and v: "zw (value_hist op es) = zw (value_hist op fs)"
    and "zw (err_hist op es) = zw (err_hist op fs)"
    unfolding hist_spread by (rule zw_spread_cong [OF assms])+
  show "zw (state_hist op es) = zw (state_hist op fs)"
    using zw_rekey_cong [OF t, of total_key] zw_rekey_cong [OF v, of "\<lambda>(slot, g, v). value_key_at slot g v"]
    by (simp add: state_hist_def fun_eq_iff)
qed

lemma zeqs_unary: "zeqs [h] hs' \<longleftrightarrow> (\<exists>h'. hs' = [h'] \<and> zw h = zw h')"
  by (auto simp: zeqs_def list_all2_Cons1)

lemma zeqs_binary: "zeqs [h, k] hs' \<longleftrightarrow> (\<exists>h' k'. hs' = [h', k'] \<and> zw h = zw h' \<and> zw k = zw k')"
  by (auto simp: zeqs_def list_all2_Cons1)

lemma op_inv_unary: "op_inv op hs \<Longrightarrow> (\<And>j. op \<noteq> OpJoin j) \<Longrightarrow> \<exists>h. hs = [h]"
  using op_inv_arity [of op hs] by (cases op) (auto simp: length_Suc_conv)

lemma op_inv_cong:
  assumes "op_inv op hs" "zeqs hs hs'"
  shows "op_inv op hs'" "op_out op hs' = op_out op hs" "op_errs op hs' = op_errs op hs"
proof -
  have "op_inv op hs' \<and> op_out op hs' = op_out op hs \<and> op_errs op hs' = op_errs op hs"
  proof (cases "\<exists>j. op = OpJoin j")
    case True
    then obtain j hl hr where j: "op = OpJoin j" "hs = [hl, hr]" using assms(1) by (auto simp: join_inv_def)
    then obtain hl' hr' where hs': "hs' = [hl', hr']" "zw hl = zw hl'" "zw hr = zw hr'"
      using assms(2) by (auto simp: zeqs_binary)
    have "join_inv j [hl', hr']"
      using assms(1) j zw_rekey_cong [OF hs'(2)] zw_rekey_cong [OF hs'(3)]
      by (auto simp: join_inv_def intro: mem.represents_cong)
    then show ?thesis using j hs' join_spec_cong [OF hs'(2,3)] by simp
  next
    case False
    then obtain h where h: "hs = [h]" using op_inv_unary [OF assms(1)] by blast
    then obtain h' where h': "hs' = [h']" "zw h = zw h'" using assms(2) by (auto simp: zeqs_unary)
    note lin = zw_lin_cong(1) [OF h'(2)] zw_lin_cong(2) [OF h'(2)]
    show ?thesis
    proof (cases op)
      case (OpAggregate a)
      then show ?thesis using assms(1) h h' hist_cong [OF h'(2)] by (simp add: agg_inv_def agg_errors_def fun_eq_iff)
    next
      case (OpDistinct d)
      then show ?thesis using assms(1) h h' by (auto simp: distinct_inv_def intro: mem.represents_cong)
    qed (use assms(1) h h' lin False in \<open>auto simp: filter_inv_def project_inv_def\<close>)
  qed
  then show "op_inv op hs'" "op_out op hs' = op_out op hs" "op_errs op hs' = op_errs op hs" by simp_all
qed

lemma agg_determined:
  assumes "agg_inv a [h]" "agg_inv a' [h']" "zw h = zw h'" "a\<lparr>ag_state := []\<rparr> = a'\<lparr>ag_state := []\<rparr>" "primed a" "primed a'"
  shows "a = a'"
proof -
  obtain m where a': "a' = a\<lparr>ag_state := m\<rparr>" using assms(4) by (cases a; cases a') auto
  then have gt: "is_grand_total a' = is_grand_total a" and sh: "state_hist a' = state_hist a"
    by (simp_all add: is_grand_total_def fun_eq_iff)
  have c: "canon (ag_state a)" "canon (ag_state a')" using assms(1,2) by (simp_all add: agg_inv_def)
  have "zw (ag_state a) k = zw (ag_state a') k" for k
  proof (cases "k = primed_key")
    case True
    have "zw (ag_state a) primed_key = (if is_grand_total a then 1 else 0)"
      "zw (ag_state a') primed_key = (if is_grand_total a' then 1 else 0)"
      using assms(1,2,5,6) was_primed_zw [OF c(1)] was_primed_zw [OF c(2)] by (auto simp: agg_inv_def primed_def)
    then show ?thesis using True gt by simp
  next
    case False
    then show ?thesis using assms(1,2) hist_cong(4) [OF assms(3), of a] sh by (simp add: agg_inv_def)
  qed
  then have "ag_state a = ag_state a'" using canon_unique [OF c] by (simp add: fun_eq_iff)
  then show ?thesis using a' by simp
qed

text \<open>
  Two operators of one configuration that absorbed the same Z-sets are equal, however the input was
  split into steps.
\<close>

lemma op_determined:
  assumes "op_inv op hs" "op_inv op' hs'" "zeqs hs hs'" "op_config op = op_config op'" "op_primed op" "op_primed op'"
  shows "op = op'"
proof (cases op)
  case (OpJoin j)
  then obtain j' where j': "op' = OpJoin j'" "j\<lparr>jo_left_index := [], jo_right_index := []\<rparr> = j'\<lparr>jo_left_index := [], jo_right_index := []\<rparr>"
    using assms(4) by (cases op') auto
  then obtain hl hr where hs: "hs = [hl, hr]" using assms(1) OpJoin by (auto simp: join_inv_def)
  then obtain hl' hr' where hs': "hs' = [hl', hr']" "zw hl = zw hl'" "zw hr = zw hr'"
    using assms(3) by (auto simp: zeqs_binary)
  have keys: "jo_left_key j' = jo_left_key j" "jo_right_key j' = jo_right_key j" using j'(2) by (cases j; cases j'; simp)+
  have "jo_left_index j = jo_left_index j'" "jo_right_index j = jo_right_index j'"
    using assms(1,2) OpJoin j'(1) hs hs' keys zw_rekey_cong [OF hs'(2)] zw_rekey_cong [OF hs'(3)]
    by (auto simp: join_inv_def represents_iff intro!: canon_unique)
  then show ?thesis using j' OpJoin by (cases j; cases j') simp
next
  case (OpAggregate a)
  then obtain a' where "op' = OpAggregate a'" "a\<lparr>ag_state := []\<rparr> = a'\<lparr>ag_state := []\<rparr>" using assms(4) by (cases op') auto
  then show ?thesis using OpAggregate assms agg_determined [of a _ a'] op_inv_unary [OF assms(1)] by (auto simp: zeqs_unary)
next
  case (OpDistinct d)
  then obtain d' where d': "op' = OpDistinct d'" "d\<lparr>di_state := []\<rparr> = d'\<lparr>di_state := []\<rparr>" using assms(4) by (cases op') auto
  then have "di_state d = di_state d'"
    using assms(1,2,3) OpDistinct by (auto simp: distinct_inv_def represents_iff zeqs_unary intro!: canon_unique)
  then show ?thesis using d' OpDistinct by (cases d; cases d') simp
qed (use assms(4) in \<open>cases op'; auto\<close>)+

end
