(* ===== verification/Result_Store.thy ===== *)
theory Result_Store
  imports Operator_Trait
begin

text \<open>
  The errors of \<open>schweep-circuit\<close> (\<open>error.rs\<close>) and the result store (\<open>result_store.rs\<close>): the
  maintained integral of one output stream. Absorbing a delta mutates the store entry by entry, so a
  store that fails part way keeps the entries already added; the model returns the store beside the
  outcome. The lemmas show that a store holds exactly the weights of everything it absorbed, in
  canonical form.
\<close>

section \<open>Errors\<close>

datatype circuit_error =
    CircuitOp op_error
  | CircuitPlanErr plan_error
  | CircuitZSet zset_error
  | UnknownNode nat
  | UnknownSink nat
  | EpochWouldGoBackwards nat nat
  | NodeStillConsumed nat nat
  | SinkSchemaMismatch string string
  | NodeOutOfOrder nat nat
  | WiringArity string nat nat
  | DuplicateSource string
  | EmptyCircuit
  | StateBoundViolated string state_bound nat int
  | StateDeclarationArityMismatch string nat nat
  | UnboundedStateNotAdmissible string string
  | CircuitWeightOverflow string
  | CorruptErrorStore
  | CorruptSnapshot
  | SnapshotFailure string
  | LiveEvaluationError string

section \<open>Loops over mutable state\<close>

text \<open>
  A \<open>for\<close> loop whose body may fail with \<open>?\<close>: it stops at the first error and keeps the state reached.
\<close>

fun loopM :: "('x \<Rightarrow> 's \<Rightarrow> ('e, unit) result \<times> 's) \<Rightarrow> 'x list \<Rightarrow> 's \<Rightarrow> ('e, unit) result \<times> 's" where
  "loopM f [] s = (Ok (), s)"
| "loopM f (x # xs) s = (case f x s of (Inr u, s') \<Rightarrow> loopM f xs s' | (Inl e, s') \<Rightarrow> (Err e, s'))"

lemma loopM_append:
  "loopM f (xs @ ys) s = (case loopM f xs s of (Inr u, s') \<Rightarrow> loopM f ys s' | (Inl e, s') \<Rightarrow> (Err e, s'))"
  by (induction xs arbitrary: s) (auto split: prod.split sum.split)

lemma loopM_snoc_Ok:
  "loopM f (xs @ [x]) s = (Ok u, t) \<longleftrightarrow> (\<exists>s'. loopM f xs s = (Ok (), s') \<and> f x s' = (Ok (), t))"
  by (auto simp: loopM_append split: prod.split sum.split)

lemma loopM_Cons_Ok:
  "loopM f (x # xs) s = (Ok u, t) \<longleftrightarrow> (\<exists>s'. f x s = (Ok (), s') \<and> loopM f xs s' = (Ok (), t))"
  by (auto split: prod.split sum.split)

lemma loopM_inv:
  assumes "loopM f xs s = (r, t)" "P s" "\<And>x s r s'. x \<in> set xs \<Longrightarrow> P s \<Longrightarrow> f x s = (r, s') \<Longrightarrow> P s'"
  shows "P t"
  using assms
proof (induction xs arbitrary: s)
  case (Cons x xs)
  obtain r1 s1 where f: "f x s = (r1, s1)" by (cases "f x s")
  then have "P s1" using Cons.prems(2,3) by (meson list.set_intros(1))
  then show ?case using Cons.prems(1,3) Cons.IH [of s1] f by (cases r1) auto
qed simp

section \<open>The result store\<close>

record result_store =
  rs_schema :: schema
  rs_integral :: "(row, int) btree"

definition store_new :: "schema \<Rightarrow> result_store" where
  "store_new s = \<lparr>rs_schema = s, rs_integral = []\<rparr>"

definition store_len :: "result_store \<Rightarrow> nat" where
  "store_len st = length (rs_integral st)"

definition store_is_empty :: "result_store \<Rightarrow> bool" where
  "store_is_empty st \<longleftrightarrow> rs_integral st = []"

fun absorb_entry :: "row \<times> int \<Rightarrow> (row, int) btree \<Rightarrow> (circuit_error, unit) result \<times> (row, int) btree" where
  "absorb_entry (row, weight) m =
    (case bt_get m row of
       None \<Rightarrow> (Ok (), if weight \<noteq> 0 then bt_insert row weight m else m)
     | Some held \<Rightarrow>
        (case checked_add held weight of
           None \<Rightarrow> (Err (CircuitWeightOverflow ''absorbing a delta into a result store''), m)
         | Some s \<Rightarrow> (Ok (), if s = 0 then bt_remove row m else bt_insert row s m)))"

definition absorb :: "zset_batch \<Rightarrow> result_store \<Rightarrow> (circuit_error, unit) result \<times> result_store" where
  "absorb delta st =
    (if zb_schema delta \<noteq> rs_schema st
     then (Err (CircuitZSet (SchemaMismatch (schema_to_string (rs_schema st)) (schema_to_string (zb_schema delta)))), st)
     else case zb_entries delta of
       Inl e \<Rightarrow> (Err (CircuitZSet e), st)
     | Inr es \<Rightarrow> (case loopM absorb_entry es (rs_integral st) of (res, m) \<Rightarrow> (res, st\<lparr>rs_integral := m\<rparr>)))"

definition store_contents :: "result_store \<Rightarrow> (circuit_error, zset_batch) result" where
  "store_contents st = map_err CircuitZSet (from_entries (rs_schema st) (rs_integral st))"

definition store_canonical :: "result_store \<Rightarrow> (circuit_error, canonical) result" where
  "store_canonical st = bindR (store_contents st) (\<lambda>b. map_err CircuitZSet (zb_canonical b))"

section \<open>A store is the integral of what it absorbed\<close>

definition store_holds :: "result_store \<Rightarrow> schema \<Rightarrow> (row \<Rightarrow> int) \<Rightarrow> bool" where
  "store_holds st s W \<longleftrightarrow> rs_schema st = s \<and> schema_ok s \<and> canon (rs_integral st)
    \<and> zw (rs_integral st) = W \<and> (\<forall>e \<in> set (rs_integral st). row_conforms s (fst e))"

lemma canon_insert: "canon m \<Longrightarrow> w \<noteq> 0 \<Longrightarrow> canon (bt_insert k w m)"
  by (auto simp: canon_def bt_get_iff [symmetric] btree_simps split: if_splits)

lemma canon_remove: "canon m \<Longrightarrow> canon (bt_remove k m)"
  unfolding canon_def using bt_ok_remove [of m k] by (auto simp: bt_remove_def)

lemma absorb_entry_Ok:
  assumes "absorb_entry (r, w) m = (Ok (), m')" "canon m"
  shows "canon m'" "zw m' = zw (m @ [(r, w)])" "fst ` set m' \<subseteq> insert r (fst ` set m)"
proof -
  have ok: "bt_ok m" using assms(2) by (simp add: canon_def)
  show c': "canon m'"
    using assms by (auto intro: canon_insert canon_remove split: option.splits if_splits)
  show "zw m' = zw (m @ [(r, w)])"
  proof
    fix k
    have "zw m' k = bt_get_or 0 m' k" "zw m k = bt_get_or 0 m k"
      using zw_bt c' ok by (auto simp: canon_def)
    then show "zw m' k = zw (m @ [(r, w)]) k"
      using assms(1) by (auto simp: bt_get_or_def bt_get_def btree_simps result_simps checked_defs split: option.splits if_splits)
  qed
  have "m' = m \<or> m' = bt_remove r m \<or> (\<exists>x. m' = bt_insert r x m)"
    using assms(1) by (auto split: option.splits if_splits)
  then show "fst ` set m' \<subseteq> insert r (fst ` set m)"
    by (elim disjE exE) (simp_all add: btree_simps subset_insertI subset_insertI2)
qed

lemma absorb_entries_Ok:
  assumes "loopM absorb_entry es m = (Ok (), m')" "canon m"
  shows "canon m' \<and> zw m' = zw (m @ es) \<and> fst ` set m' \<subseteq> fst ` set m \<union> fst ` set es"
  using assms
proof (induction es arbitrary: m)
  case (Cons e es)
  obtain r w where e: "e = (r, w)" by (cases e)
  obtain m1 where m1: "absorb_entry (r, w) m = (Ok (), m1)" "loopM absorb_entry es m1 = (Ok (), m')"
    using Cons.prems(1) by (auto simp: e loopM_Cons_Ok simp del: absorb_entry.simps loopM.simps)
  note step = absorb_entry_Ok [OF m1(1) Cons.prems(2)]
  have "zw m' = zw (m @ e # es)" using Cons.IH [OF m1(2) step(1)] step(2) by (simp add: fun_eq_iff e)
  moreover have "fst ` set m' \<subseteq> fst ` set m \<union> fst ` set (e # es)"
    using Cons.IH [OF m1(2) step(1)] step(3) by (simp add: e) blast
  ultimately show ?case using Cons.IH [OF m1(2) step(1)] by blast
qed simp

lemma absorb_Ok:
  assumes "absorb b st = (Ok (), st')" "store_holds st s W" "holds s b d"
  shows "store_holds st' s (\<lambda>r. W r + zw d r)"
proof -
  obtain m where m: "loopM absorb_entry d (rs_integral st) = (Ok (), m)" "st' = st\<lparr>rs_integral := m\<rparr>"
    using assms by (auto simp: absorb_def holds_entries split: if_splits prod.splits)
  have "\<forall>e \<in> set d. row_conforms s (fst e)" using holds_conforms [OF assms(3)] by auto
  then show ?thesis
    using assms(2) absorb_entries_Ok [OF m(1)] by (fastforce simp: store_holds_def m(2) fun_eq_iff)
qed

lemma store_new_holds: "schema_ok s \<Longrightarrow> store_holds (store_new s) s (\<lambda>r. 0)"
  by (simp add: store_holds_def store_new_def canon_def fun_eq_iff)

text \<open>Reading a store gives back its canonical integral; it fails only if a stored row does not fit.\<close>

lemma store_canonical_Ok:
  assumes "store_holds st s W"
  shows "store_canonical st = Ok \<lparr>ca_schema = s, ca_entries = rs_integral st\<rparr>"
proof -
  obtain b where b: "holds s b (rs_integral st)"
    using assms holds_exists [of s "rs_integral st"] by (auto simp: store_holds_def)
  have "merge_sorted (rs_integral st) = Ok (rs_integral st)"
    using assms by (intro merge_sorted_canon) (simp add: store_holds_def)
  then show ?thesis
    using b assms holds_entries [OF b] holds_schema [OF b]
    by (auto simp: store_canonical_def store_contents_def zb_canonical_def consolidated_entries_def
        store_holds_def holds_def)
qed

end
