(* ===== verification/Circuit.thy ===== *)
theory Circuit
  imports Result_Store
begin

text \<open>
  The circuit of \<open>schweep-circuit/src/circuit.rs\<close>: operators wired into a DAG in index order, the
  sources that feed it, and one sink per standing query. The definitions follow the file: the builder,
  the mutable topology (attach, remove, rewire, sinks), the accounting of declared state, and the one
  pass that priming, stepping and catching up share. Operations that mutate a circuit and may fail
  return the circuit beside the outcome, so that what a failed operation leaves behind is part of the
  model. A \<open>usize\<close> counter is an \<^typ>\<open>int\<close> saturating at the 64-bit maximum.
\<close>

section \<open>Nodes, sinks and circuits\<close>

datatype node =
    SourceNode (sn_table: string) (sn_alias: string) (sn_schema: schema)
  | OperatorNode (on_op: operator) (on_inputs: "nat list")

record sink =
  sk_node :: nat
  sk_result :: result_store
  sk_errors :: result_store
  sk_ancestors :: "nat set"

record circuit =
  ci_nodes :: "node option list"
  ci_sources :: "(string, nat list) btree"
  ci_sinks :: "sink option list"
  ci_epoch :: nat
  ci_emitted :: "int list"
  ci_steps :: "int list"
  ci_admitted :: "nat set"

definition usize_max :: int where
  "usize_max = 2 ^ 64 - 1"

definition sat_add :: "int \<Rightarrow> int \<Rightarrow> int" where
  "sat_add a b = min (a + b) usize_max"

definition sat_mul :: "int \<Rightarrow> int \<Rightarrow> int" where
  "sat_mul a b = min (a * b) usize_max"

definition circuit_empty :: circuit where
  "circuit_empty = \<lparr>ci_nodes = [], ci_sources = [], ci_sinks = [], ci_epoch = 0, ci_emitted = [],
    ci_steps = [], ci_admitted = {}\<rparr>"

definition get_node :: "node option list \<Rightarrow> nat \<Rightarrow> node option" where
  "get_node ns i = (case nth_opt ns i of Some (Some n) \<Rightarrow> Some n | _ \<Rightarrow> None)"

definition node_at :: "circuit \<Rightarrow> nat \<Rightarrow> (circuit_error, node) result" where
  "node_at c i = ok_or (get_node (ci_nodes c) i) (UnknownNode i)"

fun node_schema :: "node \<Rightarrow> schema" where
  "node_schema (SourceNode _ _ s) = s"
| "node_schema (OperatorNode op _) = op_output_schema op"

definition node_output_schema :: "circuit \<Rightarrow> nat \<Rightarrow> (circuit_error, schema) result" where
  "node_output_schema c i = bindR (node_at c i) (\<lambda>n. Ok (node_schema n))"

fun node_inputs :: "node \<Rightarrow> nat list" where
  "node_inputs (SourceNode _ _ _) = []"
| "node_inputs (OperatorNode _ inputs) = inputs"

definition inputs_of :: "circuit \<Rightarrow> nat \<Rightarrow> (circuit_error, nat list) result" where
  "inputs_of c i = bindR (node_at c i) (\<lambda>n. Ok (node_inputs n))"

definition sink_at :: "circuit \<Rightarrow> nat \<Rightarrow> (circuit_error, sink) result" where
  "sink_at c i = (case nth_opt (ci_sinks c) i of Some (Some s) \<Rightarrow> Ok s | _ \<Rightarrow> Err (UnknownSink i))"

definition sink_node :: "circuit \<Rightarrow> nat \<Rightarrow> (circuit_error, nat) result" where
  "sink_node c i = bindR (sink_at c i) (\<lambda>s. Ok (sk_node s))"

definition output_schema_of :: "circuit \<Rightarrow> nat \<Rightarrow> (circuit_error, schema) result" where
  "output_schema_of c i = bindR (sink_at c i) (\<lambda>s. Ok (rs_schema (sk_result s)))"

definition output_schema :: "circuit \<Rightarrow> (circuit_error, schema) result" where
  "output_schema c = output_schema_of c 0"

section \<open>Answers\<close>

definition answer_of :: "circuit \<Rightarrow> nat \<Rightarrow> (circuit_error, canonical) result" where
  "answer_of c i = bindR (sink_at c i) (\<lambda>s.
    if \<not> store_is_empty (sk_errors s)
    then bindR (store_canonical (sk_errors s)) (\<lambda>live.
      case ca_entries live of
        ((VStr message # _), _) # _ \<Rightarrow> Err (LiveEvaluationError message)
      | _ \<Rightarrow> Err CorruptErrorStore)
    else store_canonical (sk_result s))"

definition answer :: "circuit \<Rightarrow> (circuit_error, canonical) result" where
  "answer c = answer_of c 0"

section \<open>Wiring\<close>

definition check_wiring :: "operator \<Rightarrow> nat list \<Rightarrow> nat \<Rightarrow> bool \<Rightarrow> (circuit_error, unit) result" where
  "check_wiring op inputs i admit_unbounded =
    (if op_arity op \<noteq> length inputs then Err (WiringArity (op_name op) (op_arity op) (length inputs))
     else bindR (case op_state_bound op of
         ProportionalToInputs declared _ _ \<Rightarrow>
           if length declared \<noteq> op_arity op
           then Err (StateDeclarationArityMismatch (op_name op) (length declared) (op_arity op)) else Ok ()
       | Unbounded reason \<Rightarrow>
           if \<not> admit_unbounded then Err (UnboundedStateNotAdmissible (op_name op) reason) else Ok ()
       | Stateless \<Rightarrow> Ok ())
     (\<lambda>_. case find (\<lambda>input. i \<le> input) inputs of
         Some input \<Rightarrow> Err (NodeOutOfOrder i input)
       | None \<Rightarrow> Ok ()))"

text \<open>
  Every node at or upstream of a node: a depth-first walk with an explicit stack, whose head is the
  end that \<open>pop\<close> takes. It terminates because every step either shortens the stack or visits a node
  for the first time.
\<close>

function ancestors_walk :: "node option list \<Rightarrow> nat list \<Rightarrow> nat set \<Rightarrow> (circuit_error, nat set) result" where
  "ancestors_walk ns [] out = Ok out"
| "ancestors_walk ns (i # stack) out =
    (if i \<in> out then ancestors_walk ns stack out
     else case get_node ns i of
       None \<Rightarrow> Err (UnknownNode i)
     | Some n \<Rightarrow> ancestors_walk ns (rev (node_inputs n) @ stack) (insert i out))"
  by pat_completeness auto

termination
proof (relation "measures [\<lambda>(ns, stack, out). card ({..<length ns} - out), \<lambda>(ns, stack, out). length stack]")
  fix ns i stack out n
  assume "i \<notin> out" "get_node ns i = Some n"
  then have "{..<length ns} - insert i out \<subset> {..<length ns} - out"
    by (auto simp: get_node_def nth_opt_def split: option.splits if_splits)
  then have "card ({..<length ns} - insert i out) < card ({..<length ns} - out)"
    by (intro psubset_card_mono) auto
  then show "((ns, rev (node_inputs n) @ stack, insert i out), (ns, i # stack, out))
      \<in> measures [\<lambda>(ns, stack, out). card ({..<length ns} - out), \<lambda>(ns, stack, out). length stack]"
    by simp
qed auto

definition ancestors_of :: "circuit \<Rightarrow> nat \<Rightarrow> (circuit_error, nat set) result" where
  "ancestors_of c i = ancestors_walk (ci_nodes c) [i] {}"

definition attach_source :: "string \<Rightarrow> string \<Rightarrow> schema \<Rightarrow> circuit \<Rightarrow> (circuit_error, nat) result \<times> circuit" where
  "attach_source table alias s c =
    (let i = length (ci_nodes c) in
     (Ok i, c\<lparr>ci_nodes := ci_nodes c @ [Some (SourceNode table alias s)], ci_emitted := ci_emitted c @ [0],
        ci_steps := ci_steps c @ [0],
        ci_sources := bt_insert alias (bt_get_or [] (ci_sources c) alias @ [i]) (ci_sources c)\<rparr>))"

definition attach :: "operator \<Rightarrow> nat list \<Rightarrow> bool \<Rightarrow> circuit \<Rightarrow> (circuit_error, nat) result \<times> circuit" where
  "attach op inputs admit_unbounded c =
    (let i = length (ci_nodes c) in
     case check_wiring op inputs i admit_unbounded of
       Inl e \<Rightarrow> (Err e, c)
     | Inr _ \<Rightarrow>
        (case find (\<lambda>input. get_node (ci_nodes c) input = None) inputs of
           Some input \<Rightarrow> (Err (UnknownNode input), c)
         | None \<Rightarrow>
            (Ok i, c\<lparr>ci_admitted := (if admit_unbounded then insert i (ci_admitted c) else ci_admitted c),
               ci_nodes := ci_nodes c @ [Some (OperatorNode op inputs)], ci_emitted := ci_emitted c @ [0],
               ci_steps := ci_steps c @ [0]\<rparr>)))"

definition consumers :: "circuit \<Rightarrow> nat \<Rightarrow> nat list" where
  "consumers c i = filter (\<lambda>j. case ci_nodes c ! j of Some (OperatorNode _ inputs) \<Rightarrow> i \<in> set inputs | _ \<Rightarrow> False)
    [0..<length (ci_nodes c)]"

definition drop_source :: "nat \<Rightarrow> node \<Rightarrow> (string, nat list) btree \<Rightarrow> (string, nat list) btree" where
  "drop_source i n m = (case n of
      SourceNode _ alias _ \<Rightarrow>
        (case bt_get m alias of
           None \<Rightarrow> m
         | Some ids \<Rightarrow> (let kept = filter (\<lambda>h. h \<noteq> i) ids in
             if kept = [] then bt_remove alias m else bt_insert alias kept m))
    | OperatorNode _ _ \<Rightarrow> m)"

definition remove :: "nat \<Rightarrow> circuit \<Rightarrow> (circuit_error, unit) result \<times> circuit" where
  "remove i c =
    (case node_at c i of
       Inl e \<Rightarrow> (Err e, c)
     | Inr n \<Rightarrow>
        (case consumers c i of
           consumer # _ \<Rightarrow> (Err (NodeStillConsumed i consumer), c)
         | [] \<Rightarrow>
            (if \<exists>s \<in> set (ci_sinks c). (case s of Some sk \<Rightarrow> sk_node sk = i | None \<Rightarrow> False)
             then (Err (NodeStillConsumed i i), c)
             else (Ok (), c\<lparr>ci_sources := drop_source i n (ci_sources c), ci_nodes := (ci_nodes c)[i := None],
                     ci_admitted := ci_admitted c - {i}\<rparr>))))"

definition add_sink :: "nat \<Rightarrow> circuit \<Rightarrow> (circuit_error, nat) result \<times> circuit" where
  "add_sink i c =
    (case bindR (node_output_schema c i) (\<lambda>s. bindR (ancestors_of c i) (\<lambda>anc.
          bindR (map_err CircuitOp error_schema) (\<lambda>es. Ok (s, anc, es)))) of
       Inl e \<Rightarrow> (Err e, c)
     | Inr (s, anc, es) \<Rightarrow>
        (Ok (length (ci_sinks c)), c\<lparr>ci_sinks := ci_sinks c @
          [Some \<lparr>sk_node = i, sk_result = store_new s, sk_errors = store_new es, sk_ancestors = anc\<rparr>]\<rparr>))"

definition remove_sink :: "nat \<Rightarrow> circuit \<Rightarrow> (circuit_error, unit) result \<times> circuit" where
  "remove_sink i c =
    (case nth_opt (ci_sinks c) i of
       Some (Some _) \<Rightarrow> (Ok (), c\<lparr>ci_sinks := (ci_sinks c)[i := None]\<rparr>)
     | _ \<Rightarrow> (Err (UnknownSink i), c))"

definition refresh_ancestors :: "nat \<Rightarrow> circuit \<Rightarrow> (circuit_error, unit) result \<times> circuit" where
  "refresh_ancestors i c =
    (case bindR (sink_at c i) (\<lambda>s. bindR (ancestors_of c (sk_node s)) (\<lambda>anc. Ok (s, anc))) of
       Inl e \<Rightarrow> (Err e, c)
     | Inr (s, anc) \<Rightarrow> (Ok (), c\<lparr>ci_sinks := (ci_sinks c)[i := Some (s\<lparr>sk_ancestors := anc\<rparr>)]\<rparr>))"

definition repoint_sink :: "nat \<Rightarrow> nat \<Rightarrow> circuit \<Rightarrow> (circuit_error, unit) result \<times> circuit" where
  "repoint_sink i n c =
    (case bindR (node_output_schema c n) (\<lambda>sch. bindR (sink_at c i) (\<lambda>s.
          if rs_schema (sk_result s) \<noteq> sch
          then Err (SinkSchemaMismatch (schema_to_string (rs_schema (sk_result s))) (schema_to_string sch))
          else Ok s)) of
       Inl e \<Rightarrow> (Err e, c)
     | Inr s \<Rightarrow> refresh_ancestors i (c\<lparr>ci_sinks := (ci_sinks c)[i := Some (s\<lparr>sk_node := n\<rparr>)]\<rparr>))"

fun rewire_node :: "nat \<Rightarrow> nat \<Rightarrow> nat \<Rightarrow> circuit \<times> nat \<Rightarrow> (circuit_error, unit) result \<times> (circuit \<times> nat)" where
  "rewire_node frm dest index (c, moved) =
    (case get_node (ci_nodes c) index of
       Some (OperatorNode op inputs) \<Rightarrow>
         if frm \<notin> set inputs then (Ok (), (c, moved))
         else if index \<le> dest then (Err (NodeOutOfOrder index dest), (c, moved))
         else (Ok (), (c\<lparr>ci_nodes := (ci_nodes c)[index :=
                Some (OperatorNode op (map (\<lambda>i. if i = frm then dest else i) inputs))]\<rparr>,
              moved + count_list inputs frm))
     | _ \<Rightarrow> (Ok (), (c, moved)))"

definition rewire_inputs :: "nat \<Rightarrow> nat \<Rightarrow> circuit \<Rightarrow> (circuit_error, nat) result \<times> circuit" where
  "rewire_inputs frm dest c =
    (case bindR (node_output_schema c dest) (\<lambda>offered. bindR (node_output_schema c frm) (\<lambda>held.
          if offered \<noteq> held then Err (SinkSchemaMismatch (schema_to_string held) (schema_to_string offered))
          else Ok ())) of
       Inl e \<Rightarrow> (Err e, c)
     | Inr _ \<Rightarrow>
        (case loopM (rewire_node frm dest) [0..<length (ci_nodes c)] (c, 0) of
           (Inl e, (c', _)) \<Rightarrow> (Err e, c')
         | (Inr _, (c', moved)) \<Rightarrow> (Ok moved, c')))"

definition bump :: "nat \<Rightarrow> (nat, nat) btree \<Rightarrow> (nat, nat) btree" where
  "bump i m = bt_insert i (bt_get_or 0 m i + 1) m"

definition reference_counts :: "circuit \<Rightarrow> (nat, nat) btree" where
  "reference_counts c =
    (let live = foldl (\<lambda>m i. if get_node (ci_nodes c) i \<noteq> None then bt_insert i (bt_get_or 0 m i) m else m) []
           [0..<length (ci_nodes c)];
         edges = foldl (\<lambda>m n. case n of Some nd \<Rightarrow> foldl (\<lambda>m i. bump i m) m (node_inputs nd) | None \<Rightarrow> m) live (ci_nodes c)
     in foldl (\<lambda>m s. case s of Some sk \<Rightarrow> bump (sk_node sk) m | None \<Rightarrow> m) edges (ci_sinks c))"

definition live_nodes :: "circuit \<Rightarrow> nat" where
  "live_nodes c = length (filter (\<lambda>n. n \<noteq> None) (ci_nodes c))"

definition live_sinks :: "circuit \<Rightarrow> nat" where
  "live_sinks c = length (filter (\<lambda>s. s \<noteq> None) (ci_sinks c))"

fun node_state_size :: "node \<Rightarrow> nat" where
  "node_state_size (SourceNode _ _ _) = 0"
| "node_state_size (OperatorNode op _) = op_state_size op"

definition total_state_size :: "circuit \<Rightarrow> nat" where
  "total_state_size c = sum_list (map (\<lambda>n. case n of Some nd \<Rightarrow> node_state_size nd | None \<Rightarrow> 0) (ci_nodes c))"

definition operator_steps :: "circuit \<Rightarrow> int" where
  "operator_steps c = sum_list (map (\<lambda>i. case get_node (ci_nodes c) i of
      Some (OperatorNode _ _) \<Rightarrow> (case nth_opt (ci_steps c) i of Some n \<Rightarrow> n | None \<Rightarrow> 0) | _ \<Rightarrow> 0)
    [0..<length (ci_nodes c)])"

section \<open>Accounting of declared state\<close>

definition emitted_at :: "circuit \<Rightarrow> nat \<Rightarrow> (circuit_error, int) result" where
  "emitted_at c i = ok_or (nth_opt (ci_emitted c) i) (UnknownNode i)"

definition state_budget :: "circuit \<Rightarrow> state_bound \<Rightarrow> nat list \<Rightarrow> string \<Rightarrow> (circuit_error, int) result" where
  "state_budget c declared inputs op =
    (case declared of
       Stateless \<Rightarrow> Ok 0
     | ProportionalToInputs _ factor constant \<Rightarrow>
         bindR (foldR (\<lambda>tot i. bindR (emitted_at c i) (\<lambda>n. Ok (sat_add tot n))) 0 inputs)
           (\<lambda>tot. Ok (sat_add (sat_mul tot (int factor)) (int constant)))
     | Unbounded reason \<Rightarrow> Err (UnboundedStateNotAdmissible op reason))"

definition is_unbounded :: "state_bound \<Rightarrow> bool" where
  "is_unbounded b = (case b of Unbounded _ \<Rightarrow> True | _ \<Rightarrow> False)"

definition check_declaration :: "circuit \<Rightarrow> nat \<Rightarrow> (circuit_error, unit) result" where
  "check_declaration c i =
    (case get_node (ci_nodes c) i of
       Some (OperatorNode op inputs) \<Rightarrow>
         if is_unbounded (op_state_bound op) \<and> i \<in> ci_admitted c then Ok ()
         else bindR (state_budget c (op_state_bound op) inputs (op_name op)) (\<lambda>budget.
           if int (op_state_size op) > budget
           then Err (StateBoundViolated (op_name op) (op_state_bound op) (op_state_size op) budget)
           else Ok ())
     | _ \<Rightarrow> Ok ())"

definition check_state_declarations :: "circuit \<Rightarrow> (circuit_error, unit) result" where
  "check_state_declarations c = foldR (\<lambda>_ i. check_declaration c i) () [0..<length (ci_nodes c)]"

record node_state =
  ns_operator :: string
  ns_declared :: state_bound
  ns_entries :: nat
  ns_budget :: "int option"
  ns_backends :: nat

definition node_state_of :: "circuit \<Rightarrow> nat \<Rightarrow> (circuit_error, node_state option) result" where
  "node_state_of c i = bindR (node_at c i) (\<lambda>n. case n of
      SourceNode _ _ _ \<Rightarrow> Ok None
    | OperatorNode op inputs \<Rightarrow>
        bindR (if is_unbounded (op_state_bound op) \<and> i \<in> ci_admitted c then Ok None
               else bindR (state_budget c (op_state_bound op) inputs (op_name op)) (\<lambda>b. Ok (Some b)))
          (\<lambda>budget. Ok (Some \<lparr>ns_operator = op_name op, ns_declared = op_state_bound op,
             ns_entries = op_state_size op, ns_budget = budget, ns_backends = op_backend_count op\<rparr>)))"

section \<open>One pass of the DAG\<close>

definition source_batch :: "schema \<Rightarrow> entries \<Rightarrow> (circuit_error, zset_batch) result" where
  "source_batch s es = map_err CircuitZSet (from_entries s es)"

definition input_batch :: "zset_batch option list \<Rightarrow> nat \<Rightarrow> (circuit_error, zset_batch) result" where
  "input_batch outputs i = (case nth_opt outputs i of Some (Some b) \<Rightarrow> Ok b | _ \<Rightarrow> Err (UnknownNode i))"

definition included :: "nat list option \<Rightarrow> nat \<Rightarrow> bool" where
  "included only i = (case only of None \<Rightarrow> True | Some ids \<Rightarrow> i \<in> set ids)"

definition count_emitted :: "nat \<Rightarrow> zset_batch \<Rightarrow> circuit \<Rightarrow> circuit" where
  "count_emitted i b c = c\<lparr>
     ci_emitted := (case nth_opt (ci_emitted c) i of
         Some n \<Rightarrow> (ci_emitted c)[i := sat_add n (int (zb_len b))] | None \<Rightarrow> ci_emitted c),
     ci_steps := (case nth_opt (ci_steps c) i of
         Some n \<Rightarrow> (ci_steps c)[i := sat_add n 1] | None \<Rightarrow> ci_steps c)\<rparr>"

type_synonym pass_state = "circuit \<times> zset_batch option list \<times> (nat \<times> zset_batch) list"

fun pass_node :: "epoch_deltas \<Rightarrow> nat list option \<Rightarrow> nat \<Rightarrow> pass_state \<Rightarrow> (circuit_error, unit) result \<times> pass_state" where
  "pass_node deltas only i (c, outputs, errors) =
    (case (included only i, get_node (ci_nodes c) i) of
       (True, Some (SourceNode table _ s)) \<Rightarrow>
         (case source_batch s (entries_for deltas table) of
            Inl e \<Rightarrow> (Err e, (c, outputs, errors))
          | Inr b \<Rightarrow> (Ok (), (count_emitted i b c, outputs @ [Some b], errors)))
     | (True, Some (OperatorNode op inputs)) \<Rightarrow>
         (case mapR (input_batch outputs) inputs of
            Inl e \<Rightarrow> (Err e, (c, outputs, errors))
          | Inr batches \<Rightarrow>
             (case op_step op batches of (res, op') \<Rightarrow>
               (let c' = c\<lparr>ci_nodes := (ci_nodes c)[i := Some (OperatorNode op' inputs)]\<rparr> in
                case res of
                  Inl e \<Rightarrow> (Err (CircuitOp e), (c', outputs, errors))
                | Inr out \<Rightarrow> (Ok (), (count_emitted i (so_data out) c', outputs @ [Some (so_data out)],
                    errors @ [(i, so_errors out)])))))
     | _ \<Rightarrow> (Ok (), (c, outputs @ [None], errors)))"

definition update_sink :: "nat \<Rightarrow> (sink \<Rightarrow> (circuit_error, unit) result \<times> sink) \<Rightarrow> circuit
    \<Rightarrow> (circuit_error, unit) result \<times> circuit" where
  "update_sink i f c =
    (case nth_opt (ci_sinks c) i of
       Some (Some s) \<Rightarrow> (case f s of (res, s') \<Rightarrow> (res, c\<lparr>ci_sinks := (ci_sinks c)[i := Some s']\<rparr>))
     | _ \<Rightarrow> (Ok (), c))"

definition absorb_result :: "zset_batch option list \<Rightarrow> sink \<Rightarrow> (circuit_error, unit) result \<times> sink" where
  "absorb_result outputs s =
    (case nth_opt outputs (sk_node s) of
       Some (Some delta) \<Rightarrow> (case absorb delta (sk_result s) of (res, st) \<Rightarrow> (res, s\<lparr>sk_result := st\<rparr>))
     | _ \<Rightarrow> (Ok (), s))"

definition absorb_error :: "nat \<times> zset_batch \<Rightarrow> sink \<Rightarrow> (circuit_error, unit) result \<times> sink" where
  "absorb_error e s =
    (if fst e \<in> sk_ancestors s
     then (case absorb (snd e) (sk_errors s) of (res, st) \<Rightarrow> (res, s\<lparr>sk_errors := st\<rparr>))
     else (Ok (), s))"

definition absorb_results :: "zset_batch option list \<Rightarrow> circuit \<Rightarrow> (circuit_error, unit) result \<times> circuit" where
  "absorb_results outputs c = loopM (\<lambda>i. update_sink i (absorb_result outputs)) [0..<length (ci_sinks c)] c"

definition absorb_errors :: "nat \<times> zset_batch \<Rightarrow> circuit \<Rightarrow> (circuit_error, unit) result \<times> circuit" where
  "absorb_errors e c = loopM (\<lambda>i. update_sink i (absorb_error e)) [0..<length (ci_sinks c)] c"

definition pass :: "epoch_deltas \<Rightarrow> nat list option \<Rightarrow> circuit \<Rightarrow> (circuit_error, unit) result \<times> circuit" where
  "pass deltas only c =
    (case loopM (pass_node deltas only) [0..<length (ci_nodes c)] (c, [], []) of
       (Inl e, (c1, _, _)) \<Rightarrow> (Err e, c1)
     | (Inr _, (c1, outputs, errors)) \<Rightarrow>
        (case check_state_declarations c1 of
           Inl e \<Rightarrow> (Err e, c1)
         | Inr _ \<Rightarrow>
            (case absorb_results outputs c1 of
               (Inl e, c2) \<Rightarrow> (Err e, c2)
             | (Inr _, c2) \<Rightarrow> loopM absorb_errors errors c2)))"

definition catch_up :: "epoch_deltas \<Rightarrow> nat list \<Rightarrow> circuit \<Rightarrow> (circuit_error, unit) result \<times> circuit" where
  "catch_up deltas ids c = pass deltas (Some ids) c"

definition prime :: "circuit \<Rightarrow> (circuit_error, unit) result \<times> circuit" where
  "prime c = pass [] None c"

definition set_epoch :: "nat \<Rightarrow> circuit \<Rightarrow> (circuit_error, unit) result \<times> circuit" where
  "set_epoch e c = (if e < ci_epoch c then (Err (EpochWouldGoBackwards (ci_epoch c) e), c)
                    else (Ok (), c\<lparr>ci_epoch := e\<rparr>))"

definition step :: "epoch_deltas \<Rightarrow> circuit \<Rightarrow> (circuit_error, nat) result \<times> circuit" where
  "step deltas c =
    (case pass deltas None c of
       (Inl e, c') \<Rightarrow> (Err e, c')
     | (Inr _, c') \<Rightarrow> (Ok (ci_epoch c' + 1), c'\<lparr>ci_epoch := ci_epoch c' + 1\<rparr>))"

section \<open>The builder\<close>

record circuit_builder =
  cb_nodes :: "node list"
  cb_sources :: "(string, nat) btree"

definition builder_new :: circuit_builder where
  "builder_new = \<lparr>cb_nodes = [], cb_sources = []\<rparr>"

definition builder_source :: "string \<Rightarrow> string \<Rightarrow> schema \<Rightarrow> circuit_builder
    \<Rightarrow> (circuit_error, nat \<times> circuit_builder) result" where
  "builder_source table alias s b =
    (if bt_get (cb_sources b) alias \<noteq> None then Err (DuplicateSource alias)
     else let i = length (cb_nodes b) in
       Ok (i, b\<lparr>cb_nodes := cb_nodes b @ [SourceNode table alias s], cb_sources := bt_insert alias i (cb_sources b)\<rparr>))"

definition builder_add :: "operator \<Rightarrow> nat list \<Rightarrow> circuit_builder \<Rightarrow> (circuit_error, nat \<times> circuit_builder) result" where
  "builder_add op inputs b =
    (let i = length (cb_nodes b) in
     bindR (check_wiring op inputs i False) (\<lambda>_. Ok (i, b\<lparr>cb_nodes := cb_nodes b @ [OperatorNode op inputs]\<rparr>)))"

definition build :: "nat \<Rightarrow> circuit_builder \<Rightarrow> (circuit_error, circuit) result" where
  "build root b =
    (if cb_nodes b = [] then Err EmptyCircuit
     else let n = length (cb_nodes b);
              c = \<lparr>ci_nodes = map Some (cb_nodes b), ci_sources = map (\<lambda>(alias, i). (alias, [i])) (cb_sources b),
                ci_sinks = [], ci_epoch = 0, ci_emitted = replicate n 0, ci_steps = replicate n 0, ci_admitted = {}\<rparr>
       in case add_sink root c of
            (Inl e, _) \<Rightarrow> Err e
          | (Inr _, c1) \<Rightarrow> (case prime c1 of (Inl e, _) \<Rightarrow> Err e | (Inr _, c2) \<Rightarrow> Ok c2))"

end
