(* ===== verification/Circuit_Props.thy ===== *)
theory Circuit_Props
  imports Circuit
begin

text \<open>
  What a pass does. Every node carries a history: all the entries it has ever emitted. The circuit
  invariant says that each operator is in the state its input histories determine, that the
  accumulated output of every node is what its contract says of those histories, that the emission
  ledger counts the histories, and that every sink holds the integral of its node's stream and of the
  error streams of the node's ancestors. A successful pass extends the histories and keeps the
  invariant.
\<close>

section \<open>What the node loop did\<close>

definition ents :: "zset_batch \<Rightarrow> entries" where
  "ents b = (case zb_entries b of Inr es \<Rightarrow> es | Inl _ \<Rightarrow> [])"

lemma ents_holds: "holds s b es \<Longrightarrow> ents b = es"
  by (simp add: ents_def holds_entries)

definition delta_of :: "zset_batch option list \<Rightarrow> nat \<Rightarrow> entries" where
  "delta_of outputs i = (case nth_opt outputs i of Some (Some b) \<Rightarrow> ents b | _ \<Rightarrow> [])"

definition errs_of :: "(nat \<times> zset_batch) list \<Rightarrow> nat \<Rightarrow> entries" where
  "errs_of errors i = (case map_of errors i of Some b \<Rightarrow> ents b | None \<Rightarrow> [])"

definition stepped :: "nat list option \<Rightarrow> circuit \<Rightarrow> nat \<Rightarrow> bool" where
  "stepped only c i \<longleftrightarrow> included only i \<and> get_node (ci_nodes c) i \<noteq> None"

text \<open>The outcome at one node: the node, its output, its error delta and its ledger entry.\<close>

definition node_outcome :: "epoch_deltas \<Rightarrow> nat list option \<Rightarrow> circuit \<Rightarrow> pass_state \<Rightarrow> nat \<Rightarrow> bool" where
  "node_outcome deltas only c st i \<longleftrightarrow> (case st of (c', outputs, errors) \<Rightarrow>
    (if \<not> stepped only c i
     then ci_nodes c' ! i = ci_nodes c ! i \<and> outputs ! i = None \<and> map_of errors i = None
       \<and> ci_emitted c' ! i = ci_emitted c ! i
     else \<exists>b. outputs ! i = Some b \<and> ci_emitted c' ! i = sat_add (ci_emitted c ! i) (int (zb_len b)) \<and>
       (case the (get_node (ci_nodes c) i) of
          SourceNode table alias s \<Rightarrow> ci_nodes c' ! i = ci_nodes c ! i \<and> map_of errors i = None
            \<and> source_batch s (entries_for deltas table) = Ok b
        | OperatorNode op inputs \<Rightarrow> \<exists>batches out op'. list_all2 (\<lambda>j x. j < i \<and> outputs ! j = Some x) inputs batches
            \<and> op_step op batches = (Ok out, op') \<and> ci_nodes c' ! i = Some (OperatorNode op' inputs)
            \<and> b = so_data out \<and> map_of errors i = Some (so_errors out))))"

definition loop_state :: "epoch_deltas \<Rightarrow> nat list option \<Rightarrow> circuit \<Rightarrow> nat \<Rightarrow> pass_state \<Rightarrow> bool" where
  "loop_state deltas only c k st \<longleftrightarrow> (case st of (c', outputs, errors) \<Rightarrow>
    length outputs = k \<and> length (ci_nodes c') = length (ci_nodes c) \<and> length (ci_emitted c') = length (ci_emitted c)
    \<and> ci_sinks c' = ci_sinks c \<and> ci_sources c' = ci_sources c \<and> ci_epoch c' = ci_epoch c \<and> ci_admitted c' = ci_admitted c
    \<and> distinct (map fst errors) \<and> (\<forall>e \<in> set errors. fst e < k)
    \<and> (\<forall>i < length (ci_nodes c). k \<le> i \<longrightarrow> ci_nodes c' ! i = ci_nodes c ! i \<and> ci_emitted c' ! i = ci_emitted c ! i)
    \<and> (\<forall>i < k. node_outcome deltas only c st i))"

lemma get_node_cong: "i < length ns \<Longrightarrow> length ns = length ms \<Longrightarrow> ns ! i = ms ! i \<Longrightarrow> get_node ns i = get_node ms i"
  by (simp add: get_node_def)

lemma get_node_Some: "get_node ns i = Some n \<longleftrightarrow> i < length ns \<and> ns ! i = Some n"
  by (auto simp: get_node_def nth_opt_def split: option.splits)

lemma count_emitted_simps [simp]:
  "ci_nodes (count_emitted i b c) = ci_nodes c" "ci_sinks (count_emitted i b c) = ci_sinks c"
  "ci_sources (count_emitted i b c) = ci_sources c" "ci_epoch (count_emitted i b c) = ci_epoch c"
  "ci_admitted (count_emitted i b c) = ci_admitted c"
  "length (ci_emitted (count_emitted i b c)) = length (ci_emitted c)"
  by (simp_all add: count_emitted_def split: option.splits)

lemma count_emitted_nth:
  "j < length (ci_emitted c) \<Longrightarrow> ci_emitted (count_emitted i b c) ! j
    = (if j = i then sat_add (ci_emitted c ! i) (int (zb_len b)) else ci_emitted c ! j)"
  by (auto simp: count_emitted_def nth_opt_def nth_list_update)

text \<open>An outcome depends on the outputs up to its node only, so later nodes do not disturb it.\<close>

lemma node_outcome_mono:
  assumes "node_outcome deltas only c (c1, outs, errs) i" "i < length outs"
    and "ci_nodes c2 ! i = ci_nodes c1 ! i" "ci_emitted c2 ! i = ci_emitted c1 ! i"
    and "map_of errs2 i = map_of errs i"
  shows "node_outcome deltas only c (c2, outs @ rest, errs2) i"
proof -
  have "list_all2 (\<lambda>j x. j < i \<and> (outs @ rest) ! j = Some x) js bs"
    if "list_all2 (\<lambda>j x. j < i \<and> outs ! j = Some x) js bs" for js bs
    using that by (rule list_all2_mono) (use assms(2) in \<open>auto simp: nth_append\<close>)
  note inputs = this
  show ?thesis
  proof (cases "stepped only c i")
    case False
    then show ?thesis using assms by (simp add: node_outcome_def nth_append)
  next
    case True
    then obtain n where n: "get_node (ci_nodes c) i = Some n" by (auto simp: stepped_def)
    show ?thesis
    proof (cases n)
      case (SourceNode table al s)
      then show ?thesis using assms True n by (simp add: node_outcome_def nth_append)
    next
      case (OperatorNode op ins)
      then obtain bs out op' where "list_all2 (\<lambda>j x. j < i \<and> outs ! j = Some x) ins bs" "op_step op bs = (Ok out, op')"
          "ci_nodes c1 ! i = Some (OperatorNode op' ins)" "outs ! i = Some (so_data out)"
          "map_of errs i = Some (so_errors out)"
          "ci_emitted c1 ! i = sat_add (ci_emitted c ! i) (int (zb_len (so_data out)))"
        using assms(1) True n by (auto simp: node_outcome_def)
      then show ?thesis
        using assms True n OperatorNode inputs [of ins bs] by (auto simp: node_outcome_def nth_append)
    qed
  qed
qed

lemma input_batches:
  assumes "mapR (input_batch outs) ins = Ok bs"
  shows "list_all2 (\<lambda>j x. j < length outs \<and> outs ! j = Some x) ins bs"
  using assms
  by (auto simp: mapR_eq_Ok input_batch_def nth_opt_def split: option.splits if_splits elim!: list_all2_mono)

lemma loop_state_extend:
  assumes st: "loop_state deltas only c k (c1, outs, errs)" and k: "k < length (ci_nodes c)" "length (ci_emitted c) = length (ci_nodes c)"
    and frame: "ci_sinks c2 = ci_sinks c1" "ci_sources c2 = ci_sources c1" "ci_epoch c2 = ci_epoch c1" "ci_admitted c2 = ci_admitted c1"
      "length (ci_nodes c2) = length (ci_nodes c1)" "length (ci_emitted c2) = length (ci_emitted c1)"
    and others: "\<And>i. i \<noteq> k \<Longrightarrow> i < length (ci_nodes c) \<Longrightarrow> ci_nodes c2 ! i = ci_nodes c1 ! i \<and> ci_emitted c2 ! i = ci_emitted c1 ! i"
    and errs: "errs2 = errs \<or> (\<exists>b. errs2 = errs @ [(k, b)])"
    and outcome: "node_outcome deltas only c (c2, outs @ [x], errs2) k"
  shows "loop_state deltas only c (Suc k) (c2, outs @ [x], errs2)"
proof -
  have len: "length outs = k" and fresh: "\<forall>e \<in> set errs. fst e < k"
    using st by (auto simp: loop_state_def)
  have "map_of errs2 i = map_of errs i" if "i < k" for i
    using errs that by (auto simp: map_add_def split: option.splits)
  then have "node_outcome deltas only c (c2, outs @ [x], errs2) i" if "i < k" for i
    using that st others [of i] k len by (intro node_outcome_mono [of deltas only c c1 outs errs i]) (auto simp: loop_state_def)
  then have "\<forall>i < Suc k. node_outcome deltas only c (c2, outs @ [x], errs2) i"
    using outcome less_Suc_eq by auto
  moreover have "\<forall>e \<in> set errs2. fst e < Suc k" "k \<notin> fst ` set errs"
    using errs fresh by (fastforce, force)
  moreover from this have "distinct (map fst errs2)" using errs st by (auto simp: loop_state_def)
  ultimately show ?thesis
    using st frame others k by (auto simp: loop_state_def)
qed

lemma pass_node_Ok:
  assumes st: "loop_state deltas only c k (c1, outs, errs)" and k: "k < length (ci_nodes c)" "length (ci_emitted c) = length (ci_nodes c)"
    and step: "pass_node deltas only k (c1, outs, errs) = (Ok (), st')"
  shows "loop_state deltas only c (Suc k) st'"
proof -
  have len: "length outs = k" and same: "ci_nodes c1 ! k = ci_nodes c ! k" "ci_emitted c1 ! k = ci_emitted c ! k"
    and lens: "length (ci_nodes c1) = length (ci_nodes c)" "length (ci_emitted c1) = length (ci_nodes c)"
    and none: "map_of errs k = None"
    using st k by (auto simp: loop_state_def map_of_eq_None_iff)
  have node: "get_node (ci_nodes c1) k = get_node (ci_nodes c) k"
    by (rule get_node_cong) (use k lens same in simp_all)
  have at_k: "(outs @ [x]) ! k = x" for x using len by (simp add: nth_append)
  note extend = loop_state_extend [OF st k]
  show ?thesis
  proof (cases "stepped only c k")
    case False
    then have "st' = (c1, outs @ [None], errs)"
      using step node by (auto simp: stepped_def split: option.splits bool.splits)
    moreover have "node_outcome deltas only c (c1, outs @ [None], errs) k"
      using False same at_k none by (simp add: node_outcome_def)
    ultimately show ?thesis using extend [of c1 errs None] by simp
  next
    case True
    then obtain n where n: "get_node (ci_nodes c) k = Some n" and inc: "included only k" by (auto simp: stepped_def)
    show ?thesis
    proof (cases n)
      case (SourceNode table al s)
      then obtain b where b: "source_batch s (entries_for deltas table) = Ok b"
        and st': "st' = (count_emitted k b c1, outs @ [Some b], errs)"
        using step node n inc by (auto split: sum.splits)
      have "node_outcome deltas only c (count_emitted k b c1, outs @ [Some b], errs) k"
        using True same at_k none n SourceNode b lens k by (simp add: node_outcome_def count_emitted_nth)
      then show ?thesis unfolding st' using lens k by (intro extend) (auto simp: count_emitted_nth)
    next
      case (OperatorNode op ins)
      then obtain bs out op' where bs: "mapR (input_batch outs) ins = Ok bs" "op_step op bs = (Ok out, op')"
        and st': "st' = (count_emitted k (so_data out) (c1\<lparr>ci_nodes := (ci_nodes c1)[k := Some (OperatorNode op' ins)]\<rparr>),
          outs @ [Some (so_data out)], errs @ [(k, so_errors out)])"
        using step node n inc by (auto simp: Let_def split: sum.splits prod.splits)
      have "list_all2 (\<lambda>j x. j < k \<and> (outs @ [Some (so_data out)]) ! j = Some x) ins bs"
        using input_batches [OF bs(1)] by (rule list_all2_mono) (auto simp: nth_append len)
      then have "node_outcome deltas only c st' k"
        using True same at_k none n OperatorNode bs(2) lens k by (auto simp: node_outcome_def st' count_emitted_nth map_add_def)
      then show ?thesis unfolding st' using lens k by (intro extend) (auto simp: count_emitted_nth)
    qed
  qed
qed

lemma loop_state_start: "loop_state deltas only c 0 (c, [], [])"
  by (simp add: loop_state_def)

lemma node_loop_Ok:
  assumes "loopM (pass_node deltas only) [0..<k] (c, [], []) = (Ok (), st)"
    "k \<le> length (ci_nodes c)" "length (ci_emitted c) = length (ci_nodes c)"
  shows "loop_state deltas only c k st"
  using assms
proof (induction k arbitrary: st)
  case (Suc k)
  obtain st1 where st1: "loopM (pass_node deltas only) [0..<k] (c, [], []) = (Ok (), st1)"
      "pass_node deltas only k st1 = (Ok (), st)"
    using Suc.prems(1) by (auto simp: loopM_snoc_Ok simp del: pass_node.simps)
  have "loop_state deltas only c k st1" using Suc.IH [OF st1(1)] Suc.prems by simp
  then show ?case using pass_node_Ok [of deltas only c k] st1(2) Suc.prems by (cases st1) auto
qed (simp add: loop_state_start)

section \<open>The invariant of a node\<close>

definition node_ok :: "node option list \<Rightarrow> (nat \<Rightarrow> entries) \<Rightarrow> (nat \<Rightarrow> entries) \<Rightarrow> nat \<Rightarrow> bool" where
  "node_ok ns H E i \<longleftrightarrow> (case get_node ns i of
      None \<Rightarrow> True
    | Some (SourceNode _ _ s) \<Rightarrow> schema_ok s \<and> E i = []
    | Some (OperatorNode op ins) \<Rightarrow>
        list_all2 (\<lambda>j s. j < i \<and> (\<exists>n. get_node ns j = Some n \<and> node_schema n = s)) ins (op_in_schemas op)
        \<and> op_inv op (map H ins) \<and> (\<forall>r. zw (H i) r = op_out op (map H ins) r)
        \<and> (\<forall>r. zw (E i) r = op_errs op (map H ins) r))"

definition closed_subset :: "nat list option \<Rightarrow> node option list \<Rightarrow> bool" where
  "closed_subset only ns \<longleftrightarrow> (\<forall>i op ins. get_node ns i = Some (OperatorNode op ins) \<longrightarrow> \<not> included only i
    \<longrightarrow> (\<forall>j \<in> set ins. \<not> included only j))"

lemma closed_subset_None [simp]: "closed_subset None ns"
  by (simp add: closed_subset_def included_def)

lemma extend_histories_map: "extend_histories (map f xs) (map g xs) = map (\<lambda>x. f x @ g x) xs"
  by (induction xs) (simp_all add: extend_histories_def)

lemma inputs_hold_list_all2:
  "inputs_hold ss bs ds \<longleftrightarrow> length ss = length bs \<and> length bs = length ds
    \<and> (\<forall>i < length ss. holds (ss ! i) (bs ! i) (ds ! i))"
proof (induction ss bs ds rule: inputs_hold.induct)
  case (2 s ss b bs d ds)
  then show ?case by (auto simp: nth_Cons split: nat.splits)
qed auto

text \<open>What the loop leaves of a live node, whether it was stepped or not.\<close>

fun node_config :: "node \<Rightarrow> node" where
  "node_config (SourceNode t a s) = SourceNode t a s"
| "node_config (OperatorNode op ins) = OperatorNode (op_config op) ins"

lemma node_config_eq:
  assumes "node_config n' = node_config n"
  shows "node_schema n' = node_schema n" "node_inputs n' = node_inputs n"
proof -
  have "node_schema (node_config m) = node_schema m" "node_inputs (node_config m) = node_inputs m" for m by (cases m; simp)+
  then show "node_schema n' = node_schema n" "node_inputs n' = node_inputs n" using assms by metis+
qed

lemma node_config_source: "node_config n' = SourceNode t a s \<longleftrightarrow> n' = SourceNode t a s"
  by (cases n') auto

lemma outcome_config:
  assumes loop: "loop_state deltas only c (length (ci_nodes c)) (c', outs, errs)"
    and n: "get_node (ci_nodes c) i = Some n"
  obtains n' where "get_node (ci_nodes c') i = Some n'" "node_config n' = node_config n"
proof -
  have i: "i < length (ci_nodes c)" "ci_nodes c ! i = Some n" using n by (simp_all add: get_node_Some)
  then have out: "node_outcome deltas only c (c', outs, errs) i" and len: "length (ci_nodes c') = length (ci_nodes c)"
    using loop by (auto simp: loop_state_def)
  show ?thesis
  proof (cases "stepped only c i")
    case False
    then show ?thesis using out i len that [of n] by (simp add: node_outcome_def get_node_Some)
  next
    case True
    show ?thesis
    proof (cases n)
      case (SourceNode table al s)
      then show ?thesis using out True n i len that [of n] by (auto simp: node_outcome_def get_node_Some)
    next
      case (OperatorNode op ins)
      then obtain bs o' op' where step: "op_step op bs = (Ok o', op')" and n': "ci_nodes c' ! i = Some (OperatorNode op' ins)"
        using out True n by (auto simp: node_outcome_def)
      then show ?thesis using op_step_config [OF step] OperatorNode i len that [of "OperatorNode op' ins"]
        by (simp add: get_node_Some)
    qed
  qed
qed

lemma hole_outcome:
  assumes "loop_state deltas only c (length (ci_nodes c)) (c', outs, errs)" "get_node (ci_nodes c) i = None"
  shows "get_node (ci_nodes c') i = None"
proof (cases "i < length (ci_nodes c)")
  case True
  then have "node_outcome deltas only c (c', outs, errs) i" "length (ci_nodes c') = length (ci_nodes c)"
    using assms(1) by (auto simp: loop_state_def)
  then show ?thesis using assms(2) True by (simp add: node_outcome_def stepped_def get_node_def)
qed (use assms in \<open>auto simp: loop_state_def get_node_def nth_opt_def\<close>)

lemma unstepped_deltas:
  assumes "loop_state deltas only c (length (ci_nodes c)) (c', outs, errs)" "\<not> stepped only c i"
  shows "delta_of outs i = []" "errs_of errs i = []"
proof -
  have "(i < length (ci_nodes c) \<longrightarrow> outs ! i = None \<and> map_of errs i = None) \<and> length outs = length (ci_nodes c)"
    and "i \<ge> length (ci_nodes c) \<Longrightarrow> map_of errs i = None"
    using assms by (auto simp: loop_state_def node_outcome_def map_of_eq_None_iff)
  then show "delta_of outs i = []" "errs_of errs i = []"
    by (auto simp: delta_of_def errs_of_def nth_opt_def)
qed

text \<open>
  The step of one operator, given that the deltas of its inputs are what the input batches hold.
\<close>

lemma operator_outcome:
  assumes ok: "node_ok (ci_nodes c) H E i" and n: "get_node (ci_nodes c) i = Some (OperatorNode op ins)"
    and ins: "list_all2 (\<lambda>j x. \<exists>n. get_node (ci_nodes c) j = Some n \<and> holds (node_schema n) x (D j)) ins bs"
    and step: "op_step op bs = (Ok o', op')"
  obtains ds es where "holds (op_output_schema op) (so_data o') ds" "holds err_schema (so_errors o') es" "op_primed op'"
    "op_inv op' (map (\<lambda>j. H j @ D j) ins)"
    "\<And>r. zw (H i @ ds) r = op_out op' (map (\<lambda>j. H j @ D j) ins) r"
    "\<And>r. zw (E i @ es) r = op_errs op' (map (\<lambda>j. H j @ D j) ins) r"
proof -
  have inv: "op_inv op (map H ins)"
    and sch: "list_all2 (\<lambda>j s. j < i \<and> (\<exists>n. get_node (ci_nodes c) j = Some n \<and> node_schema n = s)) ins (op_in_schemas op)"
    and out: "\<And>r. zw (H i) r = op_out op (map H ins) r" "\<And>r. zw (E i) r = op_errs op (map H ins) r"
    using ok n by (simp_all add: node_ok_def)
  have hold: "inputs_hold (op_in_schemas op) bs (map D ins)"
    using sch ins by (fastforce simp: inputs_hold_list_all2 list_all2_conv_all_nth)
  note contract = dy.step_inv [OF inv hold step] dy.step_data [OF inv hold step] dy.step_errors [OF inv hold step]
  obtain ds where "holds (op_output_schema op) (so_data o') ds"
      "\<forall>r. zw ds r = op_out op' (map (\<lambda>j. H j @ D j) ins) r - op_out op (map H ins) r"
    using contract(2) by (auto simp: extend_histories_map)
  moreover obtain es where "holds err_schema (so_errors o') es"
      "\<forall>r. zw es r = op_errs op' (map (\<lambda>j. H j @ D j) ins) r - op_errs op (map H ins) r"
    using contract(3) by (auto simp: extend_histories_map)
  ultimately show ?thesis
    using that [of ds es] contract(1) out op_step_primed [OF inv hold step] by (simp add: extend_histories_map)
qed

lemma source_batch_holds: "source_batch s es = Ok b \<Longrightarrow> schema_ok s \<Longrightarrow> holds s b es"
  by (simp add: source_batch_def holds_def result_simps)

lemma unstepped_none:
  "loop_state deltas only c (length (ci_nodes c)) (c', outs, errs) \<Longrightarrow> j < length (ci_nodes c)
    \<Longrightarrow> \<not> stepped only c j \<Longrightarrow> outs ! j = None"
  by (auto simp: loop_state_def node_outcome_def)

lemma unstepped_node:
  assumes "loop_state deltas only c (length (ci_nodes c)) (c', outs, errs)" "\<not> stepped only c i"
  shows "get_node (ci_nodes c') i = get_node (ci_nodes c) i"
  using assms by (cases "i < length (ci_nodes c)") (auto simp: loop_state_def node_outcome_def get_node_def nth_opt_def)

lemma stepped_output:
  assumes loop: "loop_state deltas only c (length (ci_nodes c)) (c', outs, errs)" and "stepped only c i"
  obtains n b where "get_node (ci_nodes c) i = Some n" "i < length (ci_nodes c)" "nth_opt outs i = Some (Some b)"
    "delta_of outs i = ents b" "node_outcome deltas only c (c', outs, errs) i"
proof -
  obtain n where n: "get_node (ci_nodes c) i = Some n" "i < length (ci_nodes c)"
    using assms(2) by (auto simp: stepped_def get_node_Some)
  then have out: "node_outcome deltas only c (c', outs, errs) i" and len: "length outs = length (ci_nodes c)"
    using loop by (auto simp: loop_state_def)
  obtain b where "outs ! i = Some b" using out assms(2) by (auto simp: node_outcome_def)
  then show ?thesis using that n len out by (simp add: delta_of_def)
qed

lemma node_ok_cong:
  assumes "node_ok ns H E i" "get_node ns' i = get_node ns i" "H' i = H i" "E' i = E i"
    and "\<And>op ins j. get_node ns i = Some (OperatorNode op ins) \<Longrightarrow> j \<in> set ins \<Longrightarrow> H' j = H j"
    and "\<And>j n. get_node ns j = Some n \<Longrightarrow> \<exists>n'. get_node ns' j = Some n' \<and> node_schema n' = node_schema n"
  shows "node_ok ns' H' E' i"
proof (cases "get_node ns i")
  case (Some n)
  show ?thesis
  proof (cases n)
    case (OperatorNode op ins)
    have "map H' ins = map H ins" using assms(5) Some OperatorNode by simp
    moreover have "list_all2 (\<lambda>j s. j < i \<and> (\<exists>n. get_node ns' j = Some n \<and> node_schema n = s)) ins (op_in_schemas op)"
      using assms(1) Some OperatorNode
      by (auto simp: node_ok_def elim!: list_all2_mono) (use assms(6) in metis)
    ultimately show ?thesis using assms(1-4) Some OperatorNode by (simp add: node_ok_def del: map_eq_conv)
  qed (use assms(1-4) Some in \<open>simp add: node_ok_def\<close>)
qed (use assms(2) in \<open>simp add: node_ok_def\<close>)

lemma loop_semantics:
  assumes loop: "loop_state deltas only c (length (ci_nodes c)) (c', outs, errs)"
    and nodes: "\<And>i. node_ok (ci_nodes c) H E i" and closed: "closed_subset only (ci_nodes c)"
  shows "(stepped only c i \<longrightarrow> (\<exists>n b. get_node (ci_nodes c) i = Some n \<and> nth_opt outs i = Some (Some b)
        \<and> holds (node_schema n) b (delta_of outs i)
        \<and> (\<forall>e. map_of errs i = Some e \<longrightarrow> holds err_schema e (errs_of errs i))
        \<and> (\<forall>op ins. get_node (ci_nodes c') i = Some (OperatorNode op ins) \<longrightarrow> op_primed op)))
    \<and> node_ok (ci_nodes c') (\<lambda>i. H i @ delta_of outs i) (\<lambda>i. E i @ errs_of errs i) i"
    (is "(_ \<longrightarrow> ?D i) \<and> node_ok ?ns ?H ?E i")
proof (induction i rule: less_induct)
  case (less i)
  have schemas: "\<exists>n'. get_node ?ns j = Some n' \<and> node_schema n' = node_schema n" if "get_node (ci_nodes c) j = Some n" for j n
    using outcome_config [OF loop that] node_config_eq by metis
  show ?case
  proof (cases "stepped only c i")
    case False
    note same = unstepped_node [OF loop False]
    have ins: "?H j = H j" if "get_node (ci_nodes c) i = Some (OperatorNode op ins)" "j \<in> set ins" for op ins j
    proof -
      have "\<not> included only i" using False that(1) by (simp add: stepped_def)
      then have "\<not> stepped only c j" using closed that by (auto simp: closed_subset_def stepped_def)
      then show ?thesis using unstepped_deltas [OF loop] by simp
    qed
    show ?thesis
      using False node_ok_cong [OF nodes same _ _ ins schemas, of ?E] unstepped_deltas [OF loop False] by simp
  next
    case True
    obtain n b where n: "get_node (ci_nodes c) i = Some n" "i < length (ci_nodes c)" and b: "nth_opt outs i = Some (Some b)"
      "delta_of outs i = ents b" and out: "node_outcome deltas only c (c', outs, errs) i"
      using stepped_output [OF loop True] .
    have bi: "outs ! i = Some b" using b(1) by (auto simp: result_simps)
    have len: "length ?ns = length (ci_nodes c)" using loop by (simp add: loop_state_def)
    show ?thesis
    proof (cases n)
      case (SourceNode table al s)
      then have sch: "schema_ok s" "E i = []" using nodes [of i] n by (auto simp: node_ok_def)
      have src: "source_batch s (entries_for deltas table) = Ok b" "map_of errs i = None" "get_node ?ns i = Some n"
        using out True n SourceNode bi len by (auto simp: node_outcome_def get_node_Some)
      note hb = source_batch_holds [OF src(1) sch(1)]
      show ?thesis
        using src sch hb n b SourceNode ents_holds [OF hb] by (auto simp: node_ok_def errs_of_def)
    next
      case (OperatorNode op ins)
      then obtain bs o' op' where ins: "list_all2 (\<lambda>j x. j < i \<and> outs ! j = Some x) ins bs"
          and step: "op_step op bs = (Ok o', op')" and n': "get_node ?ns i = Some (OperatorNode op' ins)"
          and bo: "b = so_data o'" and eo: "map_of errs i = Some (so_errors o')"
        using out True n bi len by (auto simp: node_outcome_def get_node_Some)
      have "list_all2 (\<lambda>j x. \<exists>n. get_node (ci_nodes c) j = Some n \<and> holds (node_schema n) x (delta_of outs j)) ins bs"
        using ins
      proof (rule list_all2_mono)
        fix j x assume "j < i \<and> outs ! j = Some x"
        moreover from this have "stepped only c j"
          using unstepped_none [OF loop, of j] n(2) by auto
        ultimately show "\<exists>n. get_node (ci_nodes c) j = Some n \<and> holds (node_schema n) x (delta_of outs j)"
          using less.IH [of j] by (auto simp: result_simps)
      qed
      from operator_outcome [OF nodes n(1) [unfolded OperatorNode] this step]
      obtain ds es where ds: "holds (op_output_schema op) (so_data o') ds" and es: "holds err_schema (so_errors o') es"
        and prim: "op_primed op'" and rest: "op_inv op' (map ?H ins)" "\<And>r. zw (H i @ ds) r = op_out op' (map ?H ins) r"
        "\<And>r. zw (E i @ es) r = op_errs op' (map ?H ins) r" by blast
      have d: "delta_of outs i = ds" "errs_of errs i = es"
        using ds es b(2) bo eo by (simp_all add: ents_holds errs_of_def)
      have "list_all2 (\<lambda>j s. j < i \<and> (\<exists>n. get_node ?ns j = Some n \<and> node_schema n = s)) ins (op_in_schemas op')"
        using nodes [of i] n OperatorNode dy.step_schemas [OF step]
        by (auto simp: node_ok_def elim!: list_all2_mono) (use schemas in metis)
      then show ?thesis using n OperatorNode b bo ds es eo d rest n' prim by (auto simp: node_ok_def)
    qed
  qed
qed

section \<open>Sinks\<close>

text \<open>A loop over all sinks updates each live one and nothing else.\<close>

definition sinks_updated :: "(sink \<Rightarrow> (circuit_error, unit) result \<times> sink) \<Rightarrow> sink option \<Rightarrow> sink option \<Rightarrow> bool" where
  "sinks_updated f s s' \<longleftrightarrow> (case s of None \<Rightarrow> s' = None | Some sk \<Rightarrow> \<exists>sk'. f sk = (Ok (), sk') \<and> s' = Some sk')"

lemma update_sinks_prefix:
  assumes "loopM (\<lambda>i. update_sink i f) [0..<k] c = (Ok (), c')" "k \<le> length (ci_sinks c)"
  shows "\<exists>ss. c' = c\<lparr>ci_sinks := ss\<rparr> \<and> length ss = length (ci_sinks c)
    \<and> (\<forall>i < length ss. if i < k then sinks_updated f (ci_sinks c ! i) (ss ! i) else ss ! i = ci_sinks c ! i)"
  using assms
proof (induction k arbitrary: c')
  case 0
  then show ?case by (intro exI [of _ "ci_sinks c"]) simp
next
  case (Suc k)
  obtain c1 where c1: "loopM (\<lambda>i. update_sink i f) [0..<k] c = (Ok (), c1)" "update_sink k f c1 = (Ok (), c')"
    using Suc.prems(1) by (auto simp: loopM_snoc_Ok)
  obtain ss where ss: "c1 = c\<lparr>ci_sinks := ss\<rparr>" "length ss = length (ci_sinks c)"
    "\<forall>i < length ss. if i < k then sinks_updated f (ci_sinks c ! i) (ss ! i) else ss ! i = ci_sinks c ! i"
    using Suc.IH [OF c1(1)] Suc.prems(2) by auto
  have k: "k < length ss" "ss ! k = ci_sinks c ! k" using ss Suc.prems(2) by auto
  show ?case
  proof (cases "ci_sinks c ! k")
    case None
    then have "c' = c1" "sinks_updated f (ci_sinks c ! k) (ss ! k)"
      using c1(2) ss k by (simp_all add: update_sink_def sinks_updated_def)
    then show ?thesis using ss k by (intro exI [of _ ss]) (auto simp: less_Suc_eq)
  next
    case (Some sk)
    then obtain sk' where "f sk = (Ok (), sk')" "c' = c\<lparr>ci_sinks := ss[k := Some sk']\<rparr>"
      using c1(2) ss k by (auto simp: update_sink_def split: prod.splits)
    moreover from this have "sinks_updated f (ci_sinks c ! k) (Some sk')" using Some by (simp add: sinks_updated_def)
    ultimately show ?thesis using ss k
      by (intro exI [of _ "ss[k := Some sk']"]) (auto simp: nth_list_update less_Suc_eq)
  qed
qed

lemma update_sinks_Ok:
  assumes "loopM (\<lambda>i. update_sink i f) [0..<length (ci_sinks c)] c = (Ok (), c')"
  obtains ss where "c' = c\<lparr>ci_sinks := ss\<rparr>" "list_all2 (sinks_updated f) (ci_sinks c) ss"
  using update_sinks_prefix [OF assms] by (auto simp: list_all2_conv_all_nth)

definition sink_ok :: "node option list \<Rightarrow> (nat \<Rightarrow> entries) \<Rightarrow> (nat \<Rightarrow> entries) \<Rightarrow> sink \<Rightarrow> bool" where
  "sink_ok ns H E s \<longleftrightarrow> (\<exists>n. get_node ns (sk_node s) = Some n \<and> store_holds (sk_result s) (node_schema n) (zw (H (sk_node s))))
    \<and> finite (sk_ancestors s) \<and> store_holds (sk_errors s) err_schema (\<lambda>r. \<Sum>i \<in> sk_ancestors s. zw (E i) r)"

lemma store_holds_cong: "store_holds st s W \<Longrightarrow> (\<And>r. W r = W' r) \<Longrightarrow> store_holds st s W'"
  by (simp add: store_holds_def fun_eq_iff)

lemma absorb_result_ok:
  assumes "absorb_result outs s = (Ok (), s')"
    and "store_holds (sk_result s) sch (zw h)"
    and "\<And>b. nth_opt outs (sk_node s) = Some (Some b) \<Longrightarrow> holds sch b (delta_of outs (sk_node s))"
  shows "store_holds (sk_result s') sch (zw (h @ delta_of outs (sk_node s)))"
    "sk_node s' = sk_node s" "sk_ancestors s' = sk_ancestors s" "sk_errors s' = sk_errors s"
proof -
  show "store_holds (sk_result s') sch (zw (h @ delta_of outs (sk_node s)))"
  proof (cases "\<exists>b. nth_opt outs (sk_node s) = Some (Some b)")
    case True
    then obtain b where b: "nth_opt outs (sk_node s) = Some (Some b)" by blast
    then have "absorb b (sk_result s) = (Ok (), sk_result s')"
      using assms(1) by (auto simp: absorb_result_def split: prod.splits)
    from absorb_Ok [OF this assms(2) assms(3) [OF b]] show ?thesis by (rule store_holds_cong) simp
  next
    case False
    then have "s' = s" "delta_of outs (sk_node s) = []"
      using assms(1) by (auto simp: absorb_result_def delta_of_def split: option.splits)
    then show ?thesis using assms(2) by simp
  qed
qed (use assms(1) in \<open>auto simp: absorb_result_def split: option.splits prod.splits\<close>)

definition err_sum :: "nat set \<Rightarrow> (nat \<times> zset_batch) list \<Rightarrow> row \<Rightarrow> int" where
  "err_sum A errs r = sum_list (map (\<lambda>(i, b). if i \<in> A then zw (ents b) r else 0) errs)"

lemma absorb_error_ok:
  assumes "absorb_error e s = (Ok (), s')" "store_holds (sk_errors s) err_schema W" "holds err_schema (snd e) (ents (snd e))"
  shows "store_holds (sk_errors s') err_schema (\<lambda>r. W r + err_sum (sk_ancestors s) [e] r)"
    "sk_node s' = sk_node s" "sk_ancestors s' = sk_ancestors s" "sk_result s' = sk_result s"
proof -
  show "store_holds (sk_errors s') err_schema (\<lambda>r. W r + err_sum (sk_ancestors s) [e] r)"
  proof (cases "fst e \<in> sk_ancestors s")
    case True
    then have "absorb (snd e) (sk_errors s) = (Ok (), sk_errors s')"
      using assms(1) by (auto simp: absorb_error_def split: prod.splits)
    from absorb_Ok [OF this assms(2,3)] show ?thesis
      by (rule store_holds_cong) (use True in \<open>simp add: err_sum_def case_prod_beta\<close>)
  next
    case False
    then show ?thesis using assms(1,2) by (auto simp: absorb_error_def err_sum_def case_prod_beta)
  qed
qed (use assms(1) in \<open>auto simp: absorb_error_def split: if_splits prod.splits\<close>)

text \<open>The error deltas of one pass, added up per sink, are the deltas of its ancestors.\<close>

lemma err_sum_ancestors:
  assumes "distinct (map fst errs)" "finite A"
  shows "err_sum A errs r = (\<Sum>i \<in> A. zw (errs_of errs i) r)"
  using assms(1)
proof (induction errs)
  case Nil
  then show ?case by (simp add: err_sum_def errs_of_def)
next
  case (Cons e errs)
  obtain j b where e: "e = (j, b)" by (cases e)
  have "errs_of (e # errs) i = (if i = j then ents b else errs_of errs i)" for i
    by (simp add: errs_of_def e)
  moreover have "errs_of errs j = []"
    using Cons.prems map_of_eq_None_iff [of errs j] by (simp add: e errs_of_def)
  ultimately have "zw (errs_of (e # errs) i) r = zw (errs_of errs i) r + (if i = j then zw (ents b) r else 0)" for i
    by simp
  moreover have "err_sum A (e # errs) r = (if j \<in> A then zw (ents b) r else 0) + err_sum A errs r"
    by (simp add: err_sum_def e)
  ultimately show ?case using Cons assms(2) by (simp add: sum.distrib)
qed

definition errors_absorbed :: "(nat \<times> zset_batch) list \<Rightarrow> sink \<Rightarrow> sink \<Rightarrow> bool" where
  "errors_absorbed errs s s' \<longleftrightarrow> sk_node s' = sk_node s \<and> sk_ancestors s' = sk_ancestors s \<and> sk_result s' = sk_result s
    \<and> (\<forall>W. store_holds (sk_errors s) err_schema W
         \<longrightarrow> store_holds (sk_errors s') err_schema (\<lambda>r. W r + err_sum (sk_ancestors s) errs r))"

lemma absorb_errors_Ok:
  assumes "loopM absorb_errors errs c = (Ok (), c')" "\<forall>e \<in> set errs. holds err_schema (snd e) (ents (snd e))"
  shows "\<exists>ss. c' = c\<lparr>ci_sinks := ss\<rparr> \<and> list_all2 (rel_option (errors_absorbed errs)) (ci_sinks c) ss"
  using assms
proof (induction errs arbitrary: c)
  case Nil
  then show ?case
    by (intro exI [of _ "ci_sinks c"])
      (auto simp: errors_absorbed_def err_sum_def list_all2_conv_all_nth intro!: option.rel_refl)
next
  case (Cons e errs)
  obtain c1 where c1: "absorb_errors e c = (Ok (), c1)" "loopM absorb_errors errs c1 = (Ok (), c')"
    using Cons.prems(1) by (auto simp: loopM_Cons_Ok simp del: loopM.simps)
  obtain ss where ss: "c1 = c\<lparr>ci_sinks := ss\<rparr>" "list_all2 (sinks_updated (absorb_error e)) (ci_sinks c) ss"
    using update_sinks_Ok [OF c1(1) [unfolded absorb_errors_def]] .
  obtain ss' where ss': "c' = c1\<lparr>ci_sinks := ss'\<rparr>" "list_all2 (rel_option (errors_absorbed errs)) (ci_sinks c1) ss'"
    using Cons.IH [OF c1(2)] Cons.prems(2) by auto
  have "rel_option (errors_absorbed (e # errs)) s s2"
    if upd: "sinks_updated (absorb_error e) s s1" "rel_option (errors_absorbed errs) s1 s2" for s s1 s2
  proof (cases s)
    case None
    then show ?thesis using upd by (auto simp: sinks_updated_def)
  next
    case (Some sk)
    then obtain sk1 sk2 where sk: "absorb_error e sk = (Ok (), sk1)" "s2 = Some sk2" "errors_absorbed errs sk1 sk2"
      using upd by (auto simp: sinks_updated_def option_rel_Some1)
    have e: "holds err_schema (snd e) (ents (snd e))" using Cons.prems(2) by simp
    have split: "err_sum A (e # errs) r = err_sum A [e] r + err_sum A errs r" for A r by (simp add: err_sum_def)
    have frame: "sk_node sk1 = sk_node sk" "sk_ancestors sk1 = sk_ancestors sk" "sk_result sk1 = sk_result sk"
      using sk(1) by (auto simp: absorb_error_def split: if_splits prod.splits)
    have "store_holds (sk_errors sk2) err_schema (\<lambda>r. W r + err_sum (sk_ancestors sk) (e # errs) r)"
      if "store_holds (sk_errors sk) err_schema W" for W
    proof (rule store_holds_cong)
      show "store_holds (sk_errors sk2) err_schema
          (\<lambda>r. (W r + err_sum (sk_ancestors sk) [e] r) + err_sum (sk_ancestors sk1) errs r)"
        using sk(3) absorb_error_ok(1) [OF sk(1) that e] by (simp add: errors_absorbed_def)
    qed (subst split, simp add: frame)
    then show ?thesis using sk frame Some by (simp add: errors_absorbed_def)
  qed
  then have "list_all2 (rel_option (errors_absorbed (e # errs))) (ci_sinks c) ss'"
    using ss(2) ss'(2) ss(1) by (auto simp: list_all2_conv_all_nth)
  then show ?case using ss ss' by auto
qed

section \<open>The invariant of a circuit, and one pass\<close>

definition circuit_ok :: "circuit \<Rightarrow> (nat \<Rightarrow> entries) \<Rightarrow> (nat \<Rightarrow> entries) \<Rightarrow> bool" where
  "circuit_ok c H E \<longleftrightarrow> (\<forall>i. node_ok (ci_nodes c) H E i) \<and> length (ci_emitted c) = length (ci_nodes c)
    \<and> (\<forall>i < length (ci_nodes c). ci_emitted c ! i = min (int (length (H i))) usize_max)
    \<and> (\<forall>s. Some s \<in> set (ci_sinks c) \<longrightarrow> sink_ok (ci_nodes c) H E s)"

lemma sat_add_min: "0 \<le> b \<Longrightarrow> sat_add (min a usize_max) b = min (a + b) usize_max"
  by (auto simp: sat_add_def usize_max_def)

lemma loop_ledger:
  assumes loop: "loop_state deltas only c (length (ci_nodes c)) (c', outs, errs)" and ok: "circuit_ok c H E"
    and closed: "closed_subset only (ci_nodes c)" and i: "i < length (ci_nodes c)"
  shows "ci_emitted c' ! i = min (int (length (H i @ delta_of outs i))) usize_max"
proof -
  have nodes: "\<And>i. node_ok (ci_nodes c) H E i" and led: "ci_emitted c ! i = min (int (length (H i))) usize_max"
    using ok i by (auto simp: circuit_ok_def)
  show ?thesis
  proof (cases "stepped only c i")
    case False
    then have "ci_emitted c' ! i = ci_emitted c ! i" using loop i by (auto simp: loop_state_def node_outcome_def)
    then show ?thesis using led unstepped_deltas(1) [OF loop False] by simp
  next
    case True
    obtain n b where b: "nth_opt outs i = Some (Some b)" "holds (node_schema n) b (delta_of outs i)"
      using loop_semantics [OF loop nodes closed] True by blast
    moreover have "node_outcome deltas only c (c', outs, errs) i" using loop i by (simp add: loop_state_def)
    ultimately have "ci_emitted c' ! i = sat_add (ci_emitted c ! i) (int (zb_len b))"
      using True by (auto simp: node_outcome_def result_simps)
    then show ?thesis using led holds_len [OF b(2)] by (simp add: sat_add_min)
  qed
qed

text \<open>The deltas one pass emits at every node, and the errors it raises there.\<close>

definition pass_trace :: "epoch_deltas \<Rightarrow> nat list option \<Rightarrow> circuit \<Rightarrow> pass_state" where
  "pass_trace deltas only c = snd (loopM (pass_node deltas only) [0..<length (ci_nodes c)] (c, [], []))"

definition emits :: "epoch_deltas \<Rightarrow> nat list option \<Rightarrow> circuit \<Rightarrow> nat \<Rightarrow> entries" where
  "emits deltas only c = delta_of (fst (snd (pass_trace deltas only c)))"

definition raises :: "epoch_deltas \<Rightarrow> nat list option \<Rightarrow> circuit \<Rightarrow> nat \<Rightarrow> entries" where
  "raises deltas only c = errs_of (snd (snd (pass_trace deltas only c)))"

lemma pass_phases:
  assumes "pass deltas only c = (Ok (), c')" "length (ci_emitted c) = length (ci_nodes c)"
  obtains c1 outs errs c2 where "loop_state deltas only c (length (ci_nodes c)) (c1, outs, errs)"
    "check_state_declarations c1 = Ok ()" "absorb_results outs c1 = (Ok (), c2)" "loopM absorb_errors errs c2 = (Ok (), c')"
    "emits deltas only c = delta_of outs" "raises deltas only c = errs_of errs"
proof -
  obtain c1 outs errs where l: "loopM (pass_node deltas only) [0..<length (ci_nodes c)] (c, [], []) = (Ok (), c1, outs, errs)"
    using assms(1) by (auto simp: pass_def split: prod.splits sum.splits)
  then show ?thesis
    using assms(1) node_loop_Ok [OF l _ assms(2)] that [of c1 outs errs]
    by (auto simp: pass_def emits_def raises_def pass_trace_def split: prod.splits sum.splits)
qed

text \<open>The shape of a circuit: what a pass never changes.\<close>

definition same_shape :: "circuit \<Rightarrow> circuit \<Rightarrow> bool" where
  "same_shape c c' \<longleftrightarrow> length (ci_nodes c') = length (ci_nodes c) \<and> ci_sources c' = ci_sources c \<and> ci_epoch c' = ci_epoch c
    \<and> ci_admitted c' = ci_admitted c
    \<and> (\<forall>i. map_option node_config (get_node (ci_nodes c') i) = map_option node_config (get_node (ci_nodes c) i))
    \<and> list_all2 (rel_option (\<lambda>s s'. sk_node s' = sk_node s \<and> sk_ancestors s' = sk_ancestors s)) (ci_sinks c) (ci_sinks c')"

lemma loop_sources:
  assumes loop: "loop_state deltas only c (length (ci_nodes c)) (c', outs, errs)" and nodes: "\<And>i. node_ok (ci_nodes c) H E i"
    and n: "get_node (ci_nodes c) i = Some (SourceNode t a s)"
  shows "get_node (ci_nodes c') i = Some (SourceNode t a s)"
    "delta_of outs i = (if included only i then entries_for deltas t else [])"
proof -
  have i: "i < length (ci_nodes c)" "ci_nodes c ! i = Some (SourceNode t a s)" using n by (auto simp: get_node_Some)
  then have out: "node_outcome deltas only c (c', outs, errs) i" and len: "length (ci_nodes c') = length (ci_nodes c)"
    using loop by (auto simp: loop_state_def)
  have "ci_nodes c' ! i = Some (SourceNode t a s)"
    using out i n by (cases "stepped only c i") (auto simp: node_outcome_def)
  then show "get_node (ci_nodes c') i = Some (SourceNode t a s)" using i len by (simp add: get_node_Some)
  show "delta_of outs i = (if included only i then entries_for deltas t else [])"
  proof (cases "included only i")
    case True
    then have st: "stepped only c i" using n by (simp add: stepped_def)
    obtain b where b: "nth_opt outs i = Some (Some b)" "delta_of outs i = ents b" using stepped_output [OF loop st] by metis
    have "source_batch s (entries_for deltas t) = Ok b" using out st n b by (auto simp: node_outcome_def result_simps)
    moreover have "schema_ok s" using nodes [of i] n by (simp add: node_ok_def)
    ultimately show ?thesis using True b(2) ents_holds [OF source_batch_holds] by simp
  next
    case False
    then show ?thesis using unstepped_deltas(1) [OF loop, of i] by (simp add: stepped_def)
  qed
qed

text \<open>
  One successful pass: there are deltas, one per node, that extend the histories; a source emits its
  table's delta, a node outside the subset emits nothing, and the invariant is kept.
\<close>

lemma errs_hold:
  assumes loop: "loop_state deltas only c (length (ci_nodes c)) (c1, outs, errs)" and nodes: "\<And>i. node_ok (ci_nodes c) H E i"
    and closed: "closed_subset only (ci_nodes c)" and e: "e \<in> set errs"
  shows "holds err_schema (snd e) (ents (snd e))"
proof -
  have m: "map_of errs (fst e) = Some (snd e)" using e loop by (simp add: loop_state_def map_of_eq_Some_iff)
  have "node_outcome deltas only c (c1, outs, errs) (fst e)" using loop e by (simp add: loop_state_def)
  then have "stepped only c (fst e)" using m by (cases "stepped only c (fst e)") (simp_all add: node_outcome_def)
  then show ?thesis using loop_semantics [OF loop nodes closed, of "fst e"] m by (auto simp: errs_of_def)
qed

lemma sinks_frame:
  assumes loop: "loop_state deltas only c (length (ci_nodes c)) (c1, outs, errs)" and nodes: "\<And>i. node_ok (ci_nodes c) H E i"
    and closed: "closed_subset only (ci_nodes c)"
    and res: "absorb_results outs c1 = (Ok (), c2)" and er: "loopM absorb_errors errs c2 = (Ok (), c')"
  shows "\<exists>ss2 ss3. c' = c1\<lparr>ci_sinks := ss3\<rparr> \<and> list_all2 (sinks_updated (absorb_result outs)) (ci_sinks c) ss2
    \<and> list_all2 (rel_option (errors_absorbed errs)) ss2 ss3"
proof -
  have "ci_sinks c1 = ci_sinks c" using loop by (simp add: loop_state_def)
  moreover obtain ss2 where "c2 = c1\<lparr>ci_sinks := ss2\<rparr>" "list_all2 (sinks_updated (absorb_result outs)) (ci_sinks c1) ss2"
    using update_sinks_Ok [OF res [unfolded absorb_results_def]] .
  ultimately show ?thesis
    using absorb_errors_Ok [OF er] errs_hold [OF loop nodes closed] by auto
qed

lemma sinks_after_pass:
  assumes loop: "loop_state deltas only c (length (ci_nodes c)) (c1, outs, errs)" and ok: "circuit_ok c H E"
    and closed: "closed_subset only (ci_nodes c)" and res: "absorb_results outs c1 = (Ok (), c2)"
    and er: "loopM absorb_errors errs c2 = (Ok (), c')" and s': "Some s' \<in> set (ci_sinks c')"
  shows "sink_ok (ci_nodes c1) (\<lambda>i. H i @ delta_of outs i) (\<lambda>i. E i @ errs_of errs i) s'"
proof -
  have nodes: "\<And>i. node_ok (ci_nodes c) H E i" using ok by (simp add: circuit_ok_def)
  note sem = loop_semantics [OF loop nodes closed]
  have dist: "distinct (map fst errs)" using loop by (simp add: loop_state_def)
  obtain ss2 ss3 where c': "c' = c1\<lparr>ci_sinks := ss3\<rparr>"
    and ss2: "list_all2 (sinks_updated (absorb_result outs)) (ci_sinks c) ss2"
    and ss3: "list_all2 (rel_option (errors_absorbed errs)) ss2 ss3"
    using sinks_frame [OF loop nodes closed res er] by blast
  obtain k where k: "k < length ss3" "ss3 ! k = Some s'" using s' c' by (auto simp: in_set_conv_nth)
  obtain s2 where s2: "ss2 ! k = Some s2" "errors_absorbed errs s2 s'"
    using list_all2_nthD2 [OF ss3 k(1)] k(2) by (auto simp: option_rel_Some2)
  obtain s where s: "ci_sinks c ! k = Some s" "absorb_result outs s = (Ok (), s2)"
    using ss2 ss3 k s2(1) by (auto simp: list_all2_conv_all_nth sinks_updated_def split: option.splits)
  have sok: "sink_ok (ci_nodes c) H E s"
    using ok s(1) k ss2 ss3 nth_mem [of k "ci_sinks c"] by (auto simp: circuit_ok_def list_all2_conv_all_nth)
  obtain n where n: "get_node (ci_nodes c) (sk_node s) = Some n"
    and st: "store_holds (sk_result s) (node_schema n) (zw (H (sk_node s)))" and fin: "finite (sk_ancestors s)"
    and se: "store_holds (sk_errors s) err_schema (\<lambda>r. \<Sum>i \<in> sk_ancestors s. zw (E i) r)"
    using sok by (auto simp: sink_ok_def)
  have hold: "holds (node_schema n) b (delta_of outs (sk_node s))" if "nth_opt outs (sk_node s) = Some (Some b)" for b
    using sem [of "sk_node s"] n that unstepped_none [OF loop, of "sk_node s"] by (auto simp: result_simps get_node_Some)
  note r2 = absorb_result_ok [OF s(2) st hold]
  have "store_holds (sk_errors s') err_schema (\<lambda>r. (\<Sum>i \<in> sk_ancestors s. zw (E i) r) + err_sum (sk_ancestors s) errs r)"
    using s2(2) se r2(3,4) by (simp add: errors_absorbed_def)
  then have "store_holds (sk_errors s') err_schema (\<lambda>r. \<Sum>i \<in> sk_ancestors s. zw (E i @ errs_of errs i) r)"
    by (rule store_holds_cong) (simp add: err_sum_ancestors [OF dist fin] sum.distrib)
  moreover obtain n' where "get_node (ci_nodes c1) (sk_node s) = Some n'" "node_schema n' = node_schema n"
    using outcome_config [OF loop n] node_config_eq by metis
  ultimately show ?thesis using s2(2) r2 fin by (auto simp: sink_ok_def errors_absorbed_def)
qed

lemma pass_Ok:
  assumes pass: "pass deltas only c = (Ok (), c')" and ok: "circuit_ok c H E" and closed: "closed_subset only (ci_nodes c)"
  shows "circuit_ok c' (\<lambda>i. H i @ emits deltas only c i) (\<lambda>i. E i @ raises deltas only c i)" "same_shape c c'"
    "\<And>i t a s. get_node (ci_nodes c) i = Some (SourceNode t a s)
        \<Longrightarrow> emits deltas only c i = (if included only i then entries_for deltas t else [])"
    "\<And>i. \<not> stepped only c i \<Longrightarrow> emits deltas only c i = [] \<and> raises deltas only c i = []
        \<and> get_node (ci_nodes c') i = get_node (ci_nodes c) i"
    "\<And>i op ins. included only i \<Longrightarrow> get_node (ci_nodes c') i = Some (OperatorNode op ins) \<Longrightarrow> op_primed op"
proof -
  have nodes: "\<And>i. node_ok (ci_nodes c) H E i" and len: "length (ci_emitted c) = length (ci_nodes c)"
    using ok by (simp_all add: circuit_ok_def)
  obtain c1 outs errs c2 where loop: "loop_state deltas only c (length (ci_nodes c)) (c1, outs, errs)"
    and res: "absorb_results outs c1 = (Ok (), c2)" and er: "loopM absorb_errors errs c2 = (Ok (), c')"
    and now: "emits deltas only c = delta_of outs" "raises deltas only c = errs_of errs"
    using pass_phases [OF pass len] by metis
  let ?H = "\<lambda>i. H i @ delta_of outs i" and ?E = "\<lambda>i. E i @ errs_of errs i"
  obtain ss2 ss where c': "c' = c1\<lparr>ci_sinks := ss\<rparr>" and ss2: "list_all2 (sinks_updated (absorb_result outs)) (ci_sinks c) ss2"
    and ss: "list_all2 (rel_option (errors_absorbed errs)) ss2 ss"
    using sinks_frame [OF loop nodes closed res er] by blast
  have sinks: "list_all2 (rel_option (\<lambda>s s'. sk_node s' = sk_node s \<and> sk_ancestors s' = sk_ancestors s)) (ci_sinks c) ss"
    by (rule list_all2_trans [OF _ ss2 ss])
      (auto simp: sinks_updated_def errors_absorbed_def absorb_result_def option_rel_Some1 split: option.splits prod.splits)
  show "circuit_ok c' (\<lambda>i. H i @ emits deltas only c i) (\<lambda>i. E i @ raises deltas only c i)"
    unfolding now
    using loop_semantics [OF loop nodes closed] loop_ledger [OF loop ok closed] loop c' len
      sinks_after_pass [OF loop ok closed res er]
    by (auto simp: circuit_ok_def loop_state_def)
  show "same_shape c c'"
  proof -
    have "map_option node_config (get_node (ci_nodes c1) i) = map_option node_config (get_node (ci_nodes c) i)" for i
      using hole_outcome [OF loop, of i] outcome_config [OF loop, of i] by (cases "get_node (ci_nodes c) i") force+
    then show ?thesis using loop c' sinks by (auto simp: same_shape_def loop_state_def)
  qed
  show "emits deltas only c i = (if included only i then entries_for deltas t else [])"
    if "get_node (ci_nodes c) i = Some (SourceNode t a s)" for i t a s
    unfolding now by (rule loop_sources(2) [OF loop nodes that])
  show "emits deltas only c i = [] \<and> raises deltas only c i = [] \<and> get_node (ci_nodes c') i = get_node (ci_nodes c) i"
    if "\<not> stepped only c i" for i
    using unstepped_deltas [OF loop that] unstepped_node [OF loop that] c' by (simp add: now)
  show "op_primed op" if "included only i" "get_node (ci_nodes c') i = Some (OperatorNode op ins)" for i op ins
    using loop_semantics [OF loop nodes closed, of i] that c' hole_outcome [OF loop, of i] by (auto simp: stepped_def)
qed

end
