(* ===== verification/Circuit_Reach.thy ===== *)
theory Circuit_Reach
  imports Circuit_Props
begin

text \<open>
  The life of a circuit as a step relation: nodes are attached, sinks added and dropped, nodes freed,
  epochs sealed and late queries caught up. The steps are the successful calls of \<open>attach_source\<close>, \<open>attach\<close>,
  \<open>remove\<close>, \<open>add_sink\<close>, \<open>remove_sink\<close>, \<open>set_epoch\<close>, \<open>prime\<close>, \<open>catch_up\<close> and \<open>step\<close>; splicing a query onto
  shared nodes (\<open>rewire_inputs\<close>, \<open>repoint_sink\<close>, \<open>refresh_ancestors\<close>) and the states that failed calls leave
  are not among them. The invariant of \<open>Circuit_Props\<close> holds in every reachable state. Its consequences are the state accounting that never trips, the ancestor sets that keep one
  query's errors out of another's answer, and the determinism of the dataflow: operators and stores
  are a function of the accumulated input alone.
\<close>

section \<open>Freshly constructed operators\<close>

definition op_fresh :: "operator \<Rightarrow> bool" where
  "op_fresh op \<longleftrightarrow> op_inv op (replicate (op_arity op) [])
    \<and> (\<forall>r. op_out op (replicate (op_arity op) []) r = 0) \<and> (\<forall>r. op_errs op (replicate (op_arity op) []) r = 0)"

section \<open>Declared state is never exceeded\<close>

lemma budget_fold:
  assumes "circuit_ok c H E" "\<forall>i \<in> set ins. i < length (ci_nodes c)" "0 \<le> t"
  shows "foldR (\<lambda>tot i. bindR (emitted_at c i) (\<lambda>n. Ok (sat_add tot n))) (min t usize_max) ins
    = Ok (min (t + int (sum_list (map (\<lambda>i. length (H i)) ins))) usize_max)"
  using assms(2,3)
proof (induction ins arbitrary: t)
  case (Cons i ins)
  have "emitted_at c i = Ok (min (int (length (H i))) usize_max)"
    using assms(1) Cons.prems(1) by (simp add: emitted_at_def circuit_ok_def ok_or_def)
  moreover have "sat_add (min t usize_max) (min (int (length (H i))) usize_max) = min (t + int (length (H i))) usize_max"
    using Cons.prems(2) by (auto simp: sat_add_def usize_max_def)
  ultimately show ?case using Cons.IH [of "t + int (length (H i))"] Cons.prems by (simp add: algebra_simps)
qed simp

lemma sat_budget:
  assumes "0 \<le> t" "1 \<le> f" "0 \<le> k" "s \<le> t * f + k" "s \<le> usize_max"
  shows "s \<le> sat_add (sat_mul (min t usize_max) f) k"
proof (cases "t \<le> usize_max")
  case True
  then show ?thesis using assms by (auto simp: sat_add_def sat_mul_def)
next
  case False
  have "usize_max \<le> usize_max * f" using assms(2) by (simp add: usize_max_def)
  then show ?thesis using False assms by (auto simp: sat_add_def sat_mul_def)
qed

lemma declared_factor: "op_state_bound op = ProportionalToInputs xs f k \<Longrightarrow> 1 \<le> f"
  by (cases op) auto

lemma check_declaration_Ok:
  assumes ok: "circuit_ok c H E" and n: "get_node (ci_nodes c) i = Some (OperatorNode op ins)"
    and sz: "int (op_state_size op) \<le> usize_max"
  shows "check_declaration c i = Ok ()"
proof -
  have node: "node_ok (ci_nodes c) H E i" using ok by (simp add: circuit_ok_def)
  have ins: "\<forall>j \<in> set ins. j < length (ci_nodes c)"
    using node n by (auto simp: node_ok_def list_all2_conv_all_nth in_set_conv_nth get_node_Some)
  have inv: "op_inv op (map H ins)" using node n by (simp add: node_ok_def)
  obtain b where b: "bound_allows (op_state_bound op) (sum_list (map length (map H ins))) = Some b" "op_state_size op \<le> b"
    using op_state_within_bound [OF inv] by blast
  show ?thesis
  proof (cases "op_state_bound op")
    case Stateless
    then show ?thesis using n b by (simp add: check_declaration_def is_unbounded_def state_budget_def)
  next
    case (ProportionalToInputs xs f k)
    let ?t = "int (sum_list (map (\<lambda>i. length (H i)) ins))"
    have "int (op_state_size op) \<le> ?t * int f + int k"
      using b ProportionalToInputs by (simp add: comp_def flip: of_nat_add of_nat_mult)
    then have "int (op_state_size op) \<le> sat_add (sat_mul (min ?t usize_max) (int f)) (int k)"
      using sz declared_factor [OF ProportionalToInputs] by (intro sat_budget) (auto intro: sum_list_nonneg)
    then show ?thesis
      using n ProportionalToInputs budget_fold [OF ok ins, of 0]
      by (simp add: check_declaration_def is_unbounded_def state_budget_def usize_max_def)
  next
    case (Unbounded x)
    then show ?thesis using b by simp
  qed
qed

lemma check_declaration_other: "(\<And>op ins. get_node (ci_nodes c) i \<noteq> Some (OperatorNode op ins)) \<Longrightarrow> check_declaration c i = Ok ()"
  by (auto simp: check_declaration_def split: option.split node.split)

lemma declarations_Ok:
  assumes "circuit_ok c H E" "\<And>i op ins. get_node (ci_nodes c) i = Some (OperatorNode op ins) \<Longrightarrow> int (op_state_size op) \<le> usize_max"
  shows "check_state_declarations c = Ok ()"
proof -
  have "check_declaration c i = Ok ()" for i
    using check_declaration_Ok [OF assms(1)] check_declaration_other assms(2) by metis
  then have "foldR (\<lambda>_ i. check_declaration c i) () is = Ok ()" for "is" by (induction "is") simp_all
  then show ?thesis by (simp add: check_state_declarations_def)
qed

section \<open>Ancestors\<close>

definition edges :: "node option list \<Rightarrow> (nat \<times> nat) set" where
  "edges ns = {(i, j). \<exists>n. get_node ns i = Some n \<and> j \<in> set (node_inputs n)}"

lemma ancestors_walk_closed:
  assumes "ancestors_walk ns stack out = Ok A" "edges ns `` out \<subseteq> out \<union> set stack"
  shows "out \<union> set stack \<subseteq> A \<and> edges ns `` A \<subseteq> A \<and> A \<subseteq> out \<union> (edges ns)\<^sup>* `` set stack"
  using assms
proof (induction ns stack out rule: ancestors_walk.induct)
  case (2 ns i stack out)
  show ?case
  proof (cases "i \<in> out")
    case True
    then have "edges ns `` out \<subseteq> out \<union> set stack" using "2.prems"(2) by auto
    then show ?thesis using "2.IH"(1) [OF True] "2.prems"(1) True by auto
  next
    case False
    then obtain n where n: "get_node ns i = Some n"
      and A: "ancestors_walk ns (rev (node_inputs n) @ stack) (insert i out) = Ok A"
      using "2.prems"(1) by (auto split: option.splits)
    have e: "edges ns `` {i} = set (node_inputs n)" using n by (auto simp: edges_def)
    have IH: "insert i out \<union> set (rev (node_inputs n) @ stack) \<subseteq> A \<and> edges ns `` A \<subseteq> A
        \<and> A \<subseteq> insert i out \<union> (edges ns)\<^sup>* `` set (rev (node_inputs n) @ stack)"
    proof (rule "2.IH"(2) [OF False n A])
      have "edges ns `` insert i out = set (node_inputs n) \<union> edges ns `` out" using e by auto
      then show "edges ns `` insert i out \<subseteq> insert i out \<union> set (rev (node_inputs n) @ stack)" using "2.prems"(2) by auto
    qed
    have "(edges ns)\<^sup>* `` set (node_inputs n) \<subseteq> (edges ns)\<^sup>* `` {i}"
      using e by (auto intro: converse_rtrancl_into_rtrancl)
    then have "(edges ns)\<^sup>* `` set (rev (node_inputs n) @ stack) \<subseteq> (edges ns)\<^sup>* `` set (i # stack)"
      "i \<in> (edges ns)\<^sup>* `` set (i # stack)" by auto
    then show ?thesis using IH by (simp add: subset_iff) blast
  qed
qed auto

lemma ancestors_exact:
  assumes "ancestors_walk ns [i] {} = Ok A"
  shows "A = (edges ns)\<^sup>* `` {i}"
proof -
  have A: "{i} \<subseteq> A" "edges ns `` A \<subseteq> A" "A \<subseteq> (edges ns)\<^sup>* `` {i}"
    using ancestors_walk_closed [OF assms] by auto
  have "j \<in> A" if "(i, j) \<in> (edges ns)\<^sup>*" for j
    using that A(1,2) by (induction rule: rtrancl_induct) auto
  then show ?thesis using A(3) by auto
qed

section \<open>Reachable circuits\<close>

text \<open>
  \<open>reach c H E\<close>: the circuit \<open>c\<close> is reachable and its nodes have emitted the histories \<open>H\<close> and raised
  the errors \<open>E\<close>. An operator is attached to nodes that have not emitted yet and a sink is added to a
  node whose upstream has not, which is how the builder and the registry use them: they attach a whole
  query, then run the pass that brings it up to date.
\<close>

inductive reach :: "circuit \<Rightarrow> (nat \<Rightarrow> entries) \<Rightarrow> (nat \<Rightarrow> entries) \<Rightarrow> bool" where
  reach_empty: "reach circuit_empty (\<lambda>_. []) (\<lambda>_. [])"
| reach_attach_source: "reach c H E \<Longrightarrow> schema_ok s \<Longrightarrow> attach_source t a s c = (Ok i, c') \<Longrightarrow> reach c' H E"
| reach_attach: "reach c H E \<Longrightarrow> op_fresh op \<Longrightarrow> attach op ins adm c = (Ok i, c')
    \<Longrightarrow> mapR (node_output_schema c) ins = Ok (op_in_schemas op) \<Longrightarrow> \<forall>j \<in> set ins. H j = [] \<Longrightarrow> reach c' H E"
| reach_remove: "reach c H E \<Longrightarrow> remove i c = (Ok (), c') \<Longrightarrow> reach c' H E"
| reach_add_sink: "reach c H E \<Longrightarrow> add_sink i c = (Ok k, c')
    \<Longrightarrow> \<forall>j \<in> (edges (ci_nodes c))\<^sup>* `` {i}. H j = [] \<and> E j = [] \<Longrightarrow> reach c' H E"
| reach_remove_sink: "reach c H E \<Longrightarrow> remove_sink k c = (Ok (), c') \<Longrightarrow> reach c' H E"
| reach_set_epoch: "reach c H E \<Longrightarrow> set_epoch e c = (Ok (), c') \<Longrightarrow> reach c' H E"
| reach_prime: "reach c H E \<Longrightarrow> prime c = (Ok (), c')
    \<Longrightarrow> reach c' (\<lambda>i. H i @ emits [] None c i) (\<lambda>i. E i @ raises [] None c i)"
| reach_catch_up: "reach c H E \<Longrightarrow> closed_subset (Some ids) (ci_nodes c) \<Longrightarrow> catch_up deltas ids c = (Ok (), c')
    \<Longrightarrow> reach c' (\<lambda>i. H i @ emits deltas (Some ids) c i) (\<lambda>i. E i @ raises deltas (Some ids) c i)"
| reach_step: "reach c H E \<Longrightarrow> step deltas c = (Ok e, c')
    \<Longrightarrow> reach c' (\<lambda>i. H i @ emits deltas None c i) (\<lambda>i. E i @ raises deltas None c i)"

inductive_cases reach_cases: "reach c H E"

definition circuit_inv :: "circuit \<Rightarrow> (nat \<Rightarrow> entries) \<Rightarrow> (nat \<Rightarrow> entries) \<Rightarrow> bool" where
  "circuit_inv c H E \<longleftrightarrow> circuit_ok c H E \<and> (\<forall>i \<ge> length (ci_nodes c). H i = [] \<and> E i = [])
    \<and> (\<forall>s. Some s \<in> set (ci_sinks c) \<longrightarrow> sk_ancestors s = (edges (ci_nodes c))\<^sup>* `` {sk_node s})"

lemma get_node_append:
  "get_node (ns @ [x]) i = (if i < length ns then get_node ns i else if i = length ns then x else None)"
  by (auto simp: get_node_def nth_opt_def nth_append split: option.splits)

lemma get_node_beyond [simp]: "length ns \<le> i \<Longrightarrow> get_node ns i = None"
  by (simp add: get_node_def nth_opt_def)

lemma reach_along:
  assumes "(i, j) \<in> (edges ns)\<^sup>*" "\<And>k. (i, k) \<in> (edges ns)\<^sup>* \<Longrightarrow> edges ms `` {k} = edges ns `` {k}"
  shows "(i, j) \<in> (edges ms)\<^sup>*"
  using assms(1)
proof (induction rule: rtrancl_induct)
  case (step y z)
  then have "(y, z) \<in> edges ms" using assms(2) [of y] by auto
  then show ?case using step.IH by simp
qed simp

lemma upstream_cong:
  assumes "\<And>k. (i, k) \<in> (edges ns)\<^sup>* \<Longrightarrow> edges ms `` {k} = edges ns `` {k}"
  shows "(edges ms)\<^sup>* `` {i} = (edges ns)\<^sup>* `` {i}"
proof -
  have "(i, j) \<in> (edges ns)\<^sup>*" if "(i, j) \<in> (edges ms)\<^sup>*" for j
    using that
  proof (induction rule: rtrancl_induct)
    case (step y z)
    then have "(y, z) \<in> edges ns" using assms [of y] by auto
    then show ?case using step.IH by simp
  qed simp
  then show ?thesis using reach_along [of i _ ns ms] assms by auto
qed

lemma edges_at: "edges ns `` {k} = (case get_node ns k of None \<Rightarrow> {} | Some n \<Rightarrow> set (node_inputs n))"
  by (auto simp: edges_def split: option.splits)

text \<open>Upstream of a live node there are live nodes only, all at or below it.\<close>

lemma upstream_live:
  assumes "\<And>i. node_ok ns H E i" "get_node ns i \<noteq> None" "(i, j) \<in> (edges ns)\<^sup>*"
  shows "get_node ns j \<noteq> None \<and> j \<le> i"
  using assms(3)
proof (induction rule: rtrancl_induct)
  case (step y z)
  then obtain n where n: "get_node ns y = Some n" "z \<in> set (node_inputs n)" by (auto simp: edges_def)
  then obtain op ins where "n = OperatorNode op ins" by (cases n) auto
  then have "z < y \<and> get_node ns z \<noteq> None"
    using assms(1) [of y] n by (auto simp: node_ok_def list_all2_conv_all_nth in_set_conv_nth)
  then show ?case using step.IH by simp
qed (use assms(2) in simp)

lemma sink_ok_cong:
  assumes "sink_ok ns H E s" "\<And>n. get_node ns (sk_node s) = Some n \<Longrightarrow> get_node ms (sk_node s) = Some n"
  shows "sink_ok ms H E s"
  using assms by (auto simp: sink_ok_def)

lemma append_inv:
  assumes inv: "circuit_inv c H E" and x: "node_ok (ci_nodes c @ [Some x]) H E (length (ci_nodes c))"
    and c': "ci_nodes c' = ci_nodes c @ [Some x]" "ci_emitted c' = ci_emitted c @ [0]" "ci_sinks c' = ci_sinks c"
  shows "circuit_inv c' H E"
proof -
  let ?ns = "ci_nodes c" and ?ms = "ci_nodes c @ [Some x]"
  have ok: "circuit_ok c H E" and beyond: "\<forall>i \<ge> length ?ns. H i = [] \<and> E i = []"
    using inv by (simp_all add: circuit_inv_def)
  have nodes: "\<And>i. node_ok ?ns H E i" using ok by (simp add: circuit_ok_def)
  have keep: "get_node ?ms i = Some n" if "get_node ?ns i = Some n" for i n
    using that by (auto simp: get_node_append get_node_Some)
  have nodes': "node_ok ?ms H E i" for i
  proof (cases "i < length ?ns")
    case True
    then show ?thesis by (intro node_ok_cong [OF nodes]) (use keep in \<open>auto simp: get_node_append\<close>)
  next
    case False
    then show ?thesis using x by (cases "i = length ?ns") (auto simp: node_ok_def get_node_append)
  qed
  have sinks: "sink_ok ?ms H E s \<and> sk_ancestors s = (edges ?ms)\<^sup>* `` {sk_node s}" if s: "Some s \<in> set (ci_sinks c)" for s
  proof -
    have so: "sink_ok ?ns H E s" using ok s by (simp add: circuit_ok_def)
    then have live: "get_node ?ns (sk_node s) \<noteq> None" by (auto simp: sink_ok_def)
    have "(edges ?ms)\<^sup>* `` {sk_node s} = (edges ?ns)\<^sup>* `` {sk_node s}"
    proof (rule upstream_cong)
      fix k assume "(sk_node s, k) \<in> (edges ?ns)\<^sup>*"
      then have "get_node ?ns k \<noteq> None" using upstream_live [OF nodes live] by blast
      then show "edges ?ms `` {k} = edges ?ns `` {k}" using keep by (auto simp: edges_at)
    qed
    then show ?thesis using inv s sink_ok_cong [OF so keep] by (simp add: circuit_inv_def)
  qed
  show ?thesis using ok nodes' sinks beyond c' by (auto simp: circuit_inv_def circuit_ok_def nth_append usize_max_def)
qed

lemma attach_source_inv:
  assumes "circuit_inv c H E" "schema_ok s" "attach_source t a s c = (Ok i, c')"
  shows "circuit_inv c' H E"
  using assms
  by (intro append_inv [OF assms(1), of "SourceNode t a s"])
    (auto simp: attach_source_def Let_def node_ok_def get_node_append circuit_inv_def)

lemma check_wiring_Ok:
  "check_wiring op ins i adm = Ok u \<Longrightarrow> length ins = op_arity op \<and> (\<forall>j \<in> set ins. j < i)"
  by (auto simp: check_wiring_def result_simps find_None_iff not_le split: if_splits option.splits)

lemma attach_node_ok:
  assumes inv: "circuit_inv c H E" and fresh: "op_fresh op" and wired: "check_wiring op ins (length (ci_nodes c)) adm = Ok ()"
    and sch: "mapR (node_output_schema c) ins = Ok (op_in_schemas op)" and H: "\<forall>j \<in> set ins. H j = []"
  shows "node_ok (ci_nodes c @ [Some (OperatorNode op ins)]) H E (length (ci_nodes c))"
proof -
  let ?n = "length (ci_nodes c)"
  have w: "length ins = op_arity op" "\<forall>j \<in> set ins. j < ?n" using check_wiring_Ok [OF wired] by auto
  have Hs: "map H ins = replicate (op_arity op) []" using H w(1) by (simp add: map_replicate_const cong: map_cong)
  have "list_all2 (\<lambda>j s. node_output_schema c j = Ok s) ins (op_in_schemas op)" using sch by (simp add: mapR_eq_Ok)
  then have "list_all2 (\<lambda>j s. j < ?n \<and> (\<exists>n. get_node (ci_nodes c @ [Some (OperatorNode op ins)]) j = Some n \<and> node_schema n = s))
      ins (op_in_schemas op)"
    using w(2) by (fastforce simp: list_all2_conv_all_nth node_output_schema_def node_at_def result_simps get_node_append ok_or_def
        split: option.splits)
  moreover have "H ?n = []" "E ?n = []" using inv by (auto simp: circuit_inv_def)
  ultimately show ?thesis using fresh Hs by (simp add: node_ok_def get_node_append op_fresh_def)
qed

lemma attach_inv:
  assumes "circuit_inv c H E" "op_fresh op" "attach op ins adm c = (Ok i, c')"
    "mapR (node_output_schema c) ins = Ok (op_in_schemas op)" "\<forall>j \<in> set ins. H j = []"
  shows "circuit_inv c' H E"
proof -
  have w: "check_wiring op ins (length (ci_nodes c)) adm = Ok ()"
    and c': "ci_nodes c' = ci_nodes c @ [Some (OperatorNode op ins)]" "ci_emitted c' = ci_emitted c @ [0]" "ci_sinks c' = ci_sinks c"
    using assms(3) by (auto simp: attach_def Let_def split: sum.splits option.splits)
  show ?thesis by (rule append_inv [OF assms(1) attach_node_ok [OF assms(1,2) w assms(4,5)] c'])
qed

lemma consumers_Nil:
  assumes "consumers c i = []" "get_node (ci_nodes c) j = Some n"
  shows "i \<notin> set (node_inputs n)"
proof (cases n)
  case (OperatorNode op ins)
  then have "j \<in> set (consumers c i)" if "i \<in> set ins"
    using that assms(2) by (simp add: consumers_def get_node_Some)
  then show ?thesis using assms(1) OperatorNode by auto
qed simp

lemma remove_inv:
  assumes inv: "circuit_inv c H E" and rm: "remove i c = (Ok (), c')"
  shows "circuit_inv c' H E"
proof -
  let ?ns = "ci_nodes c" and ?ms = "(ci_nodes c)[i := None]"
  have c': "ci_nodes c' = ?ms" "ci_emitted c' = ci_emitted c" "ci_sinks c' = ci_sinks c"
    and cons: "consumers c i = []" and no_sink: "\<And>s. Some s \<in> set (ci_sinks c) \<Longrightarrow> sk_node s \<noteq> i"
    using rm by (auto simp: remove_def split: sum.splits list.splits if_splits)
  have ok: "circuit_ok c H E" and nodes: "\<And>i. node_ok ?ns H E i" using inv by (simp_all add: circuit_inv_def circuit_ok_def)
  have get: "get_node ?ms j = (if j = i then None else get_node ?ns j)" for j
    by (auto simp: get_node_def nth_opt_def nth_list_update)
  have nodes': "node_ok ?ms H E j" for j
  proof (cases "j = i \<or> get_node ?ns j = None")
    case True
    then show ?thesis by (auto simp: node_ok_def get)
  next
    case False
    then obtain n where n: "get_node ?ns j = Some n" "j \<noteq> i" by auto
    show ?thesis
    proof (cases n)
      case (OperatorNode op ins)
      have "i \<notin> set ins" using consumers_Nil [OF cons n(1)] OperatorNode by simp
      then have "list_all2 (\<lambda>k s. k < j \<and> (\<exists>n. get_node ?ms k = Some n \<and> node_schema n = s)) ins (op_in_schemas op)"
        using nodes [of j] n OperatorNode by (auto simp: node_ok_def get list_all2_conv_all_nth)
      then show ?thesis using nodes [of j] n OperatorNode by (simp add: node_ok_def get)
    qed (use nodes [of j] n in \<open>simp add: node_ok_def get\<close>)
  qed
  have sinks: "sink_ok ?ms H E s \<and> sk_ancestors s = (edges ?ms)\<^sup>* `` {sk_node s}" if s: "Some s \<in> set (ci_sinks c)" for s
  proof -
    have "(edges ?ms)\<^sup>* `` {sk_node s} = (edges ?ns)\<^sup>* `` {sk_node s}"
    proof (rule upstream_cong)
      fix k assume "(sk_node s, k) \<in> (edges ?ns)\<^sup>*"
      then have "k \<noteq> i"
        by (cases rule: rtrancl.cases) (use no_sink [OF s] consumers_Nil [OF cons] in \<open>auto simp: edges_def\<close>)
      then show "edges ?ms `` {k} = edges ?ns `` {k}" by (simp add: edges_at get)
    qed
    moreover have "sink_ok ?ns H E s" using ok s by (simp add: circuit_ok_def)
    ultimately show ?thesis using inv s no_sink [OF s] sink_ok_cong [of ?ns H E s ?ms] get by (simp add: circuit_inv_def)
  qed
  show ?thesis using ok nodes' sinks c' inv by (auto simp: circuit_inv_def circuit_ok_def)
qed

lemma node_schema_ok:
  assumes nodes: "\<And>i. node_ok ns H E i" and "get_node ns i = Some n"
  shows "schema_ok (node_schema n)"
  using assms(2)
proof (induction i arbitrary: n rule: less_induct)
  case (less i)
  show ?case
  proof (cases n)
    case (OperatorNode op ins)
    then have inv: "op_inv op (map H ins)"
      and ins: "list_all2 (\<lambda>j s. j < i \<and> (\<exists>n. get_node ns j = Some n \<and> node_schema n = s)) ins (op_in_schemas op)"
      using nodes [of i] less.prems by (simp_all add: node_ok_def)
    show ?thesis
    proof (cases op)
      case (OpDistinct d)
      then obtain j m where "j < i" "get_node ns j = Some m" "node_schema m = di_schema d"
        using ins by (auto simp: list_all2_Cons2)
      then show ?thesis using less.IH [of j m] OpDistinct OperatorNode by simp
    qed (use inv OperatorNode in \<open>auto simp: filter_inv_def project_inv_def join_inv_def join_wf_def agg_inv_def\<close>)
  qed (use nodes [of i] less.prems in \<open>simp add: node_ok_def\<close>)
qed

lemma add_sink_inv:
  assumes inv: "circuit_inv c H E" and add: "add_sink i c = (Ok k, c')"
    and quiet: "\<forall>j \<in> (edges (ci_nodes c))\<^sup>* `` {i}. H j = [] \<and> E j = []"
  shows "circuit_inv c' H E"
proof -
  let ?A = "(edges (ci_nodes c))\<^sup>* `` {i}"
  obtain s A where s: "node_output_schema c i = Ok s" and A: "ancestors_of c i = Ok A"
    and c': "c' = c\<lparr>ci_sinks := ci_sinks c @ [Some \<lparr>sk_node = i, sk_result = store_new s, sk_errors = store_new err_schema, sk_ancestors = A\<rparr>]\<rparr>"
    using add by (auto simp: add_sink_def result_simps split: sum.splits prod.splits)
  have nodes: "\<And>i. node_ok (ci_nodes c) H E i" using inv by (simp add: circuit_inv_def circuit_ok_def)
  obtain n where n: "get_node (ci_nodes c) i = Some n" "s = node_schema n"
    using s by (auto simp: node_output_schema_def node_at_def result_simps)
  have Aeq: "A = ?A" using ancestors_exact A by (simp add: ancestors_of_def)
  have "?A \<subseteq> {..i}" using upstream_live [OF nodes, of i] n by auto
  then have fin: "finite A" using Aeq finite_subset by blast
  have sch: "schema_ok s" using node_schema_ok [OF nodes n(1)] n(2) by simp
  have "sink_ok (ci_nodes c) H E \<lparr>sk_node = i, sk_result = store_new s, sk_errors = store_new err_schema, sk_ancestors = A\<rparr>"
    using n fin sch quiet store_new_holds [OF sch] store_new_holds [OF err_schema_ok] Aeq
    by (auto simp: sink_ok_def fun_eq_iff elim!: store_holds_cong intro!: sum.neutral)
  then show ?thesis using inv c' Aeq by (auto simp: circuit_inv_def circuit_ok_def)
qed

lemma same_shape_edges: "same_shape c c' \<Longrightarrow> edges (ci_nodes c') = edges (ci_nodes c)"
proof -
  assume sh: "same_shape c c'"
  have "edges (ci_nodes c') `` {k} = edges (ci_nodes c) `` {k}" for k
  proof -
    have "map_option node_config (get_node (ci_nodes c') k) = map_option node_config (get_node (ci_nodes c) k)"
      using sh by (simp add: same_shape_def)
    then show ?thesis
      by (cases "get_node (ci_nodes c) k"; cases "get_node (ci_nodes c') k") (auto simp: edges_at dest: node_config_eq(2))
  qed
  then show ?thesis by auto
qed

lemma same_shape_sink:
  assumes "same_shape c c'" "Some s' \<in> set (ci_sinks c')"
  obtains s where "Some s \<in> set (ci_sinks c)" "sk_node s' = sk_node s" "sk_ancestors s' = sk_ancestors s"
proof -
  obtain k where k: "k < length (ci_sinks c')" "ci_sinks c' ! k = Some s'" using assms(2) by (auto simp: in_set_conv_nth)
  have l2: "list_all2 (rel_option (\<lambda>s s'. sk_node s' = sk_node s \<and> sk_ancestors s' = sk_ancestors s)) (ci_sinks c) (ci_sinks c')"
    using assms(1) by (simp add: same_shape_def)
  obtain s where "ci_sinks c ! k = Some s" "sk_node s' = sk_node s" "sk_ancestors s' = sk_ancestors s"
    using list_all2_nthD2 [OF l2 k(1)] k(2) by (auto simp: option_rel_Some2)
  then show ?thesis using that k(1) list_all2_lengthD [OF l2] nth_mem [of k "ci_sinks c"] by auto
qed

lemma pass_inv:
  assumes inv: "circuit_inv c H E" and closed: "closed_subset only (ci_nodes c)" and pass: "pass deltas only c = (Ok (), c')"
  shows "circuit_inv c' (\<lambda>i. H i @ emits deltas only c i) (\<lambda>i. E i @ raises deltas only c i)"
proof -
  have ok: "circuit_ok c H E" using inv by (simp add: circuit_inv_def)
  note p = pass_Ok [OF pass ok closed]
  have "\<not> stepped only c i" if "length (ci_nodes c) \<le> i" for i using that by (simp add: stepped_def)
  moreover have "sk_ancestors s' = (edges (ci_nodes c'))\<^sup>* `` {sk_node s'}" if "Some s' \<in> set (ci_sinks c')" for s'
    using same_shape_sink [OF p(2) that] inv same_shape_edges [OF p(2)] by (metis circuit_inv_def)
  moreover have "length (ci_nodes c') = length (ci_nodes c)" using p(2) by (simp add: same_shape_def)
  ultimately show ?thesis using p(1,4) inv by (simp add: circuit_inv_def)
qed

text \<open>Every reachable circuit satisfies the invariant.\<close>

lemma reach_inv: "reach c H E \<Longrightarrow> circuit_inv c H E"
proof (induction rule: reach.induct)
  case reach_empty
  show ?case by (simp add: circuit_inv_def circuit_ok_def circuit_empty_def node_ok_def)
next
  case (reach_remove_sink c H E k c')
  then have c': "c' = c\<lparr>ci_sinks := (ci_sinks c)[k := None]\<rparr>" by (auto simp: remove_sink_def split: option.splits)
  have "Some s \<in> set (ci_sinks c)" if "Some s \<in> set ((ci_sinks c)[k := None])" for s
    using that set_update_subset_insert [of "ci_sinks c" k None] by auto
  then show ?case using reach_remove_sink.IH c' by (simp add: circuit_inv_def circuit_ok_def)
next
  case (reach_set_epoch c H E e c')
  then show ?case by (auto simp: set_epoch_def circuit_inv_def circuit_ok_def split: if_splits)
next
  case (reach_prime c H E c')
  then show ?case by (intro pass_inv) (simp_all add: prime_def)
next
  case (reach_catch_up c H E ids deltas c')
  then show ?case by (intro pass_inv) (simp_all add: catch_up_def)
next
  case (reach_step c H E deltas e c')
  then obtain c1 where "pass deltas None c = (Ok (), c1)" "c' = c1\<lparr>ci_epoch := ci_epoch c1 + 1\<rparr>"
    by (auto simp: step_def split: prod.splits sum.splits)
  then show ?case using pass_inv [OF reach_step.IH closed_subset_None] by (auto simp: circuit_inv_def circuit_ok_def)
qed (blast intro: attach_source_inv attach_inv remove_inv add_sink_inv)+

section \<open>The dataflow is a function of the accumulated input\<close>

definition all_primed :: "circuit \<Rightarrow> bool" where
  "all_primed c \<longleftrightarrow> (\<forall>i op ins. get_node (ci_nodes c) i = Some (OperatorNode op ins) \<longrightarrow> op_primed op)"

definition same_wiring :: "circuit \<Rightarrow> circuit \<Rightarrow> bool" where
  "same_wiring c c' \<longleftrightarrow> length (ci_nodes c') = length (ci_nodes c)
    \<and> (\<forall>i. map_option node_config (get_node (ci_nodes c') i) = map_option node_config (get_node (ci_nodes c) i))
    \<and> list_all2 (rel_option (\<lambda>s s'. sk_node s' = sk_node s \<and> sk_ancestors s' = sk_ancestors s)) (ci_sinks c) (ci_sinks c')"

lemma node_determined:
  assumes ok: "\<And>i. node_ok ns H E i" "\<And>i. node_ok ns' H' E' i"
    and cfg: "\<And>i. map_option node_config (get_node ns' i) = map_option node_config (get_node ns i)"
    and primed: "\<And>i op ins. get_node ns i = Some (OperatorNode op ins) \<Longrightarrow> op_primed op"
      "\<And>i op ins. get_node ns' i = Some (OperatorNode op ins) \<Longrightarrow> op_primed op"
    and src: "\<And>i t a s. get_node ns i = Some (SourceNode t a s) \<Longrightarrow> zw (H i) = zw (H' i)"
  shows "get_node ns i = get_node ns' i \<and> (get_node ns i \<noteq> None \<longrightarrow> zw (H i) = zw (H' i) \<and> zw (E i) = zw (E' i))"
proof (induction i rule: less_induct)
  case (less i)
  show ?case
  proof (cases "get_node ns i")
    case None
    then show ?thesis using cfg [of i] by simp
  next
    case (Some n)
    then obtain n' where n': "get_node ns' i = Some n'" "node_config n' = node_config n" using cfg [of i] by auto
    show ?thesis
    proof (cases n)
      case (SourceNode t a s)
      then have "n' = n" using n'(2) by (simp add: node_config_source)
      then show ?thesis using Some n' SourceNode ok(1) [of i] ok(2) [of i] src by (simp add: node_ok_def)
    next
      case (OperatorNode op ins)
      then obtain op' where op': "n' = OperatorNode op' ins" "op_config op' = op_config op" using n'(2) by (cases n') auto
      have inv: "op_inv op (map H ins)" "op_inv op' (map H' ins)"
        and out: "\<And>r. zw (H i) r = op_out op (map H ins) r" "\<And>r. zw (E i) r = op_errs op (map H ins) r"
          "\<And>r. zw (H' i) r = op_out op' (map H' ins) r" "\<And>r. zw (E' i) r = op_errs op' (map H' ins) r"
        using ok(1) [of i] ok(2) [of i] Some n'(1) OperatorNode op'(1) by (simp_all add: node_ok_def)
      have "zw (H j) = zw (H' j)" if "j \<in> set ins" for j
      proof -
        have "j < i" "get_node ns j \<noteq> None"
          using ok(1) [of i] Some OperatorNode that by (auto simp: node_ok_def list_all2_conv_all_nth in_set_conv_nth)
        then show ?thesis using less.IH by blast
      qed
      then have z: "zeqs (map H ins) (map H' ins)" by (simp add: zeqs_def list_all2_conv_all_nth)
      have "op = op'"
        by (rule op_determined [OF inv z]) (use op'(2) primed Some n'(1) OperatorNode op'(1) in auto)
      then show ?thesis using Some n'(1) OperatorNode op'(1) out op_inv_cong(2,3) [OF inv(1) z] by (auto simp: fun_eq_iff)
    qed
  qed
qed

lemma store_determined: "store_holds st s W \<Longrightarrow> store_holds st' s W \<Longrightarrow> st = st'"
  using canon_unique by (auto simp: store_holds_def intro!: result_store.equality)

lemma circuit_determined:
  assumes inv: "circuit_inv c H E" "circuit_inv c' H' E'" and wiring: "same_wiring c c'"
    and primed: "all_primed c" "all_primed c'"
    and src: "\<And>i t a s. get_node (ci_nodes c) i = Some (SourceNode t a s) \<Longrightarrow> zw (H i) = zw (H' i)"
  shows "ci_nodes c = ci_nodes c'" "ci_sinks c = ci_sinks c'"
proof -
  have ok: "\<And>i. node_ok (ci_nodes c) H E i" "\<And>i. node_ok (ci_nodes c') H' E' i"
    and so: "\<And>s. Some s \<in> set (ci_sinks c) \<Longrightarrow> sink_ok (ci_nodes c) H E s" "\<And>s. Some s \<in> set (ci_sinks c') \<Longrightarrow> sink_ok (ci_nodes c') H' E' s"
    using inv by (auto simp: circuit_inv_def circuit_ok_def)
  have same: "get_node (ci_nodes c) i = get_node (ci_nodes c') i
      \<and> (get_node (ci_nodes c) i \<noteq> None \<longrightarrow> zw (H i) = zw (H' i) \<and> zw (E i) = zw (E' i))" for i
  proof (rule node_determined [OF ok])
    show "map_option node_config (get_node (ci_nodes c') i) = map_option node_config (get_node (ci_nodes c) i)" for i
      using wiring by (simp add: same_wiring_def)
    show "op_primed op" if "get_node (ci_nodes c) i = Some (OperatorNode op ins)" for i op ins
      using primed(1) that unfolding all_primed_def by blast
    show "op_primed op" if "get_node (ci_nodes c') i = Some (OperatorNode op ins)" for i op ins
      using primed(2) that unfolding all_primed_def by blast
  qed (rule src)
  show nodes: "ci_nodes c = ci_nodes c'"
  proof (rule nth_equalityI)
    show "length (ci_nodes c) = length (ci_nodes c')" using wiring by (simp add: same_wiring_def)
    fix i assume "i < length (ci_nodes c)"
    then show "ci_nodes c ! i = ci_nodes c' ! i" using same [of i] wiring
      by (auto simp: same_wiring_def get_node_def split: option.splits)
  qed
  have sink: "s = s'" if s: "Some s \<in> set (ci_sinks c)" "Some s' \<in> set (ci_sinks c')"
    and eq: "sk_node s' = sk_node s" "sk_ancestors s' = sk_ancestors s" for s s'
  proof -
    obtain n where n: "get_node (ci_nodes c) (sk_node s) = Some n" "store_holds (sk_result s) (node_schema n) (zw (H (sk_node s)))"
        "store_holds (sk_errors s) err_schema (\<lambda>r. \<Sum>i \<in> sk_ancestors s. zw (E i) r)"
      using so(1) [OF s(1)] by (auto simp: sink_ok_def)
    have n': "store_holds (sk_result s') (node_schema n) (zw (H' (sk_node s)))"
        "store_holds (sk_errors s') err_schema (\<lambda>r. \<Sum>i \<in> sk_ancestors s. zw (E' i) r)"
      using so(2) [OF s(2)] eq n(1) nodes by (auto simp: sink_ok_def)
    have live: "get_node (ci_nodes c) i \<noteq> None" if "i \<in> sk_ancestors s" for i
      using that inv(1) s(1) upstream_live [OF ok(1), of "sk_node s" i] n(1) by (auto simp: circuit_inv_def)
    have "(\<Sum>i \<in> sk_ancestors s. zw (E i) r) = (\<Sum>i \<in> sk_ancestors s. zw (E' i) r)" for r
      using live same by (intro sum.cong) auto
    then have "sk_errors s = sk_errors s'" using store_determined n(3) store_holds_cong [OF n'(2)] by metis
    moreover have "sk_result s = sk_result s'" using store_determined n n'(1) same [of "sk_node s"] by auto
    ultimately show ?thesis using eq by (intro sink.equality) simp_all
  qed
  have l2: "list_all2 (rel_option (\<lambda>s s'. sk_node s' = sk_node s \<and> sk_ancestors s' = sk_ancestors s)) (ci_sinks c) (ci_sinks c')"
    using wiring by (simp add: same_wiring_def)
  show "ci_sinks c = ci_sinks c'"
  proof (rule nth_equalityI)
    show "length (ci_sinks c) = length (ci_sinks c')" by (rule list_all2_lengthD [OF l2])
    fix k assume k: "k < length (ci_sinks c)"
    then show "ci_sinks c ! k = ci_sinks c' ! k"
      using list_all2_nthD [OF l2 k] sink [of "the (ci_sinks c ! k)" "the (ci_sinks c' ! k)"]
        nth_mem [OF k] nth_mem [of k "ci_sinks c'"] list_all2_lengthD [OF l2]
      by (cases "ci_sinks c ! k"; cases "ci_sinks c' ! k") auto
  qed
qed

section \<open>Sealing a sequence of epochs\<close>

definition seal_epochs :: "epoch_deltas list \<Rightarrow> circuit \<Rightarrow> (circuit_error, unit) result \<times> circuit" where
  "seal_epochs ds c = loopM (\<lambda>d c. case step d c of (Inl e, c') \<Rightarrow> (Err e, c') | (Inr _, c') \<Rightarrow> (Ok (), c')) ds c"

definition accumulated :: "epoch_deltas list \<Rightarrow> string \<Rightarrow> entries" where
  "accumulated ds t = concat (map (\<lambda>d. entries_for d t) ds)"

lemma same_wiring_refl: "same_wiring c c"
  by (auto simp: same_wiring_def list_all2_conv_all_nth intro!: option.rel_refl)

lemma same_wiring_trans:
  assumes "same_wiring a b" "same_wiring b c"
  shows "same_wiring a c"
proof -
  let ?R = "rel_option (\<lambda>s s'. sk_node s' = sk_node s \<and> sk_ancestors s' = sk_ancestors s)"
  have "list_all2 ?R (ci_sinks a) (ci_sinks c)"
  proof (rule list_all2_trans)
    show "?R x z" if "?R x y" "?R y z" for x y z using that by (cases x; cases y; cases z) auto
  qed (use assms in \<open>auto simp: same_wiring_def\<close>)
  then show ?thesis using assms by (simp add: same_wiring_def)
qed

lemma same_wiring_sym:
  assumes "same_wiring a b"
  shows "same_wiring b a"
proof -
  let ?R = "rel_option (\<lambda>s s'. sk_node s' = sk_node s \<and> sk_ancestors s' = sk_ancestors s)"
  have l2: "list_all2 ?R (ci_sinks a) (ci_sinks b)" using assms by (simp add: same_wiring_def)
  have "list_all2 ?R (ci_sinks b) (ci_sinks a)"
  proof (rule list_all2_all_nthI)
    fix i assume "i < length (ci_sinks b)"
    from list_all2_nthD2 [OF l2 this] show "?R (ci_sinks b ! i) (ci_sinks a ! i)"
      by (cases "ci_sinks a ! i"; cases "ci_sinks b ! i") auto
  qed (use list_all2_lengthD [OF l2] in simp)
  then show ?thesis using assms by (simp add: same_wiring_def)
qed

lemma step_reach:
  assumes "reach c H E" "step d c = (Ok e, c')"
  shows "same_wiring c c'" "all_primed c'"
    "\<And>i t a s. get_node (ci_nodes c) i = Some (SourceNode t a s) \<Longrightarrow> emits d None c i = entries_for d t"
proof -
  have ok: "circuit_ok c H E" using reach_inv [OF assms(1)] by (simp add: circuit_inv_def)
  obtain c1 where c1: "pass d None c = (Ok (), c1)" "c' = c1\<lparr>ci_epoch := ci_epoch c1 + 1\<rparr>"
    using assms(2) by (auto simp: step_def split: prod.splits sum.splits)
  note p = pass_Ok [OF c1(1) ok closed_subset_None]
  show "same_wiring c c'" using p(2) c1(2) by (simp add: same_wiring_def same_shape_def)
  show "all_primed c'" using p(5) c1(2) by (auto simp: all_primed_def included_def)
  show "\<And>i t a s. get_node (ci_nodes c) i = Some (SourceNode t a s) \<Longrightarrow> emits d None c i = entries_for d t"
    using p(3) by (simp add: included_def)
qed

lemma seal_reach:
  assumes "reach c H E" "seal_epochs ds c = (Ok (), c')"
  shows "\<exists>H' E'. reach c' H' E' \<and> same_wiring c c' \<and> (ds \<noteq> [] \<or> all_primed c \<longrightarrow> all_primed c')
    \<and> (\<forall>i t a s. get_node (ci_nodes c) i = Some (SourceNode t a s) \<longrightarrow> H' i = H i @ accumulated ds t)"
  using assms
proof (induction ds arbitrary: c H E)
  case Nil
  then show ?case using same_wiring_refl by (auto simp: seal_epochs_def accumulated_def)
next
  case (Cons d ds)
  obtain e c1 where c1: "step d c = (Ok e, c1)" and rest: "seal_epochs ds c1 = (Ok (), c')"
    using Cons.prems(2) by (auto simp: seal_epochs_def split: prod.splits sum.splits)
  note st = step_reach [OF Cons.prems(1) c1]
  from Cons.IH [OF reach_step [OF Cons.prems(1) c1] rest] obtain H' E' where r: "reach c' H' E'" "same_wiring c1 c'"
      "ds \<noteq> [] \<or> all_primed c1 \<longrightarrow> all_primed c'"
    and src: "\<And>i t a s. get_node (ci_nodes c1) i = Some (SourceNode t a s) \<Longrightarrow> H' i = (H i @ emits d None c i) @ accumulated ds t"
    by blast
  have "H' i = H i @ accumulated (d # ds) t" if n: "get_node (ci_nodes c) i = Some (SourceNode t a s)" for i t a s
  proof -
    have "get_node (ci_nodes c1) i = Some (SourceNode t a s)"
      using st(1) n by (auto simp: same_wiring_def node_config_source dest!: spec [of _ i])
    then show ?thesis using src st(3) [OF n] by (simp add: accumulated_def)
  qed
  then show ?case using r st(2) same_wiring_trans [OF st(1) r(2)] by blast
qed

section \<open>Answers\<close>

definition live_errors :: "circuit \<Rightarrow> (nat \<Rightarrow> entries) \<Rightarrow> sink \<Rightarrow> row \<Rightarrow> int" where
  "live_errors c E s r = (\<Sum>i \<in> (edges (ci_nodes c))\<^sup>* `` {sk_node s}. zw (E i) r)"

lemma error_row_form: "row_conforms err_schema r \<Longrightarrow> \<exists>m. r = [VStr m]"
proof -
  assume "row_conforms err_schema r"
  then obtain z where "r = [z]" "z \<noteq> VNull" "fits z Utf8"
    by (auto simp: row_conforms_def err_schema_def value_conforms_def field_not_null_def list_all2_Cons1
        split: if_splits)
  then show ?thesis by (cases z) (auto simp: fits_def)
qed

lemma vstr_le: "[VStr a] \<le> [VStr b] \<longleftrightarrow> a \<le> b"
  by (auto simp: less_sql_value_def cmp_of_def split: if_splits)

lemma answer_of_live:
  assumes holds: "store_holds (sk_errors s) err_schema W" and s: "sink_at c k = Ok s" and live: "W r \<noteq> 0"
  shows "\<exists>m. answer_of c k = Err (LiveEvaluationError m) \<and> W [VStr m] \<noteq> 0 \<and> (\<forall>m'. W [VStr m'] \<noteq> 0 \<longrightarrow> m \<le> m')"
proof -
  let ?es = "rs_integral (sk_errors s)"
  have c: "canon ?es" and w: "zw ?es = W" and conf: "\<forall>e \<in> set ?es. row_conforms err_schema (fst e)"
    using holds by (auto simp: store_holds_def)
  have supp: "{v. W v \<noteq> 0} = fst ` set ?es" using canon_support [OF c] by (simp add: w)
  have "?es \<noteq> []" using live w by auto
  then obtain r1 w1 rest where es: "?es = (r1, w1) # rest" by (cases ?es) auto
  then obtain m where r1: "r1 = [VStr m]" using conf error_row_form by fastforce
  have "answer_of c k = Err (LiveEvaluationError m)"
    using s es r1 store_canonical_Ok [OF holds] by (simp add: answer_of_def store_is_empty_def)
  moreover have "W [VStr m] \<noteq> 0"
    using supp es r1 by auto
  moreover have "m \<le> m'" if "W [VStr m'] \<noteq> 0" for m'
  proof -
    have "[VStr m'] \<in> fst ` set ?es" using supp that by blast
    then have "[VStr m] \<le> [VStr m']" using c es r1 by (force simp: canon_def)
    then show ?thesis by (simp only: vstr_le)
  qed
  ultimately show ?thesis by blast
qed

lemma answer_of_quiet:
  assumes "store_holds (sk_errors s) err_schema (\<lambda>r. 0)" "sink_at c k = Ok s" "store_holds (sk_result s) sch W"
  shows "\<exists>es. answer_of c k = Ok \<lparr>ca_schema = sch, ca_entries = es\<rparr> \<and> canon es \<and> zw es = W"
proof -
  have "rs_integral (sk_errors s) = []"
    using assms(1) canon_unique [of "rs_integral (sk_errors s)" "[]"] by (simp add: store_holds_def canon_def fun_eq_iff)
  then show ?thesis
    using assms store_canonical_Ok [OF assms(3)] by (simp add: answer_of_def store_is_empty_def store_holds_def)
qed

lemma sink_stores:
  assumes "reach c H E" "sink_at c k = Ok s"
  shows "store_holds (sk_result s) (rs_schema (sk_result s)) (zw (H (sk_node s)))"
    "store_holds (sk_errors s) err_schema (live_errors c E s)"
    "\<exists>n. get_node (ci_nodes c) (sk_node s) = Some n \<and> rs_schema (sk_result s) = node_schema n"
proof -
  have s: "Some s \<in> set (ci_sinks c)"
    using assms(2) by (auto simp: sink_at_def nth_opt_def split: option.splits if_splits) (metis nth_mem)
  then have "sk_ancestors s = (edges (ci_nodes c))\<^sup>* `` {sk_node s}" "sink_ok (ci_nodes c) H E s"
    using reach_inv [OF assms(1)] by (auto simp: circuit_inv_def circuit_ok_def)
  then show "store_holds (sk_result s) (rs_schema (sk_result s)) (zw (H (sk_node s)))"
    "store_holds (sk_errors s) err_schema (live_errors c E s)"
    "\<exists>n. get_node (ci_nodes c) (sk_node s) = Some n \<and> rs_schema (sk_result s) = node_schema n"
    by (auto simp: sink_ok_def live_errors_def [abs_def] store_holds_def)
qed

lemma same_wiring_source:
  assumes "same_wiring c c'" "get_node (ci_nodes c') i = Some (SourceNode t a s)"
  shows "get_node (ci_nodes c) i = Some (SourceNode t a s)"
proof -
  have "map_option node_config (get_node (ci_nodes c) i) = Some (SourceNode t a s)"
    using assms unfolding same_wiring_def by (metis node_config.simps(1) option.simps(9))
  then show ?thesis by (cases "get_node (ci_nodes c) i") (auto simp: node_config_source)
qed

end
