(* ===== verification/Circuit_Claims.thy ===== *)
theory Circuit_Claims
  imports Circuit_Reach
begin

text \<open>
  The promises of the circuit runtime, over every reachable circuit: the answer of a sink is the
  integral of its stream, or the least live error; declared state bounds are never exceeded; and the
  state after a sequence of epochs does not depend on how the changes were split into epochs. A small
  circuit, \<open>SELECT DISTINCT x FROM t\<close>, serves as the concrete instance.
\<close>

section \<open>A concrete circuit\<close>

definition ex_t_schema :: schema where
  "ex_t_schema = \<lparr>sc_fields = [\<lparr>f_name = ''t.x'', f_data_type = Int64, f_nullable = True\<rparr>]\<rparr>"

definition ex_wired :: circuit where
  "ex_wired = snd (add_sink 1 (snd (attach (OpDistinct (distinct_new ex_t_schema mem_new)) [0] False
    (snd (attach_source ''t'' ''t'' ex_t_schema circuit_empty)))))"

definition ex_primed :: circuit where
  "ex_primed = snd (prime ex_wired)"

definition ex_epochs :: "epoch_deltas list" where
  "ex_epochs = [[(''t'', [([VInt 1], 1), ([VInt 2], 1)])], [(''t'', [([VInt 1], 1), ([VInt 2], - 1)])]]"

definition ex_one_epoch :: "epoch_deltas list" where
  "ex_one_epoch = [[(''t'', [([VInt 1], 2)])]]"

lemma fresh_distinct: "op_fresh (OpDistinct (distinct_new s mem_new))"
  by (auto simp: op_fresh_def distinct_new_def distinct_inv_def sign_def)

lemma ex_wired_reach: "reach ex_wired (\<lambda>_. []) (\<lambda>_. [])"
proof -
  let ?c1 = "snd (attach_source ''t'' ''t'' ex_t_schema circuit_empty)"
  let ?op = "OpDistinct (distinct_new ex_t_schema mem_new)"
  let ?c2 = "snd (attach ?op [0] False ?c1)"
  have "schema_ok ex_t_schema" "attach_source ''t'' ''t'' ex_t_schema circuit_empty = (Ok 0, ?c1)" by code_simp+
  then have c1: "reach ?c1 (\<lambda>_. []) (\<lambda>_. [])" by (rule reach_attach_source [OF reach_empty])
  have "attach ?op [0] False ?c1 = (Ok 1, ?c2)" "mapR (node_output_schema ?c1) [0] = Ok (op_in_schemas ?op)" by code_simp+
  then have c2: "reach ?c2 (\<lambda>_. []) (\<lambda>_. [])"
    by (rule reach_attach [OF c1 fresh_distinct]) simp
  have "add_sink 1 ?c2 = (Ok 0, ex_wired)" by code_simp
  then show ?thesis by (rule reach_add_sink [OF c2]) simp
qed

lemma ex_primed_reach:
  "reach ex_primed (\<lambda>i. [] @ emits [] None ex_wired i) (\<lambda>i. [] @ raises [] None ex_wired i)"
proof -
  have "prime ex_wired = (Ok (), ex_primed)" by code_simp
  then show ?thesis by (rule reach_prime [OF ex_wired_reach])
qed

lemma ex_seals:
  "seal_epochs ex_epochs ex_primed = (Ok (), snd (seal_epochs ex_epochs ex_primed))"
  "seal_epochs ex_one_epoch ex_primed = (Ok (), snd (seal_epochs ex_one_epoch ex_primed))"
  by code_simp+

section \<open>The state-bound check of a pass\<close>

definition declaration_error :: "(circuit_error, unit) result \<Rightarrow> bool" where
  "declaration_error res = (case res of
      Inl (StateBoundViolated _ _ _ _) \<Rightarrow> True
    | Inl (UnboundedStateNotAdmissible _ _) \<Rightarrow> True
    | _ \<Rightarrow> False)"

lemma declaration_error_simps [simp]: "\<not> declaration_error (Ok u)" "\<not> declaration_error (Err (CircuitZSet e))"
  by (simp_all add: declaration_error_def)

text \<open>The node loop leaves a circuit whose ledger counts the extended histories, whatever comes after it.\<close>

lemma declarations_after_loop:
  assumes inv: "circuit_inv c H E" and closed: "closed_subset only (ci_nodes c)"
    and l: "loopM (pass_node deltas only) [0..<length (ci_nodes c)] (c, [], []) = (Ok (), c1, outs, errs)"
    and sz: "\<And>i op ins. get_node (ci_nodes c1) i = Some (OperatorNode op ins) \<Longrightarrow> int (op_state_size op) \<le> usize_max"
  shows "check_state_declarations c1 = Ok ()"
proof -
  have ok: "circuit_ok c H E" using inv by (simp add: circuit_inv_def)
  then have nodes: "\<And>i. node_ok (ci_nodes c) H E i" and len: "length (ci_emitted c) = length (ci_nodes c)"
    by (simp_all add: circuit_ok_def)
  have loop: "loop_state deltas only c (length (ci_nodes c)) (c1, outs, errs)" by (rule node_loop_Ok [OF l _ len]) simp
  have "circuit_ok (c1\<lparr>ci_sinks := []\<rparr>) (\<lambda>i. H i @ delta_of outs i) (\<lambda>i. E i @ errs_of errs i)"
    using loop_semantics [OF loop nodes closed] loop_ledger [OF loop ok closed] loop len
    by (auto simp: circuit_ok_def loop_state_def)
  then have "check_state_declarations (c1\<lparr>ci_sinks := []\<rparr>) = Ok ()" by (rule declarations_Ok) (use sz in simp)
  moreover have "state_budget (c1\<lparr>ci_sinks := []\<rparr>) = state_budget c1"
    by (simp add: fun_eq_iff state_budget_def emitted_at_def split: state_bound.split)
  then have "check_declaration (c1\<lparr>ci_sinks := []\<rparr>) = check_declaration c1"
    by (auto simp: fun_eq_iff check_declaration_def split: option.split node.split)
  ultimately show ?thesis by (simp add: check_state_declarations_def)
qed

lemma loopM_no_declaration_error:
  assumes "\<And>x s. \<not> declaration_error (fst (f x s))"
  shows "\<not> declaration_error (fst (loopM f xs s))"
proof (induction xs arbitrary: s)
  case (Cons x xs)
  show ?case using Cons.IH assms [of x s] by (auto split: prod.splits sum.splits)
qed simp

lemma pass_node_no_declaration_error: "\<not> declaration_error (fst (pass_node deltas only i st))"
proof (cases st)
  case (fields c outputs errors)
  have "mapR (input_batch outputs) ins = Err e \<Longrightarrow> \<exists>j. e = UnknownNode j" for ins e
    by (induction ins) (auto simp: input_batch_def result_simps split: option.splits)
  then show ?thesis unfolding fields
    by (fastforce simp: declaration_error_def source_batch_def map_err_def Let_def split: option.splits node.splits sum.splits prod.splits bool.splits)
qed

lemma absorb_no_declaration_error: "\<not> declaration_error (fst (absorb delta st))"
proof -
  have "\<not> declaration_error (fst (absorb_entry e m))" for e m
    by (cases e) (auto simp: declaration_error_def split: option.splits)
  then have "\<not> declaration_error (fst (loopM absorb_entry es m))" for es m by (rule loopM_no_declaration_error)
  then show ?thesis by (auto simp: absorb_def split: sum.splits prod.splits) (metis fst_conv)
qed

lemma update_sink_no_declaration_error:
  assumes "\<And>s. \<not> declaration_error (fst (f s))"
  shows "\<not> declaration_error (fst (update_sink i f c))"
  using assms by (auto simp: update_sink_def split: option.splits prod.splits) (metis fst_conv)

lemma pass_no_declaration_error:
  assumes l: "loopM (pass_node deltas only) [0..<length (ci_nodes c)] (c, [], []) = (res, c1, outs, errs)"
    and check: "res = Ok () \<Longrightarrow> check_state_declarations c1 = Ok ()"
  shows "\<not> declaration_error (fst (pass deltas only c))"
proof (cases res)
  case (Inl e)
  then show ?thesis
    using l loopM_no_declaration_error [of "pass_node deltas only" "[0..<length (ci_nodes c)]" "(c, [], [])"]
      pass_node_no_declaration_error by (simp add: pass_def)
next
  case (Inr u)
  have r: "\<not> declaration_error (fst (absorb_results outs c1))"
    unfolding absorb_results_def
    by (intro loopM_no_declaration_error update_sink_no_declaration_error)
      (use absorb_no_declaration_error in \<open>auto simp: absorb_result_def split: option.splits prod.splits, metis fst_conv\<close>)
  have "\<not> declaration_error (fst (absorb_errors e c'))" for e c'
    unfolding absorb_errors_def
    by (intro loopM_no_declaration_error update_sink_no_declaration_error)
      (use absorb_no_declaration_error in \<open>auto simp: absorb_error_def split: prod.splits, metis fst_conv\<close>)
  then have "\<not> declaration_error (fst (loopM absorb_errors errs c2))" for c2 by (rule loopM_no_declaration_error)
  then show ?thesis using l Inr check r by (auto simp: pass_def split: prod.splits sum.splits)
qed

section \<open>Claims\<close>



text \<open>
  C31. The state-bound check of a pass never trips. Whatever deltas a pass over a reachable circuit is given,
  when its node loop has run no operator holds more entries than its declaration allows for the entries
  its inputs have emitted: the check that follows finds nothing, so the pass, whether it succeeds or
  fails, does not fail with a state-bound error. The conditions are that the pass covers the consumers
  it must and that an operator's entry count fits a \<open>usize\<close>.
\<close>

theorem state_declarations_respected:
  assumes "reach c H E" "closed_subset only (ci_nodes c)"
    and "\<And>i op ins. get_node (ci_nodes (fst (pass_trace deltas only c))) i = Some (OperatorNode op ins)
      \<Longrightarrow> int (op_state_size op) \<le> usize_max"
  shows "(is_ok (fst (loopM (pass_node deltas only) [0..<length (ci_nodes c)] (c, [], [])))
      \<longrightarrow> check_state_declarations (fst (pass_trace deltas only c)) = Ok ())
    \<and> \<not> declaration_error (fst (pass deltas only c))"
proof -
  obtain res c1 outs errs where l: "loopM (pass_node deltas only) [0..<length (ci_nodes c)] (c, [], []) = (res, c1, outs, errs)"
    by (metis prod_cases4)
  have "check_state_declarations c1 = Ok ()" if "res = Ok ()"
    using declarations_after_loop [OF reach_inv [OF assms(1)] assms(2) l [unfolded that]] assms(3) l by (simp add: pass_trace_def)
  moreover from this have "\<not> declaration_error (fst (pass deltas only c))"
    by (rule pass_no_declaration_error [OF l])
  ultimately show ?thesis using l by (cases res) (simp_all add: pass_trace_def)
qed

theorem state_declarations_respected_witness:
  "\<not> declaration_error (fst (pass [(''t'', [([VInt 3], 1)])] None (snd (seal_epochs ex_epochs ex_primed))))
    \<and> check_state_declarations (fst (pass_trace [(''t'', [([VInt 3], 1)])] None (snd (seal_epochs ex_epochs ex_primed)))) = Ok ()
    \<and> total_state_size (fst (pass_trace [(''t'', [([VInt 3], 1)])] None (snd (seal_epochs ex_epochs ex_primed)))) = 2"
proof -
  let ?c = "snd (seal_epochs ex_epochs ex_primed)" and ?d = "[(''t'', [([VInt 3], 1)])]"
  obtain H E where r: "reach ?c H E" using seal_reach [OF ex_primed_reach ex_seals(1)] by blast
  have "list_all (\<lambda>n. case n of Some (OperatorNode op _) \<Rightarrow> int (op_state_size op) \<le> usize_max | _ \<Rightarrow> True)
      (ci_nodes (fst (pass_trace ?d None ?c)))"
    by code_simp
  then have "int (op_state_size op) \<le> usize_max"
    if "get_node (ci_nodes (fst (pass_trace ?d None ?c))) i = Some (OperatorNode op ins)" for i op ins
    using that by (auto simp: get_node_Some list_all_length)
  moreover have "is_ok (fst (loopM (pass_node ?d None) [0..<length (ci_nodes ?c)] (?c, [], [])))"
    "total_state_size (fst (pass_trace ?d None ?c)) = 2" by code_simp+
  ultimately show ?thesis using state_declarations_respected [OF r closed_subset_None, of ?d] by blast
qed

text \<open>
  C32. The state of a circuit is a function of the accumulated input. Two sequences of epochs that add
  up to the same weight of every row of every table leave a reachable, primed circuit with the same
  operators, the same operator state and the same answer and error stores, however the changes were
  divided into epochs, and so with the same answers.
\<close>

theorem epoch_split_invariance:
  assumes "reach c H E" "all_primed c" "seal_epochs ds c = (Ok (), c1)" "seal_epochs ds' c = (Ok (), c2)"
    and "\<And>t. zw (accumulated ds t) = zw (accumulated ds' t)"
  shows "ci_nodes c1 = ci_nodes c2 \<and> ci_sinks c1 = ci_sinks c2 \<and> answer_of c1 k = answer_of c2 k"
proof -
  obtain H1 E1 where r1: "reach c1 H1 E1" "same_wiring c c1" "all_primed c1"
      "\<And>i t a s. get_node (ci_nodes c) i = Some (SourceNode t a s) \<Longrightarrow> H1 i = H i @ accumulated ds t"
    using seal_reach [OF assms(1,3)] assms(2) by blast
  obtain H2 E2 where r2: "reach c2 H2 E2" "same_wiring c c2" "all_primed c2"
      "\<And>i t a s. get_node (ci_nodes c) i = Some (SourceNode t a s) \<Longrightarrow> H2 i = H i @ accumulated ds' t"
    using seal_reach [OF assms(1,4)] assms(2) by blast
  have "zw (H1 i) = zw (H2 i)" if "get_node (ci_nodes c1) i = Some (SourceNode t a s)" for i t a s
  proof -
    note same_wiring_source [OF r1(2) that]
    then show ?thesis using r1(4) r2(4) assms(5) [of t] by (simp add: fun_eq_iff)
  qed
  from circuit_determined [OF reach_inv [OF r1(1)] reach_inv [OF r2(1)] same_wiring_trans [OF same_wiring_sym [OF r1(2)] r2(2)] r1(3) r2(3) this]
  show ?thesis by (simp add: answer_of_def sink_at_def)
qed

theorem epoch_split_invariance_witness:
  "ci_nodes (snd (seal_epochs ex_epochs ex_primed)) = ci_nodes (snd (seal_epochs ex_one_epoch ex_primed))
    \<and> answer_of (snd (seal_epochs ex_one_epoch ex_primed)) 0 = Ok \<lparr>ca_schema = ex_t_schema, ca_entries = [([VInt 1], 1)]\<rparr>"
proof -
  have "zw (accumulated ex_epochs t) = zw (accumulated ex_one_epoch t)" for t
    by (cases "t = ''t''") (auto simp: fun_eq_iff accumulated_def ex_epochs_def ex_one_epoch_def entries_for_def bt_get_or_def)
  moreover have "list_all (\<lambda>n. case n of Some (OperatorNode op _) \<Rightarrow> op_primed op | _ \<Rightarrow> True) (ci_nodes ex_primed)" by code_simp
  then have "all_primed ex_primed" by (auto simp: all_primed_def get_node_Some list_all_length)
  moreover have "answer_of (snd (seal_epochs ex_one_epoch ex_primed)) 0 = Ok \<lparr>ca_schema = ex_t_schema, ca_entries = [([VInt 1], 1)]\<rparr>"
    by code_simp
  ultimately show ?thesis using epoch_split_invariance [OF ex_primed_reach _ ex_seals] by blast
qed

end
