(* ===== verification/Circuit_Plan.thy ===== *)
theory Circuit_Plan
  imports Circuit_Reach
begin

text \<open>
  From a bound query to a running circuit (\<open>schweep-sql\<close>): the plan tree of \<open>circuit_plan.rs\<close>, the
  incrementalizer of \<open>incremental.rs\<close> that chooses one operator per stage, and the constructor of
  \<open>instantiate.rs\<close> that wires the operators into a circuit, each stateful one over a fresh in-memory
  backend. The rendering of an error inside a wiring mismatch is kept as the error itself.
\<close>

section \<open>Plans\<close>

datatype circuit_node =
    CnSource string string schema
  | CnFilter circuit_node naming expr
  | CnProject circuit_node naming "expr named list" schema
  | CnJoin circuit_node circuit_node "(nat \<times> nat) list" schema
  | CnAggregate circuit_node "expr named list" "agg_func named list" schema
  | CnDistinct circuit_node

datatype rule = RuleInput | RuleLinear | RuleBilinear | RuleStatefulPerGroup | RuleStatefulPerRow

record circuit_plan =
  cp_root :: circuit_node
  cp_output_schema :: schema

fun cn_schema :: "circuit_node \<Rightarrow> schema" where
  "cn_schema (CnSource _ _ s) = s"
| "cn_schema (CnProject _ _ _ s) = s"
| "cn_schema (CnJoin _ _ _ s) = s"
| "cn_schema (CnAggregate _ _ _ s) = s"
| "cn_schema (CnFilter input _ _) = cn_schema input"
| "cn_schema (CnDistinct input) = cn_schema input"

fun cn_rule :: "circuit_node \<Rightarrow> rule" where
  "cn_rule (CnSource _ _ _) = RuleInput"
| "cn_rule (CnFilter _ _ _) = RuleLinear"
| "cn_rule (CnProject _ _ _ _) = RuleLinear"
| "cn_rule (CnJoin _ _ _ _) = RuleBilinear"
| "cn_rule (CnAggregate _ _ _ _) = RuleStatefulPerGroup"
| "cn_rule (CnDistinct _) = RuleStatefulPerRow"

fun cn_children :: "circuit_node \<Rightarrow> circuit_node list" where
  "cn_children (CnSource _ _ _) = []"
| "cn_children (CnFilter input _ _) = [input]"
| "cn_children (CnProject input _ _ _) = [input]"
| "cn_children (CnAggregate input _ _ _) = [input]"
| "cn_children (CnDistinct input) = [input]"
| "cn_children (CnJoin left right _ _) = [left, right]"

fun cn_nodes :: "circuit_node \<Rightarrow> circuit_node list" where
  "cn_nodes (CnSource t a s) = [CnSource t a s]"
| "cn_nodes (CnFilter input n p) = cn_nodes input @ [CnFilter input n p]"
| "cn_nodes (CnProject input n items s) = cn_nodes input @ [CnProject input n items s]"
| "cn_nodes (CnAggregate input ks as s) = cn_nodes input @ [CnAggregate input ks as s]"
| "cn_nodes (CnDistinct input) = cn_nodes input @ [CnDistinct input]"
| "cn_nodes (CnJoin left right on s) = cn_nodes left @ cn_nodes right @ [CnJoin left right on s]"

datatype wiring_evidence = EmittedText string | EmittedCircuit circuit_error | EmittedOp op_error | EmittedState state_error

datatype sql_error = SqlPlan plan_error | PlanWiringMismatch wiring_evidence string

definition sql_circuit_error :: "circuit_error \<Rightarrow> sql_error" where
  "sql_circuit_error e = PlanWiringMismatch (EmittedCircuit e) ''a circuit the plan describes''"

definition sql_state_error :: "state_error \<Rightarrow> sql_error" where
  "sql_state_error e = PlanWiringMismatch (EmittedState e) ''a state backend the plan's operators can use''"

definition sql_ops_error :: "op_error \<Rightarrow> sql_error" where
  "sql_ops_error e = PlanWiringMismatch (EmittedOp e) ''an operator the plan describes''"

section \<open>The incrementalizer\<close>

definition sql_index_of :: "schema \<Rightarrow> string \<Rightarrow> (sql_error, nat) result" where
  "sql_index_of s name = ok_or (index_of s name) (SqlPlan (UnknownColumn name (schema_to_string s)))"

fun source_node :: "source \<Rightarrow> catalog \<Rightarrow> (sql_error, circuit_node) result" where
  "source_node (Scan table al) cat =
    bindR (map_err SqlPlan (bind_source (Scan table al) cat)) (\<lambda>s. Ok (CnSource table al s))"
| "source_node (JoinSource left right on) cat =
    bindR (source_node left cat) (\<lambda>l.
    bindR (source_node right cat) (\<lambda>r.
    bindR (mapR (\<lambda>(ln, rn). bindR (sql_index_of (cn_schema l) ln) (\<lambda>li.
             bindR (sql_index_of (cn_schema r) rn) (\<lambda>ri. Ok (li, ri)))) on) (\<lambda>keys.
    bindR (map_err (\<lambda>e. SqlPlan (PlanZSet e)) (schema_new (sc_fields (cn_schema l) @ sc_fields (cn_schema r)))) (\<lambda>s.
    Ok (CnJoin l r keys s)))))"

definition plan_filter :: "expr option \<Rightarrow> circuit_node \<Rightarrow> circuit_node" where
  "plan_filter f n = (case f of None \<Rightarrow> n | Some p \<Rightarrow> CnFilter n Qualified p)"

definition plan_group :: "group_by option \<Rightarrow> schema \<Rightarrow> circuit_node \<Rightarrow> circuit_node" where
  "plan_group g grouped n = (case g of
      None \<Rightarrow> n
    | Some gb \<Rightarrow> (let a = CnAggregate n (gb_keys gb) (gb_aggregates gb) grouped in
        case gb_having gb of None \<Rightarrow> a | Some h \<Rightarrow> CnFilter a Unqualified h))"

definition plan_project :: "expr named list option \<Rightarrow> bool \<Rightarrow> schema \<Rightarrow> circuit_node \<Rightarrow> circuit_node" where
  "plan_project items is_grouped out n = (case items of
      None \<Rightarrow> n
    | Some is \<Rightarrow> CnProject n (if is_grouped then Unqualified else Qualified) is out)"

definition plan_distinct :: "bool \<Rightarrow> circuit_node \<Rightarrow> circuit_node" where
  "plan_distinct d n = (if d then CnDistinct n else n)"

definition plan_of :: "query \<Rightarrow> bound \<Rightarrow> catalog \<Rightarrow> (sql_error, circuit_plan) result" where
  "plan_of q b cat = bindR (source_node (q_source q) cat) (\<lambda>src.
    let node = plan_distinct (q_distinct q)
          (plan_project (q_project q) (q_group_by q \<noteq> None) (bd_output_schema b)
            (plan_group (q_group_by q) (bd_grouped_schema b) (plan_filter (q_filter q) src)))
    in if cn_schema node \<noteq> bd_output_schema b
       then Err (PlanWiringMismatch (EmittedText (schema_to_string (cn_schema node))) (schema_to_string (bd_output_schema b)))
       else Ok \<lparr>cp_root = node, cp_output_schema = bd_output_schema b\<rparr>)"

definition incrementalize :: "query \<times> bound \<Rightarrow> catalog \<Rightarrow> (sql_error, circuit_plan) result" where
  "incrementalize bq cat = plan_of (fst bq) (snd bq) cat"

definition incrementalize_typed :: "query \<Rightarrow> catalog \<Rightarrow> (sql_error, circuit_plan) result" where
  "incrementalize_typed q cat = bindR (map_err SqlPlan (bind q cat)) (\<lambda>b. plan_of q b cat)"

section \<open>Instantiation\<close>

text \<open>The in-memory backend factory (\<open>factory.rs\<close>): it remembers the labels it handed out.\<close>

type_synonym mem_factory = "string list"

definition factory_create :: "string \<Rightarrow> mem_factory \<Rightarrow> (state_error, mem_backend \<times> mem_factory) result" where
  "factory_create label f = Ok (mem_new, f @ [label])"

fun node_kind :: "circuit_node \<Rightarrow> string" where
  "node_kind (CnSource _ _ _) = ''source''"
| "node_kind (CnFilter _ _ _) = ''filter''"
| "node_kind (CnProject _ _ _ _) = ''project''"
| "node_kind (CnJoin _ _ _ _) = ''join''"
| "node_kind (CnAggregate _ _ _ _) = ''aggregate''"
| "node_kind (CnDistinct _) = ''distinct''"

definition backend_label :: "nat \<Rightarrow> circuit_node \<Rightarrow> string" where
  "backend_label n node = ''n'' @ show_nat n @ ''-'' @ node_kind node"

fun operator_for_with :: "circuit_node \<Rightarrow> string \<Rightarrow> mem_factory \<Rightarrow> (sql_error, operator option \<times> mem_factory) result" where
  "operator_for_with (CnSource _ _ _) label f = Ok (None, f)"
| "operator_for_with (CnFilter input n p) label f =
    bindR (map_err sql_ops_error (filter_new (cn_schema input) n p)) (\<lambda>op. Ok (Some (OpFilter op), f))"
| "operator_for_with (CnProject input n items _) label f =
    bindR (map_err sql_ops_error (project_new (cn_schema input) n items)) (\<lambda>op. Ok (Some (OpProject op), f))"
| "operator_for_with (CnJoin left right keys _) label f =
    bindR (map_err sql_state_error (factory_create (label @ ''-left'') f)) (\<lambda>(ml, f1).
    bindR (map_err sql_state_error (factory_create (label @ ''-right'') f1)) (\<lambda>(mr, f2).
    bindR (map_err sql_ops_error (join_new (cn_schema left) (cn_schema right) keys ml mr)) (\<lambda>op. Ok (Some (OpJoin op), f2))))"
| "operator_for_with (CnAggregate input keys aggs s) label f =
    bindR (map_err sql_state_error (factory_create label f)) (\<lambda>(m, f1).
    bindR (map_err sql_ops_error (aggregate_new (cn_schema input) s keys aggs m)) (\<lambda>op. Ok (Some (OpAggregate op), f1)))"
| "operator_for_with (CnDistinct input) label f =
    bindR (map_err sql_state_error (factory_create label f)) (\<lambda>(m, f1).
    Ok (Some (OpDistinct (distinct_new (cn_schema input) m)), f1))"

type_synonym build_state = "circuit_builder \<times> mem_factory"

definition add_operator :: "circuit_node \<Rightarrow> nat list \<Rightarrow> build_state \<Rightarrow> (sql_error, nat \<times> build_state) result" where
  "add_operator node inputs st =
    bindR (operator_for_with node (backend_label (length (cb_nodes (fst st))) node) (snd st)) (\<lambda>(op, f).
    bindR (ok_or op (PlanWiringMismatch (EmittedText ''a source with children'') ''an operator'')) (\<lambda>o'.
    bindR (map_err sql_circuit_error (builder_add o' inputs (fst st))) (\<lambda>(i, b). Ok (i, (b, f)))))"

fun add_node :: "circuit_node \<Rightarrow> build_state \<Rightarrow> (sql_error, nat \<times> build_state) result" where
  "add_node (CnSource table al s) st =
    bindR (map_err sql_circuit_error (builder_source table al s (fst st))) (\<lambda>(i, b). Ok (i, (b, snd st)))"
| "add_node (CnFilter input n p) st =
    bindR (add_node input st) (\<lambda>(j, st1). add_operator (CnFilter input n p) [j] st1)"
| "add_node (CnProject input n items s) st =
    bindR (add_node input st) (\<lambda>(j, st1). add_operator (CnProject input n items s) [j] st1)"
| "add_node (CnAggregate input ks as s) st =
    bindR (add_node input st) (\<lambda>(j, st1). add_operator (CnAggregate input ks as s) [j] st1)"
| "add_node (CnDistinct input) st =
    bindR (add_node input st) (\<lambda>(j, st1). add_operator (CnDistinct input) [j] st1)"
| "add_node (CnJoin left right keys s) st =
    bindR (add_node left st) (\<lambda>(j, st1).
    bindR (add_node right st1) (\<lambda>(k, st2). add_operator (CnJoin left right keys s) [j, k] st2))"

definition instantiate :: "circuit_plan \<Rightarrow> (sql_error, circuit) result" where
  "instantiate plan =
    bindR (add_node (cp_root plan) (builder_new, [])) (\<lambda>(root, st).
    bindR (map_err sql_circuit_error (build root (fst st))) (\<lambda>c.
    bindR (map_err sql_circuit_error (output_schema c)) (\<lambda>emitted.
    if emitted \<noteq> cp_output_schema plan
    then Err (PlanWiringMismatch (EmittedText (schema_to_string emitted)) (schema_to_string (cp_output_schema plan)))
    else Ok c)))"

end
