(* ===== verification/Circuit_Built.thy ===== *)
theory Circuit_Built
  imports Circuit_Plan
begin

text \<open>
  What instantiation builds. The builder's circuit is reached by attaching the same nodes one at a time,
  so the invariants of the runtime hold of it from the start; and the subtree of a plan occupies a
  contiguous interval of nodes, each holding an operator that implements its plan node.
\<close>

section \<open>Well-formed plans\<close>

fun plan_wf :: "circuit_node \<Rightarrow> bool" where
  "plan_wf (CnSource t a s) \<longleftrightarrow> schema_ok s"
| "plan_wf (CnFilter input n p) \<longleftrightarrow> plan_wf input"
| "plan_wf (CnProject input n items s) \<longleftrightarrow> plan_wf input \<and> projection_schema (Scope (cn_schema input) n) items = Ok s"
| "plan_wf (CnJoin l r keys s) \<longleftrightarrow> plan_wf l \<and> plan_wf r \<and> schema_new (sc_fields (cn_schema l) @ sc_fields (cn_schema r)) = Ok s"
| "plan_wf (CnAggregate input ks as s) \<longleftrightarrow> plan_wf input \<and> schema_ok s"
| "plan_wf (CnDistinct input) \<longleftrightarrow> plan_wf input"

lemma plan_wf_schema_ok: "plan_wf node \<Longrightarrow> schema_ok (cn_schema node)"
  by (induction node) (auto dest: projection_schema_Ok(2) schema_new_schema_ok)

lemma source_node_wf:
  "source_node src cat = Ok node \<Longrightarrow> plan_wf node \<and> (bind_source src cat = Ok s \<longrightarrow> cn_schema node = s)"
proof (induction src arbitrary: node s)
  case (Scan t a)
  then show ?case by (auto simp: result_simps dest: schema_new_schema_ok)
next
  case (JoinSource l r on)
  then show ?case by (auto simp: result_simps split: if_splits)
qed

lemma plan_of_wf:
  assumes "bind q cat = Ok b" "plan_of q b cat = Ok plan"
  shows "plan_wf (cp_root plan)" "cn_schema (cp_root plan) = bd_output_schema b" "cp_output_schema plan = bd_output_schema b"
proof -
  obtain src where src: "source_node (q_source q) cat = Ok src"
    and plan: "cp_root plan = plan_distinct (q_distinct q) (plan_project (q_project q) (q_group_by q \<noteq> None) (bd_output_schema b)
      (plan_group (q_group_by q) (bd_grouped_schema b) (plan_filter (q_filter q) src)))"
    and out: "cn_schema (cp_root plan) = bd_output_schema b" "cp_output_schema plan = bd_output_schema b"
    using assms(2) by (auto simp: plan_of_def bindR_eq_Ok Let_def split: if_splits)
  note bd = bind_Ok [OF assms(1)] and ok = bind_schemas_ok [OF assms(1)]
  have s: "plan_wf src" "cn_schema src = bd_input_schema b" using source_node_wf [OF src] bd(1) by auto
  have f: "plan_wf (plan_filter (q_filter q) src)" "cn_schema (plan_filter (q_filter q) src) = bd_input_schema b"
    using s by (auto simp: plan_filter_def split: option.split)
  have g: "plan_wf (plan_group (q_group_by q) (bd_grouped_schema b) (plan_filter (q_filter q) src))"
    "cn_schema (plan_group (q_group_by q) (bd_grouped_schema b) (plan_filter (q_filter q) src)) = bd_grouped_schema b"
    using f ok(2) bd(3) by (auto simp: plan_group_def Let_def split: option.split)
  show "plan_wf (cp_root plan)"
    unfolding plan using g bd(7) by (auto simp: plan_distinct_def plan_project_def grouped_naming_def split: option.split)
qed (use assms(2) in \<open>auto simp: plan_of_def bindR_eq_Ok Let_def split: if_splits\<close>)

section \<open>Operators implement plan nodes\<close>

fun op_implements :: "circuit_node \<Rightarrow> operator \<Rightarrow> bool" where
  "op_implements (CnFilter input n p) (OpFilter op) \<longleftrightarrow> op = \<lparr>fl_input_schema = cn_schema input, fl_predicate = p\<rparr>"
| "op_implements (CnProject input n items s) (OpProject op) \<longleftrightarrow>
    op = \<lparr>pj_input_schema = cn_schema input, pj_output_schema = s, pj_items = items\<rparr>"
| "op_implements (CnJoin l r keys s) (OpJoin op) \<longleftrightarrow> jo_left_schema op = cn_schema l \<and> jo_right_schema op = cn_schema r
    \<and> jo_output_schema op = s \<and> jo_left_key op = map fst keys \<and> jo_right_key op = map snd keys"
| "op_implements (CnAggregate input ks as s) (OpAggregate op) \<longleftrightarrow> ag_input_schema op = cn_schema input
    \<and> ag_output_schema op = s \<and> ag_keys op = ks \<and> ag_aggregates op = as"
| "op_implements (CnDistinct input) (OpDistinct op) \<longleftrightarrow> di_schema op = cn_schema input"
| "op_implements _ _ \<longleftrightarrow> False"

lemma op_implements_schemas:
  assumes "op_implements node op"
  shows "op_output_schema op = cn_schema node" "op_in_schemas op = map cn_schema (cn_children node)"
  using assms by (induction node op rule: op_implements.induct) auto

lemma op_implements_of_config [simp]: "op_implements node (op_config op) = op_implements node op"
  by (cases node; cases op) simp_all

lemma op_implements_config: "op_config op = op_config op' \<Longrightarrow> op_implements node op = op_implements node op'"
  by (metis op_implements_of_config)

lemma op_fresh_simps:
  "schema_ok (fl_input_schema fo) \<Longrightarrow> op_fresh (OpFilter fo)"
  "schema_ok (pj_output_schema po) \<Longrightarrow> op_fresh (OpProject po)"
  "join_inv jo [[], []] \<Longrightarrow> op_fresh (OpJoin jo)"
  "op_fresh (OpDistinct (distinct_new s mem_new))"
  by (auto simp: op_fresh_def filter_inv_def project_inv_def join_spec_def distinct_new_def distinct_inv_def sign_def
      numeral_2_eq_2)

lemma op_fresh_aggregate: "aggregate_new i out ks as mem_new = Ok op \<Longrightarrow> schema_ok out \<Longrightarrow> op_fresh (OpAggregate op)"
  using aggregate_new_inv [of i out ks as op] by (simp add: op_fresh_def agg_errors_def)

lemma operator_for_fresh:
  assumes "operator_for_with node label f = Ok (Some op, f')" "plan_wf node"
  shows "op_implements node op" "op_fresh op"
proof -
  have "op_implements node op \<and> op_fresh op"
    using assms
  proof (cases node)
    case (CnFilter input n p)
    then show ?thesis
      using assms plan_wf_schema_ok [of input] by (auto simp: result_simps filter_new_Ok op_fresh_simps)
  next
    case (CnProject input n items s)
    then show ?thesis
      using assms by (auto simp: result_simps project_new_def op_fresh_simps dest: projection_schema_Ok(2))
  next
    case (CnJoin l r keys s)
    then obtain jo where jo: "join_new (cn_schema l) (cn_schema r) keys mem_new mem_new = Ok jo" "op = OpJoin jo"
      using assms(1) by (auto simp: result_simps factory_create_def)
    have "op_fresh op" using join_new_inv(1) [OF jo(1)] jo(2) by (simp add: op_fresh_simps)
    moreover have "op_implements node op"
      using jo assms(2) by (auto simp: CnJoin join_new_def bindR_eq_Ok map_err_eq_Ok split: if_splits)
    ultimately show ?thesis by simp
  next
    case (CnAggregate input ks as s)
    then obtain ao where ao: "aggregate_new (cn_schema input) s ks as mem_new = Ok ao" "op = OpAggregate ao"
      using assms(1) by (auto simp: result_simps factory_create_def)
    then show ?thesis
      using op_fresh_aggregate [OF ao(1)] assms(2) by (auto simp: CnAggregate aggregate_new_def split: if_splits)
  next
    case (CnDistinct input)
    then show ?thesis using assms by (auto simp: result_simps factory_create_def op_fresh_simps) (simp add: distinct_new_def)
  qed auto
  then show "op_implements node op" "op_fresh op" by simp_all
qed

section \<open>Plans laid out in a circuit\<close>

text \<open>A plan occupies the nodes \<open>lo\<close> to \<open>hi\<close>, its root at \<open>hi\<close>.\<close>

definition computes :: "node option list \<Rightarrow> nat \<Rightarrow> circuit_node \<Rightarrow> nat list \<Rightarrow> bool" where
  "computes ns i node ins \<longleftrightarrow> (\<exists>op. get_node ns i = Some (OperatorNode op ins) \<and> op_implements node op)"

fun implements :: "node option list \<Rightarrow> nat \<Rightarrow> nat \<Rightarrow> circuit_node \<Rightarrow> bool" where
  "implements ns lo hi (CnSource t a s) \<longleftrightarrow> lo = hi \<and> get_node ns hi = Some (SourceNode t a s)"
| "implements ns lo hi (CnJoin l r keys s) \<longleftrightarrow> (\<exists>mid hi'. hi = Suc hi' \<and> implements ns lo mid l \<and> implements ns (Suc mid) hi' r
    \<and> computes ns hi (CnJoin l r keys s) [mid, hi'])"
| "implements ns lo hi (CnFilter input n p) \<longleftrightarrow> (\<exists>hi'. hi = Suc hi' \<and> implements ns lo hi' input
    \<and> computes ns hi (CnFilter input n p) [hi'])"
| "implements ns lo hi (CnProject input n items s) \<longleftrightarrow> (\<exists>hi'. hi = Suc hi' \<and> implements ns lo hi' input
    \<and> computes ns hi (CnProject input n items s) [hi'])"
| "implements ns lo hi (CnAggregate input ks as s) \<longleftrightarrow> (\<exists>hi'. hi = Suc hi' \<and> implements ns lo hi' input
    \<and> computes ns hi (CnAggregate input ks as s) [hi'])"
| "implements ns lo hi (CnDistinct input) \<longleftrightarrow> (\<exists>hi'. hi = Suc hi' \<and> implements ns lo hi' input
    \<and> computes ns hi (CnDistinct input) [hi'])"

definition config_extends :: "node option list \<Rightarrow> node option list \<Rightarrow> bool" where
  "config_extends ns ns' \<longleftrightarrow> (\<forall>i n. get_node ns i = Some n \<longrightarrow> (\<exists>n'. get_node ns' i = Some n' \<and> node_config n' = node_config n))"

lemma computes_extends: "computes ns i node ins \<Longrightarrow> config_extends ns ns' \<Longrightarrow> computes ns' i node ins"
proof -
  assume "computes ns i node ins" and ext: "config_extends ns ns'"
  then obtain op where op: "get_node ns i = Some (OperatorNode op ins)" "op_implements node op" by (auto simp: computes_def)
  then obtain n' where n': "get_node ns' i = Some n'" "node_config n' = OperatorNode (op_config op) ins"
    using ext by (force simp: config_extends_def)
  then obtain op' where op': "n' = OperatorNode op' ins" "op_config op' = op_config op" by (cases n') auto
  have "op_implements node op'" using op_implements_config [OF op'(2), of node] op(2) by simp
  then show ?thesis using n'(1) op'(1) by (simp add: computes_def)
qed

lemma implements_extends: "implements ns lo hi node \<Longrightarrow> config_extends ns ns' \<Longrightarrow> implements ns' lo hi node"
proof (induction node arbitrary: lo hi)
  case (CnSource t a s)
  then show ?case by (force simp: config_extends_def node_config_source)
next
  case (CnJoin l r keys s)
  from CnJoin.prems(1) show ?case
    by (auto intro: CnJoin.IH(1) [OF _ CnJoin.prems(2)] CnJoin.IH(2) [OF _ CnJoin.prems(2)]
        computes_extends [OF _ CnJoin.prems(2)])
qed (auto dest: computes_extends)

lemma implements_le: "implements ns lo hi node \<Longrightarrow> lo \<le> hi"
proof (induction node arbitrary: lo hi)
  case (CnJoin l r keys s)
  from CnJoin.prems show ?case by (auto dest!: CnJoin.IH)
qed (auto simp: le_Suc_eq)

text \<open>The nodes upstream of a plan's root are exactly its interval.\<close>

lemma edges_computes: "computes ns i node ins \<Longrightarrow> edges ns `` {i} = set ins"
  by (auto simp: computes_def edges_def)

lemma upstream_step: "edges ns `` {i} = S \<Longrightarrow> (edges ns)\<^sup>* `` {i} = insert i ((edges ns)\<^sup>* `` S)"
  by (auto elim: converse_rtranclE intro: converse_rtrancl_into_rtrancl)

lemma upstream_unary:
  assumes "computes ns (Suc hi) node [hi]" "(edges ns)\<^sup>* `` {hi} = {lo..hi}" "lo \<le> hi"
  shows "(edges ns)\<^sup>* `` {Suc hi} = {lo..Suc hi}"
  using upstream_step [OF edges_computes [OF assms(1)]] assms(2,3) by (auto simp: atLeastAtMostSuc_conv)

lemma implements_upstream: "implements ns lo hi node \<Longrightarrow> (edges ns)\<^sup>* `` {hi} = {lo..hi}"
proof (induction node arbitrary: lo hi)
  case (CnSource t a s)
  then have "edges ns `` {hi} = {}" by (auto simp: edges_def)
  from upstream_step [OF this] CnSource show ?case by simp
next
  case (CnJoin l r keys s)
  then obtain mid hi' where m: "hi = Suc hi'" "implements ns lo mid l" "implements ns (Suc mid) hi' r"
    "computes ns hi (CnJoin l r keys s) [mid, hi']" by auto
  have "(edges ns)\<^sup>* `` {mid, hi'} = {lo..mid} \<union> {Suc mid..hi'}"
    using CnJoin.IH(1) [OF m(2)] CnJoin.IH(2) [OF m(3)] by blast
  then show ?case
    using upstream_step [OF edges_computes [OF m(4)]] m(1) implements_le [OF m(2)] implements_le [OF m(3)] by auto
next
  case (CnFilter input n p)
  then obtain hi' where h: "hi = Suc hi'" "implements ns lo hi' input" "computes ns hi (CnFilter input n p) [hi']" by auto
  from upstream_unary [OF h(3) [unfolded h(1)] CnFilter.IH [OF h(2)] implements_le [OF h(2)]] show ?case by (simp add: h(1))
next
  case (CnProject input n items s)
  then obtain hi' where h: "hi = Suc hi'" "implements ns lo hi' input" "computes ns hi (CnProject input n items s) [hi']" by auto
  from upstream_unary [OF h(3) [unfolded h(1)] CnProject.IH [OF h(2)] implements_le [OF h(2)]] show ?case by (simp add: h(1))
next
  case (CnAggregate input ks as s)
  then obtain hi' where h: "hi = Suc hi'" "implements ns lo hi' input" "computes ns hi (CnAggregate input ks as s) [hi']" by auto
  from upstream_unary [OF h(3) [unfolded h(1)] CnAggregate.IH [OF h(2)] implements_le [OF h(2)]] show ?case by (simp add: h(1))
next
  case (CnDistinct input)
  then obtain hi' where h: "hi = Suc hi'" "implements ns lo hi' input" "computes ns hi (CnDistinct input) [hi']" by auto
  from upstream_unary [OF h(3) [unfolded h(1)] CnDistinct.IH [OF h(2)] implements_le [OF h(2)]] show ?case by (simp add: h(1))
qed

section \<open>The builder's circuit\<close>

definition circuit_of :: "circuit_builder \<Rightarrow> circuit" where
  "circuit_of b = \<lparr>ci_nodes = map Some (cb_nodes b), ci_sources = map (\<lambda>(a, i). (a, [i])) (cb_sources b), ci_sinks = [],
    ci_epoch = 0, ci_emitted = replicate (length (cb_nodes b)) 0, ci_steps = replicate (length (cb_nodes b)) 0, ci_admitted = {}\<rparr>"

lemma circuit_of_new: "circuit_of builder_new = circuit_empty"
  by (simp add: circuit_of_def builder_new_def circuit_empty_def)

lemma map_bt_insert: "map (\<lambda>(a, i). (a, f i)) (bt_insert k v m) = bt_insert k (f v) (map (\<lambda>(a, i). (a, f i)) m)"
  by (induction k v m rule: bt_insert.induct) auto

lemma get_node_map_Some: "get_node (map Some ns) i = nth_opt ns i"
  by (simp add: get_node_def nth_opt_def)

lemma builder_source_reach:
  assumes "builder_source t a s b = Ok (i, b')" "reach (circuit_of b) (\<lambda>_. []) (\<lambda>_. [])" "schema_ok s"
  shows "reach (circuit_of b') (\<lambda>_. []) (\<lambda>_. [])" "i = length (cb_nodes b)" "cb_nodes b' = cb_nodes b @ [SourceNode t a s]"
proof -
  have fresh: "bt_get (cb_sources b) a = None" and i: "i = length (cb_nodes b)"
    and b': "b' = b\<lparr>cb_nodes := cb_nodes b @ [SourceNode t a s], cb_sources := bt_insert a i (cb_sources b)\<rparr>"
    using assms(1) by (auto simp: builder_source_def Let_def split: if_splits)
  have "bt_get_or [] (map (\<lambda>(a, i). (a, [i])) (cb_sources b)) a = []"
    using fresh by (simp add: bt_get_or_def bt_get_def map_of_map)
  then have "attach_source t a s (circuit_of b) = (Ok i, circuit_of b')"
    by (simp add: attach_source_def Let_def circuit_of_def b' i map_bt_insert replicate_append_same)
  then show "reach (circuit_of b') (\<lambda>_. []) (\<lambda>_. [])" by (rule reach_attach_source [OF assms(2,3)])
  show "i = length (cb_nodes b)" "cb_nodes b' = cb_nodes b @ [SourceNode t a s]" using i b' by simp_all
qed

lemma find_None: "(\<And>x. x \<in> set xs \<Longrightarrow> \<not> P x) \<Longrightarrow> find P xs = None"
  by (simp add: find_None_iff)

lemma builder_add_reach:
  assumes "builder_add op ins b = Ok (i, b')" "reach (circuit_of b) (\<lambda>_. []) (\<lambda>_. [])" "op_fresh op"
    and "list_all2 (\<lambda>j s. j < length (cb_nodes b) \<and> node_schema (cb_nodes b ! j) = s) ins (op_in_schemas op)"
  shows "reach (circuit_of b') (\<lambda>_. []) (\<lambda>_. [])" "i = length (cb_nodes b)" "cb_nodes b' = cb_nodes b @ [OperatorNode op ins]"
proof -
  have cw: "check_wiring op ins (length (cb_nodes b)) False = Ok ()" and i: "i = length (cb_nodes b)"
    and b': "b' = b\<lparr>cb_nodes := cb_nodes b @ [OperatorNode op ins]\<rparr>"
    using assms(1) by (auto simp: builder_add_def Let_def bindR_eq_Ok)
  have lt: "j < length (cb_nodes b)" if "j \<in> set ins" for j
    using assms(4) that by (auto simp: list_all2_conv_all_nth in_set_conv_nth)
  have "find (\<lambda>input. get_node (map Some (cb_nodes b)) input = None) ins = None"
    by (rule find_None) (use lt in \<open>auto simp: get_node_map_Some\<close>)
  then have att: "attach op ins False (circuit_of b) = (Ok i, circuit_of b')"
    using cw by (simp add: attach_def Let_def circuit_of_def b' i replicate_append_same)
  have "mapR (node_output_schema (circuit_of b)) ins = Ok (op_in_schemas op)"
    unfolding mapR_eq_Ok
    by (rule list_all2_mono [OF assms(4)]) (simp add: node_output_schema_def node_at_def circuit_of_def get_node_map_Some)
  then show "reach (circuit_of b') (\<lambda>_. []) (\<lambda>_. [])" by (rule reach_attach [OF assms(2,3) att]) simp
  show "i = length (cb_nodes b)" "cb_nodes b' = cb_nodes b @ [OperatorNode op ins]" using i b' by simp_all
qed

section \<open>Instantiation\<close>

text \<open>What a step of the construction leaves behind: a longer builder, with the plan at its end.\<close>

definition built :: "circuit_node \<Rightarrow> build_state \<Rightarrow> nat \<Rightarrow> build_state \<Rightarrow> bool" where
  "built node st i st' \<longleftrightarrow> reach (circuit_of (fst st')) (\<lambda>_. []) (\<lambda>_. [])
    \<and> (\<exists>new. cb_nodes (fst st') = cb_nodes (fst st) @ new) \<and> length (cb_nodes (fst st')) = Suc i
    \<and> node_schema (cb_nodes (fst st') ! i) = cn_schema node
    \<and> implements (map Some (cb_nodes (fst st'))) (length (cb_nodes (fst st))) i node"

lemma config_extends_append: "config_extends (map Some xs) (map Some (xs @ ys))"
  by (auto simp: config_extends_def get_node_map_Some nth_opt_def nth_append simp del: map_append split: if_splits)

lemma implements_append: "implements (map Some xs) lo hi node \<Longrightarrow> implements (map Some (xs @ ys)) lo hi node"
  by (rule implements_extends [OF _ config_extends_append])

lemma add_operator_built:
  assumes "add_operator node ins st = Ok (i, st')" "plan_wf node" "reach (circuit_of (fst st)) (\<lambda>_. []) (\<lambda>_. [])"
    and "list_all2 (\<lambda>j c. j < length (cb_nodes (fst st)) \<and> node_schema (cb_nodes (fst st) ! j) = cn_schema c) ins (cn_children node)"
  shows "reach (circuit_of (fst st')) (\<lambda>_. []) (\<lambda>_. [])" "i = length (cb_nodes (fst st))"
    "\<exists>op. cb_nodes (fst st') = cb_nodes (fst st) @ [OperatorNode op ins] \<and> op_implements node op"
proof -
  obtain op f where op: "operator_for_with node (backend_label (length (cb_nodes (fst st))) node) (snd st) = Ok (Some op, f)"
    and add: "builder_add op ins (fst st) = Ok (i, fst st')"
    using assms(1) by (auto simp: add_operator_def bindR_eq_Ok map_err_eq_Ok ok_or_eq_Ok)
  note f = operator_for_fresh [OF op assms(2)]
  have "list_all2 (\<lambda>j s. j < length (cb_nodes (fst st)) \<and> node_schema (cb_nodes (fst st) ! j) = s) ins (op_in_schemas op)"
    using assms(4) by (simp add: op_implements_schemas(2) [OF f(1)] list_all2_map2)
  note b = builder_add_reach [OF add assms(3) f(2) this]
  show "reach (circuit_of (fst st')) (\<lambda>_. []) (\<lambda>_. [])" "i = length (cb_nodes (fst st))" using b by simp_all
  show "\<exists>op. cb_nodes (fst st') = cb_nodes (fst st) @ [OperatorNode op ins] \<and> op_implements node op" using b(3) f(1) by blast
qed

lemma computes_new:
  "cb_nodes b' = cb_nodes b @ [OperatorNode op ins] \<Longrightarrow> op_implements node op
    \<Longrightarrow> computes (map Some (cb_nodes b')) (length (cb_nodes b)) node ins"
  by (simp add: computes_def get_node_map_Some nth_opt_def del: map_append)

lemma add_unary_built:
  assumes child: "built input st j st1" and add: "add_operator node [j] st1 = Ok (i, st')" and "plan_wf node"
    and "cn_children node = [input]"
    and impl: "\<And>ns lo hi. implements ns lo (Suc hi) node \<longleftrightarrow> implements ns lo hi input \<and> computes ns (Suc hi) node [hi]"
  shows "built node st i st'"
proof -
  have len: "length (cb_nodes (fst st1)) = Suc j" using child by (simp add: built_def)
  have l2: "list_all2 (\<lambda>j c. j < length (cb_nodes (fst st1)) \<and> node_schema (cb_nodes (fst st1) ! j) = cn_schema c) [j] (cn_children node)"
    using child by (simp add: built_def assms(4))
  have "reach (circuit_of (fst st1)) (\<lambda>_. []) (\<lambda>_. [])" using child by (simp add: built_def)
  note a = add_operator_built [OF add assms(3) this l2]
  obtain op where op: "cb_nodes (fst st') = cb_nodes (fst st1) @ [OperatorNode op [j]]" "op_implements node op" using a(3) by blast
  have "implements (map Some (cb_nodes (fst st'))) (length (cb_nodes (fst st))) j input"
    unfolding op(1) using child by (intro implements_append) (simp add: built_def)
  then have "implements (map Some (cb_nodes (fst st'))) (length (cb_nodes (fst st))) i node"
    using computes_new [OF op] a(2) len impl by simp
  then show ?thesis
    using a child op op_implements_schemas(1) [OF op(2)] len by (auto simp: built_def nth_append)
qed

lemma add_node_built:
  assumes "add_node node st = Ok (i, st')" "plan_wf node" "reach (circuit_of (fst st)) (\<lambda>_. []) (\<lambda>_. [])"
  shows "built node st i st'"
  using assms
proof (induction node arbitrary: st i st')
  case (CnSource t a s)
  then obtain b where b: "builder_source t a s (fst st) = Ok (i, b)" "st' = (b, snd st)"
    by (auto simp: bindR_eq_Ok map_err_eq_Ok)
  note r = builder_source_reach [OF b(1) CnSource.prems(3)]
  then show ?case using CnSource.prems(2) b(2) by (auto simp: built_def get_node_map_Some nth_opt_def simp del: map_append)
next
  case (CnJoin l r keys s)
  then obtain j st1 k st2 where l: "add_node l st = Ok (j, st1)" and r: "add_node r st1 = Ok (k, st2)"
    and add: "add_operator (CnJoin l r keys s) [j, k] st2 = Ok (i, st')" by (auto simp: bindR_eq_Ok)
  have bl: "built l st j st1" using CnJoin.IH(1) [OF l] CnJoin.prems by simp
  then have br: "built r st1 k st2" using CnJoin.IH(2) [OF r] CnJoin.prems by (simp add: built_def)
  obtain new where new: "cb_nodes (fst st2) = cb_nodes (fst st1) @ new" using br by (auto simp: built_def)
  have len: "length (cb_nodes (fst st1)) = Suc j" "length (cb_nodes (fst st2)) = Suc k" using bl br by (simp_all add: built_def)
  have "Suc j \<le> Suc k" using new len by simp
  then have l2: "list_all2 (\<lambda>j c. j < length (cb_nodes (fst st2)) \<and> node_schema (cb_nodes (fst st2) ! j) = cn_schema c) [j, k] [l, r]"
    using bl br new len by (auto simp: built_def nth_append)
  have "reach (circuit_of (fst st2)) (\<lambda>_. []) (\<lambda>_. [])" using br by (simp add: built_def)
  note a = add_operator_built [OF add CnJoin.prems(2) this, simplified, OF l2 [simplified]]
  obtain op where op: "cb_nodes (fst st') = cb_nodes (fst st2) @ [OperatorNode op [j, k]]" "op_implements (CnJoin l r keys s) op"
    using a(3) by blast
  have "implements (map Some (cb_nodes (fst st'))) (length (cb_nodes (fst st))) j l"
    unfolding op(1) new append_assoc using bl by (intro implements_append) (simp add: built_def)
  moreover have "implements (map Some (cb_nodes (fst st'))) (Suc j) k r"
    unfolding op(1) using br len by (intro implements_append) (simp add: built_def)
  ultimately have "implements (map Some (cb_nodes (fst st'))) (length (cb_nodes (fst st))) i (CnJoin l r keys s)"
    using computes_new [OF op] a(2) len by auto
  then show ?case
    using a bl op new op_implements_schemas(1) [OF op(2)] len by (auto simp: built_def nth_append)
next
  case (CnFilter input n p)
  then obtain j st1 where c: "add_node input st = Ok (j, st1)" and a: "add_operator (CnFilter input n p) [j] st1 = Ok (i, st')"
    by (auto simp: bindR_eq_Ok)
  have "built input st j st1" using CnFilter.IH [OF c] CnFilter.prems by simp
  then show ?case by (rule add_unary_built [OF _ a CnFilter.prems(2)]) auto
next
  case (CnProject input n items s)
  then obtain j st1 where c: "add_node input st = Ok (j, st1)" and a: "add_operator (CnProject input n items s) [j] st1 = Ok (i, st')"
    by (auto simp: bindR_eq_Ok)
  have "built input st j st1" using CnProject.IH [OF c] CnProject.prems by simp
  then show ?case by (rule add_unary_built [OF _ a CnProject.prems(2)]) auto
next
  case (CnAggregate input ks as s)
  then obtain j st1 where c: "add_node input st = Ok (j, st1)" and a: "add_operator (CnAggregate input ks as s) [j] st1 = Ok (i, st')"
    by (auto simp: bindR_eq_Ok)
  have "built input st j st1" using CnAggregate.IH [OF c] CnAggregate.prems by simp
  then show ?case by (rule add_unary_built [OF _ a CnAggregate.prems(2)]) auto
next
  case (CnDistinct input)
  then obtain j st1 where c: "add_node input st = Ok (j, st1)" and a: "add_operator (CnDistinct input) [j] st1 = Ok (i, st')"
    by (auto simp: bindR_eq_Ok)
  have "built input st j st1" using CnDistinct.IH [OF c] CnDistinct.prems by simp
  then show ?case by (rule add_unary_built [OF _ a CnDistinct.prems(2)]) auto
qed

lemma config_extends_shape:
  "(\<And>i. map_option node_config (get_node ns' i) = map_option node_config (get_node ns i)) \<Longrightarrow> config_extends ns ns'"
  unfolding config_extends_def by (metis map_option_eq_Some)

lemma prime_reach:
  assumes "reach c H E" "prime c = (Ok (), c')"
  shows "same_wiring c c'" "all_primed c'"
    "get_node (ci_nodes c) i = Some (SourceNode t a s) \<Longrightarrow> emits [] None c i = []"
proof -
  have ok: "circuit_ok c H E" using reach_inv [OF assms(1)] by (simp add: circuit_inv_def)
  note p = pass_Ok [OF assms(2) [unfolded prime_def] ok closed_subset_None]
  show "same_wiring c c'" using p(2) by (simp add: same_wiring_def same_shape_def)
  show "all_primed c'" using p(5) by (auto simp: all_primed_def included_def)
  show "get_node (ci_nodes c) i = Some (SourceNode t a s) \<Longrightarrow> emits [] None c i = []"
    using p(3) [of i t a s] by (simp add: entries_for_def)
qed

lemma same_wiring_sink:
  assumes "same_wiring c c'" "ci_sinks c = [Some s]"
  shows "\<exists>s'. sink_at c' 0 = Ok s' \<and> sk_node s' = sk_node s"
proof -
  obtain x where "ci_sinks c' = [x]" "rel_option (\<lambda>s s'. sk_node s' = sk_node s \<and> sk_ancestors s' = sk_ancestors s) (Some s) x"
    using assms by (auto simp: same_wiring_def list_all2_Cons1)
  then show ?thesis by (auto simp: option_rel_Some1 sink_at_def nth_opt_def)
qed

lemma instantiate_built:
  assumes "instantiate plan = Ok c" "plan_wf (cp_root plan)"
  obtains H E root s where "reach c H E" "all_primed c" "implements (ci_nodes c) 0 root (cp_root plan)" "ci_sinks c = [Some s]"
    "sk_node s = root" "rs_schema (sk_result s) = cp_output_schema plan"
    "\<And>i t a sch. get_node (ci_nodes c) i = Some (SourceNode t a sch) \<Longrightarrow> H i = []"
proof -
  obtain root st where add: "add_node (cp_root plan) (builder_new, []) = Ok (root, st)" and b: "build root (fst st) = Ok c"
    and out: "output_schema c = Ok (cp_output_schema plan)"
    using assms(1) by (auto simp: instantiate_def bindR_eq_Ok map_err_eq_Ok split: if_splits)
  have "reach (circuit_of (fst (builder_new, []))) (\<lambda>_. []) (\<lambda>_. [])" using reach_empty by (simp add: circuit_of_new)
  note bt = add_node_built [OF add assms(2) this]
  obtain k c1 where sink: "add_sink root (circuit_of (fst st)) = (Ok k, c1)" and pr: "prime c1 = (Ok (), c)"
    using b by (auto simp: build_def Let_def circuit_of_def split: if_splits prod.splits sum.splits)
  have c1: "ci_nodes c1 = map Some (cb_nodes (fst st))" "\<exists>s. ci_sinks c1 = [Some s] \<and> sk_node s = root"
    using sink by (auto simp: add_sink_def circuit_of_def split: sum.splits prod.splits)
  have r1: "reach c1 (\<lambda>_. []) (\<lambda>_. [])" using bt by (intro reach_add_sink [OF _ sink]) (simp_all add: built_def)
  note p = prime_reach [OF r1 pr]
  obtain s where s: "ci_sinks c = [Some s]" "sk_node s = root"
    using c1(2) p(1) by (auto simp: same_wiring_def list_all2_Cons1 option_rel_Some1)
  have ext: "config_extends (ci_nodes c1) (ci_nodes c)" using p(1) by (intro config_extends_shape) (simp add: same_wiring_def)
  have "implements (ci_nodes c1) 0 root (cp_root plan)" using bt by (simp add: built_def builder_new_def c1(1))
  note impl = implements_extends [OF this ext]
  have "emits [] None c1 i = []" if "get_node (ci_nodes c) i = Some (SourceNode t a sch)" for i t a sch
  proof -
    have "map_option node_config (get_node (ci_nodes c1) i) = Some (SourceNode t a sch)"
      using p(1) that unfolding same_wiring_def by (metis node_config.simps(1) option.simps(9))
    then show ?thesis using p(3) by (auto simp: node_config_source)
  qed
  moreover have "rs_schema (sk_result s) = cp_output_schema plan"
    using out s(1) by (simp add: output_schema_def output_schema_of_def sink_at_def nth_opt_def)
  ultimately show ?thesis using that [OF reach_prime [OF r1 pr] p(2) impl s] by simp
qed

end
