(* ===== verification/Oracle.thy ===== *)
theory Oracle
  imports Operators Float_Avg
begin

text \<open>
  The naive reference engine (\<open>schweep-oracle\<close>): the log of sealed deltas (\<open>engine.rs\<close>), the integral of
  a table over a prefix of it, and a query answered by recomputing every stage from scratch, with
  the aggregates of \<open>aggregate.rs\<close> and the live errors of \<open>live_errors.rs\<close>. Every stage is written as
  the loop the code runs; the row carried by \<open>NegativeIntegral\<close> is kept as a row instead of its text.
\<close>

datatype oracle_error =
    OrPlan plan_error
  | OrZSet zset_error
  | DuplicateTable string
  | NegativeIntegral string row int nat
  | EpochOutOfRange nat nat
  | OrJoinWeightOverflow
  | NegativeIntermediate string int

definition unknown_table :: "string \<Rightarrow> oracle_error" where
  "unknown_table name = OrPlan (UnknownTable name)"

section \<open>Live errors\<close>

type_synonym live_set = "(string, plan_error) btree"

definition live_record :: "plan_error \<Rightarrow> live_set \<Rightarrow> (oracle_error, live_set) result" where
  "live_record e live =
    (if \<not> is_evaluation_error e then Err (OrPlan e) else Ok (bt_insert (evaluation_message e) e live))"

definition live_least :: "live_set \<Rightarrow> plan_error option" where
  "live_least live = (case live of [] \<Rightarrow> None | (_, e) # _ \<Rightarrow> Some e)"

section \<open>The log\<close>

record oracle_db =
  or_catalog :: catalog
  or_log :: "epoch_deltas list"

definition oracle_table :: "catalog \<Rightarrow> string \<times> schema \<Rightarrow> (oracle_error, catalog) result" where
  "oracle_table cat ns = (case ns of (name, s) \<Rightarrow>
    bindR (map_err OrZSet (schema_new_table (sc_fields s))) (\<lambda>checked.
    if bt_get cat name \<noteq> None then Err (DuplicateTable name) else Ok (bt_insert name checked cat)))"

definition oracle_new :: "(string \<times> schema) list \<Rightarrow> (oracle_error, oracle_db) result" where
  "oracle_new tables = bindR (foldR oracle_table [] tables) (\<lambda>cat. Ok \<lparr>or_catalog = cat, or_log = []\<rparr>)"

definition sealed_epoch :: "oracle_db \<Rightarrow> nat" where
  "sealed_epoch orc = length (or_log orc)"

text \<open>Adding one entry to a map of weights, as both \<open>contents_at\<close> and \<open>consolidate\<close> do.\<close>

definition add_weight :: "string \<Rightarrow> (row, int) btree \<Rightarrow> row \<times> int \<Rightarrow> (oracle_error, (row, int) btree) result" where
  "add_weight while_doing m e = (case e of (r, w) \<Rightarrow>
    bindR (ok_or (checked_add (bt_get_or 0 m r) w) (OrZSet (WeightOverflow while_doing)))
      (\<lambda>total. Ok (bt_insert r total m)))"

definition push_present :: "string \<Rightarrow> nat \<Rightarrow> entries \<Rightarrow> row \<times> int \<Rightarrow> (oracle_error, entries) result" where
  "push_present table epoch out e = (case e of (r, w) \<Rightarrow>
    if w < 0 then Err (NegativeIntegral table r w epoch)
    else if w \<noteq> 0 then Ok (out @ [(r, w)]) else Ok out)"

definition contents_at :: "oracle_db \<Rightarrow> string \<Rightarrow> nat \<Rightarrow> (oracle_error, entries) result" where
  "contents_at orc table epoch =
    (if bt_get (or_catalog orc) table = None then Err (unknown_table table)
     else if epoch > sealed_epoch orc then Err (EpochOutOfRange epoch (sealed_epoch orc))
     else bindR (foldR (add_weight ''integrating a table's deltas'') []
            (concat (map (\<lambda>d. entries_for d table) (take epoch (or_log orc)))))
          (foldR (push_present table epoch) []))"

definition contents_batch_at :: "oracle_db \<Rightarrow> string \<Rightarrow> nat \<Rightarrow> (oracle_error, zset_batch) result" where
  "contents_batch_at orc table epoch =
    bindR (ok_or (bt_get (or_catalog orc) table) (unknown_table table)) (\<lambda>s.
    bindR (contents_at orc table epoch) (\<lambda>es. map_err OrZSet (from_entries s es)))"

definition oracle_check_row :: "schema \<Rightarrow> row \<times> int \<Rightarrow> (oracle_error, unit) result" where
  "oracle_check_row s e =
    (if length (fst e) \<noteq> schema_len s then Err (OrZSet (ArityMismatch (schema_len s) (length (fst e))))
     else bindR (mapR (\<lambda>(i, v). map_err OrZSet (check_value s i v)) (enumerate 0 (fst e))) (\<lambda>_. Ok ()))"

definition oracle_check_deltas :: "catalog \<Rightarrow> string \<times> entries \<Rightarrow> (oracle_error, unit) result" where
  "oracle_check_deltas cat te = (case te of (table, es) \<Rightarrow>
    bindR (ok_or (bt_get cat table) (unknown_table table)) (\<lambda>s.
    bindR (mapR (oracle_check_row s) es) (\<lambda>_. Ok ())))"

text \<open>
  \<open>seal_epoch\<close>: the deltas are pushed before the contents are checked, and stay in the log when that
  check fails.
\<close>

definition oracle_seal_epoch :: "epoch_deltas \<Rightarrow> oracle_db \<Rightarrow> (oracle_error, nat) result \<times> oracle_db" where
  "oracle_seal_epoch d orc =
    (case mapR (oracle_check_deltas (or_catalog orc)) d of
       Inl e \<Rightarrow> (Err e, orc)
     | Inr _ \<Rightarrow>
        (let orc' = orc\<lparr>or_log := or_log orc @ [d]\<rparr>; epoch = sealed_epoch orc' in
         (bindR (mapR (\<lambda>name. contents_at orc' name epoch) (map fst (or_catalog orc'))) (\<lambda>_. Ok epoch), orc')))"

section \<open>Sources\<close>

record orel =
  rl_schema :: schema
  rl_entries :: entries

definition oracle_consolidate :: "entries \<Rightarrow> (oracle_error, entries) result" where
  "oracle_consolidate es =
    bindR (foldR (add_weight ''consolidating an intermediate relation'') [] es)
      (\<lambda>m. Ok (filter (\<lambda>(_, w). w \<noteq> 0) m))"

fun oracle_keys_match :: "row \<Rightarrow> row \<Rightarrow> (nat \<times> nat) list \<Rightarrow> (oracle_error, bool) result" where
  "oracle_keys_match l r [] = Ok True"
| "oracle_keys_match l r ((li, ri) # on) =
    bindR (ok_or (row_get l li) (NegativeIntermediate ''join key lookup'' 0)) (\<lambda>lv.
    bindR (ok_or (row_get r ri) (NegativeIntermediate ''join key lookup'' 0)) (\<lambda>rv.
    if is_null lv \<or> is_null rv \<or> lv \<noteq> rv then Ok False else oracle_keys_match l r on))"

definition oracle_pair :: "(nat \<times> nat) list \<Rightarrow> row \<times> int \<Rightarrow> entries \<Rightarrow> row \<times> int \<Rightarrow> (oracle_error, entries) result" where
  "oracle_pair keys le out re = (case (le, re) of ((lrow, lw), (rrow, rw)) \<Rightarrow>
    bindR (oracle_keys_match lrow rrow keys) (\<lambda>b.
    if \<not> b then Ok out
    else bindR (ok_or (checked_mul lw rw) OrJoinWeightOverflow) (\<lambda>w. Ok (out @ [(lrow @ rrow, w)]))))"

definition oracle_join_key :: "schema \<Rightarrow> schema \<Rightarrow> string \<times> string \<Rightarrow> (oracle_error, nat \<times> nat) result" where
  "oracle_join_key ls rs k = (case k of (ln, rn) \<Rightarrow>
    bindR (ok_or (index_of ls ln) (OrPlan (UnknownColumn ln (schema_to_string ls)))) (\<lambda>li.
    bindR (ok_or (index_of rs rn) (OrPlan (UnknownColumn rn (schema_to_string rs)))) (\<lambda>ri. Ok (li, ri))))"

fun eval_source :: "oracle_db \<Rightarrow> nat \<Rightarrow> source \<Rightarrow> (oracle_error, orel) result" where
  "eval_source orc epoch (Scan table al) =
    bindR (ok_or (bt_get (or_catalog orc) table) (unknown_table table)) (\<lambda>s.
    bindR (map_err OrZSet (schema_new (map (\<lambda>f. f\<lparr>f_name := al @ ''.'' @ f_name f\<rparr>) (sc_fields s)))) (\<lambda>q.
    bindR (contents_at orc table epoch) (\<lambda>es. Ok \<lparr>rl_schema = q, rl_entries = es\<rparr>)))"
| "eval_source orc epoch (JoinSource left right on) =
    (if on = [] then Err (OrPlan CrossJoinNotSupported)
     else bindR (eval_source orc epoch left) (\<lambda>l.
       bindR (eval_source orc epoch right) (\<lambda>r.
       bindR (mapR (oracle_join_key (rl_schema l) (rl_schema r)) on) (\<lambda>keys.
       bindR (map_err OrZSet (schema_new (sc_fields (rl_schema l) @ sc_fields (rl_schema r)))) (\<lambda>s.
       bindR (foldR (\<lambda>out le. foldR (oracle_pair keys le) out (rl_entries r)) [] (rl_entries l)) (\<lambda>es.
       Ok \<lparr>rl_schema = s, rl_entries = es\<rparr>))))))"

section \<open>Aggregates\<close>

definition oracle_overflow :: "agg_func \<Rightarrow> oracle_error" where
  "oracle_overflow func = OrPlan (AggregateOverflow (agg_name func))"

definition count_members :: "oracle_error \<Rightarrow> (row \<Rightarrow> (oracle_error, bool) result) \<Rightarrow> entries \<Rightarrow> (oracle_error, int) result" where
  "count_members err counted members = foldR (\<lambda>total (r, w).
     bindR (counted r) (\<lambda>b. if b then ok_or (checked_add total w) err else Ok total)) 0 members"

definition sum_member :: "agg_func \<Rightarrow> expr \<Rightarrow> schema \<Rightarrow> int \<times> int \<times> bool \<Rightarrow> row \<times> int
    \<Rightarrow> (oracle_error, int \<times> int \<times> bool) result" where
  "sum_member func arg sc acc e = (case (acc, e) of ((tot, n, any), (r, w)) \<Rightarrow>
    bindR (map_err OrPlan (eval arg r sc)) (\<lambda>v. case v of
        VNull \<Rightarrow> Ok (tot, n, any)
      | VInt x \<Rightarrow>
          if \<not> in_i128 (w * x) then Err (oracle_overflow func)
          else if \<not> in_i128 (tot + w * x) then Err (oracle_overflow func)
          else bindR (ok_or (checked_add n w) (oracle_overflow func)) (\<lambda>c. Ok (tot + w * x, c, True))
      | _ \<Rightarrow> Err (OrPlan (AggregateTypeUnsupported (agg_name func)
                (case value_data_type v of Some ty \<Rightarrow> ty | None \<Rightarrow> Int64)))))"

definition sum_and_count :: "agg_func \<Rightarrow> expr \<Rightarrow> entries \<Rightarrow> schema \<Rightarrow> (oracle_error, (int \<times> int) option) result" where
  "sum_and_count func arg members sc =
    bindR (foldR (sum_member func arg sc) (0, 0, False) members) (\<lambda>(tot, n, any).
    if \<not> any then Ok None
    else if in_i64 tot then Ok (Some (tot, n)) else Err (oracle_overflow func))"

datatype which_extremum = MinOf | MaxOf

definition better :: "which_extremum \<Rightarrow> sql_value \<Rightarrow> sql_value option \<Rightarrow> sql_value" where
  "better which v best = (case best of
      None \<Rightarrow> v
    | Some current \<Rightarrow> (case which of MinOf \<Rightarrow> if v < current then v else current
        | MaxOf \<Rightarrow> if v > current then v else current))"

definition extremum_member :: "which_extremum \<Rightarrow> expr \<Rightarrow> schema \<Rightarrow> sql_value option \<Rightarrow> row \<times> int
    \<Rightarrow> (oracle_error, sql_value option) result" where
  "extremum_member which arg sc best e = (case e of (r, w) \<Rightarrow>
    if w < 1 then Ok best
    else bindR (map_err OrPlan (eval arg r sc)) (\<lambda>v.
      if is_null v then Ok best else Ok (Some (better which v best))))"

definition extremum :: "which_extremum \<Rightarrow> expr \<Rightarrow> entries \<Rightarrow> schema \<Rightarrow> (oracle_error, sql_value) result" where
  "extremum which arg members sc =
    bindR (foldR (extremum_member which arg sc) None members) (\<lambda>best.
    Ok (case best of None \<Rightarrow> VNull | Some v \<Rightarrow> v))"

definition agg_evaluate :: "agg_func \<Rightarrow> entries \<Rightarrow> schema \<Rightarrow> (oracle_error, sql_value) result" where
  "agg_evaluate func members sc = (case func of
      CountStar \<Rightarrow> bindR (count_members (oracle_overflow func) (\<lambda>r. Ok True) members) (\<lambda>n. Ok (VInt n))
    | Count arg \<Rightarrow> bindR (count_members (oracle_overflow func)
          (\<lambda>r. bindR (map_err OrPlan (eval arg r sc)) (\<lambda>v. Ok (\<not> is_null v))) members) (\<lambda>n. Ok (VInt n))
    | Sum arg \<Rightarrow> bindR (sum_and_count func arg members sc) (\<lambda>found. Ok (case found of
          None \<Rightarrow> VNull | Some (t, _) \<Rightarrow> VInt t))
    | Avg arg \<Rightarrow> bindR (sum_and_count func arg members sc) (\<lambda>found. Ok (case found of
          None \<Rightarrow> VNull | Some (t, n) \<Rightarrow> VFloat (f64_div_ints t n)))
    | Min arg \<Rightarrow> extremum MinOf arg members sc
    | Max arg \<Rightarrow> extremum MaxOf arg members sc)"

section \<open>The stages\<close>

definition oracle_filter_entry :: "expr \<Rightarrow> schema \<Rightarrow> entries \<times> live_set \<Rightarrow> row \<times> int
    \<Rightarrow> (oracle_error, entries \<times> live_set) result" where
  "oracle_filter_entry p s acc e = (case (acc, e) of ((kept, live), (row, weight)) \<Rightarrow>
    case is_true p row s of
      Inr b \<Rightarrow> Ok (if b then kept @ [(row, weight)] else kept, live)
    | Inl err \<Rightarrow> bindR (live_record err live) (\<lambda>live'. Ok (kept, live')))"

definition oracle_filter :: "expr \<Rightarrow> orel \<Rightarrow> live_set \<Rightarrow> (oracle_error, orel \<times> live_set) result" where
  "oracle_filter p rel live =
    bindR (foldR (oracle_filter_entry p (rl_schema rel)) ([], live) (rl_entries rel)) (\<lambda>(kept, live').
    Ok (rel\<lparr>rl_entries := kept\<rparr>, live'))"

definition group_entry :: "group_by \<Rightarrow> schema \<Rightarrow> (sql_value list, entries) btree \<times> live_set \<Rightarrow> row \<times> int
    \<Rightarrow> (oracle_error, (sql_value list, entries) btree \<times> live_set) result" where
  "group_entry g s acc e = (case (acc, e) of ((groups, live), (row, weight)) \<Rightarrow>
    if weight < 0 then Err (NegativeIntermediate ''GROUP BY input'' weight)
    else (case mapR (\<lambda>k. eval (nm_value k) row s) (gb_keys g) of
        Inl err \<Rightarrow> bindR (live_record err live) (\<lambda>live'. Ok (groups, live'))
      | Inr key \<Rightarrow> Ok (bt_insert key (bt_get_or [] groups key @ [(row, weight)]) groups, live)))"

text \<open>The aggregates of one group: \<open>None\<close> when one of them raised, with its error recorded.\<close>

fun group_values :: "schema \<Rightarrow> entries \<Rightarrow> agg_func named list \<Rightarrow> sql_value list \<Rightarrow> live_set
    \<Rightarrow> (oracle_error, sql_value list option \<times> live_set) result" where
  "group_values s members [] values live = Ok (Some values, live)"
| "group_values s members (agg # aggs) values live =
    (case agg_evaluate (nm_value agg) members s of
       Inr v \<Rightarrow> group_values s members aggs (values @ [v]) live
     | Inl (OrPlan e) \<Rightarrow> if is_evaluation_error e then bindR (live_record e live) (\<lambda>live'. Ok (None, live'))
         else Err (OrPlan e)
     | Inl other \<Rightarrow> Err other)"

definition group_row :: "group_by \<Rightarrow> schema \<Rightarrow> entries \<times> live_set \<Rightarrow> sql_value list \<times> entries
    \<Rightarrow> (oracle_error, entries \<times> live_set) result" where
  "group_row g s acc km = (case (acc, km) of ((out, live), (key, members)) \<Rightarrow>
    bindR (count_members (OrPlan (AggregateOverflow ''GROUP BY'')) (\<lambda>_. Ok True) members) (\<lambda>total.
    if total \<le> 0 \<and> gb_keys g \<noteq> [] then Ok (out, live)
    else bindR (group_values s members (gb_aggregates g) key live) (\<lambda>(vs, live').
      Ok (case vs of None \<Rightarrow> (out, live') | Some values \<Rightarrow> (out @ [(values, 1)], live')))))"

definition eval_group_by :: "group_by \<Rightarrow> orel \<Rightarrow> schema \<Rightarrow> live_set \<Rightarrow> (oracle_error, orel \<times> live_set) result" where
  "eval_group_by g input output live =
    bindR (foldR (group_entry g (rl_schema input)) (if gb_keys g = [] then [([], [])] else [], live) (rl_entries input))
      (\<lambda>(groups, live1).
    bindR (foldR (group_row g (rl_schema input)) ([], live1) groups) (\<lambda>(out, live2).
    Ok (\<lparr>rl_schema = output, rl_entries = out\<rparr>, live2)))"

definition oracle_project_entry :: "expr named list \<Rightarrow> schema \<Rightarrow> entries \<times> live_set \<Rightarrow> row \<times> int
    \<Rightarrow> (oracle_error, entries \<times> live_set) result" where
  "oracle_project_entry items s acc e = (case (acc, e) of ((projected, live), (row, weight)) \<Rightarrow>
    case mapR (\<lambda>item. eval (nm_value item) row s) items of
      Inr values \<Rightarrow> Ok (projected @ [(values, weight)], live)
    | Inl err \<Rightarrow> bindR (live_record err live) (\<lambda>live'. Ok (projected, live')))"

definition oracle_project :: "expr named list \<Rightarrow> schema \<Rightarrow> orel \<Rightarrow> live_set \<Rightarrow> (oracle_error, orel \<times> live_set) result" where
  "oracle_project items output rel live =
    bindR (foldR (oracle_project_entry items (rl_schema rel)) ([], live) (rl_entries rel)) (\<lambda>(projected, live').
    Ok (\<lparr>rl_schema = output, rl_entries = projected\<rparr>, live'))"

definition oracle_distinct_entry :: "row \<times> int \<Rightarrow> (oracle_error, row \<times> int) result" where
  "oracle_distinct_entry e = (if snd e < 0 then Err (NegativeIntermediate ''DISTINCT input'' (snd e)) else Ok (fst e, 1))"

section \<open>Answers\<close>

definition oracle_where :: "query \<Rightarrow> orel \<Rightarrow> live_set \<Rightarrow> (oracle_error, orel \<times> live_set) result" where
  "oracle_where q rel live = (case q_filter q of None \<Rightarrow> Ok (rel, live) | Some p \<Rightarrow> oracle_filter p rel live)"

definition oracle_group :: "query \<Rightarrow> schema \<Rightarrow> orel \<Rightarrow> live_set \<Rightarrow> (oracle_error, orel \<times> live_set) result" where
  "oracle_group q grouped rel live = (case q_group_by q of
      None \<Rightarrow> Ok (rel, live)
    | Some g \<Rightarrow> bindR (eval_group_by g rel grouped live) (\<lambda>(rel', live').
        case gb_having g of None \<Rightarrow> Ok (rel', live') | Some h \<Rightarrow> oracle_filter h rel' live'))"

definition oracle_select :: "query \<Rightarrow> schema \<Rightarrow> orel \<Rightarrow> live_set \<Rightarrow> (oracle_error, orel \<times> live_set) result" where
  "oracle_select q output rel live = (case q_project q of
      None \<Rightarrow> Ok (rel, live) | Some items \<Rightarrow> oracle_project items output rel live)"

definition answer_at :: "oracle_db \<Rightarrow> query \<Rightarrow> nat \<Rightarrow> (oracle_error, zset_batch) result" where
  "answer_at orc q epoch =
    (if epoch > sealed_epoch orc then Err (EpochOutOfRange epoch (sealed_epoch orc))
     else bindR (map_err OrPlan (bind q (or_catalog orc))) (\<lambda>b.
       bindR (eval_source orc epoch (q_source q)) (\<lambda>r0.
       bindR (oracle_where q r0 []) (\<lambda>(r1, live1).
       bindR (oracle_consolidate (rl_entries r1)) (\<lambda>es1.
       bindR (oracle_group q (bd_grouped_schema b) (r1\<lparr>rl_entries := es1\<rparr>) live1) (\<lambda>(r2, live2).
       bindR (oracle_select q (bd_output_schema b) r2 live2) (\<lambda>(r3, live3).
       case live_least live3 of
         Some e \<Rightarrow> Err (OrPlan e)
       | None \<Rightarrow>
          bindR (oracle_consolidate (rl_entries r3)) (\<lambda>es.
          bindR (if q_distinct q then mapR oracle_distinct_entry es else Ok es) (\<lambda>es'.
          map_err OrZSet (from_entries (bd_output_schema b) es'))))))))))"

definition oracle_answer :: "oracle_db \<Rightarrow> query \<Rightarrow> (oracle_error, zset_batch) result" where
  "oracle_answer orc q = answer_at orc q (sealed_epoch orc)"

definition canonical_answer_at :: "oracle_db \<Rightarrow> query \<Rightarrow> nat \<Rightarrow> (oracle_error, canonical) result" where
  "canonical_answer_at orc q epoch = bindR (answer_at orc q epoch) (\<lambda>b. map_err OrZSet (zb_canonical b))"

end
