(* ===== verification/Oracle_Props.thy ===== *)
theory Oracle_Props
  imports Oracle Linear Join State
begin

text \<open>
  What the reference engine computes, stage by stage, as Z-sets: a table's contents are the integral of
  its deltas, a join source is the bilinear join, a filter or projection the linear extension of its
  row function. The messages of the live errors are tracked exactly, and every relation in flight
  has positive weights and 64-bit integers.
\<close>

section \<open>Integration and consolidation\<close>

lemma add_weight_Ok:
  "add_weight what m (r, w) = Ok m' \<longleftrightarrow> in_i64 (bt_get_or 0 m r + w) \<and> m' = bt_insert r (bt_get_or 0 m r + w) m"
  by (auto simp: add_weight_def result_simps)

lemma add_weight_fold:
  "foldR (add_weight what) m es = Ok m' \<Longrightarrow> bt_ok m \<Longrightarrow>
    bt_ok m' \<and> (\<forall>r. bt_get_or 0 m' r = bt_get_or 0 m r + zw es r) \<and> fst ` set m' = fst ` set m \<union> fst ` set es"
proof (induction es arbitrary: m)
  case (Cons e es)
  obtain r w where e: "e = (r, w)" by (cases e)
  have rest: "foldR (add_weight what) (bt_insert r (bt_get_or 0 m r + w) m) es = Ok m'"
    using Cons.prems(1) by (auto simp: e add_weight_Ok bindR_eq_Ok)
  from Cons.IH [OF rest] Cons.prems(2) show ?case
    by (auto simp: e btree_simps)
qed simp

definition proper :: "entries \<Rightarrow> bool" where
  "proper es \<longleftrightarrow> (\<forall>(r, w) \<in> set es. 0 < w \<and> list_all value_in_range r)"

lemma proper_simps [simp]:
  "proper []" "proper ((r, w) # es) \<longleftrightarrow> 0 < w \<and> list_all value_in_range r \<and> proper es"
  "proper (xs @ ys) \<longleftrightarrow> proper xs \<and> proper ys"
  by (auto simp: proper_def)

lemma proper_zw_nonneg: "proper es \<Longrightarrow> 0 \<le> zw es r"
  by (induction es) (auto split: if_splits)

lemma proper_zw_pos: "proper es \<Longrightarrow> r \<in> fst ` set es \<Longrightarrow> 0 < zw es r"
proof (induction es)
  case (Cons e es)
  then show ?case using proper_zw_nonneg [of es r] by (cases e) (auto simp: add_pos_nonneg add_nonneg_pos)
qed simp

lemma proper_support: "proper es \<Longrightarrow> {r. zw es r \<noteq> 0} = fst ` set es"
  using proper_zw_pos zw_notin by fastforce

lemma zw_filter_weight: "bt_ok m \<Longrightarrow> zw (filter (\<lambda>(_, w). w \<noteq> 0) m) = zw m"
  by (rule ext) (induct m, auto)

lemma oracle_consolidate_Ok:
  assumes "oracle_consolidate es = Ok es'"
  shows "canon es'" "zw es' = zw es" "fst ` set es' \<subseteq> fst ` set es"
proof -
  obtain m where m: "foldR (add_weight ''consolidating an intermediate relation'') [] es = Ok m"
    and es': "es' = filter (\<lambda>(_, w). w \<noteq> 0) m"
    using assms by (auto simp: oracle_consolidate_def result_simps)
  note f = add_weight_fold [OF m]
  show "canon es'" using f by (auto simp: es' canon_def)
  show "zw es' = zw es" using f by (simp add: es' zw_filter_weight zw_bt fun_eq_iff)
  show "fst ` set es' \<subseteq> fst ` set es" using f by (auto simp: es')
qed

lemma canon_proper:
  assumes "canon es'" "zw es' = zw es" "proper es" "fst ` set es' \<subseteq> fst ` set es"
  shows "proper es'"
  unfolding proper_def
proof (intro ballI, clarify)
  fix r w assume e: "(r, w) \<in> set es'"
  then have "r \<in> fst ` set es" using assms(4) by force
  moreover have "zw es' r = w"
    using e assms(1) canon_weight [OF assms(1), of r] bt_get_iff [of es' r w]
    by (auto simp: canon_def bt_get_def split: if_splits)
  ultimately show "0 < w \<and> list_all value_in_range r"
    using assms(2,3) proper_zw_pos [OF assms(3)] by (auto simp: proper_def)
qed

lemma oracle_consolidate_proper:
  "oracle_consolidate es = Ok es' \<Longrightarrow> proper es \<Longrightarrow> proper es'"
  by (rule canon_proper [OF oracle_consolidate_Ok(1,2) _ oracle_consolidate_Ok(3)])

section \<open>Table contents\<close>

definition in_range_deltas :: "epoch_deltas list \<Rightarrow> bool" where
  "in_range_deltas ds \<longleftrightarrow> (\<forall>d \<in> set ds. \<forall>(t, es) \<in> set d. \<forall>(r, w) \<in> set es. list_all value_in_range r)"

lemma in_range_entries_for:
  assumes "in_range_deltas ds" "d \<in> set ds" "(r, w) \<in> set (entries_for d t)"
  shows "list_all value_in_range r"
proof (cases "map_of d t")
  case (Some es)
  then have "(t, es) \<in> set d" by (rule map_of_SomeD)
  moreover have "(r, w) \<in> set es" using assms(3) Some by (simp add: entries_for_def bt_get_or_def)
  ultimately show ?thesis using assms(1,2) by (fastforce simp: in_range_deltas_def)
qed (use assms(3) in \<open>simp add: entries_for_def bt_get_or_def\<close>)

lemma push_present_Ok:
  "push_present t n out (r, w) = Ok out' \<longleftrightarrow> 0 \<le> w \<and> out' = (if w \<noteq> 0 then out @ [(r, w)] else out)"
  by (auto simp: push_present_def)

lemma push_present_fold:
  "foldR (push_present t n) out m = Ok out' \<Longrightarrow>
    out' = out @ filter (\<lambda>(_, w). w \<noteq> 0) m \<and> (\<forall>(_, w) \<in> set m. 0 \<le> w)"
proof (induction m arbitrary: out)
  case (Cons e m)
  obtain r w where e: "e = (r, w)" by (cases e)
  have "0 \<le> w" "foldR (push_present t n) (if w \<noteq> 0 then out @ [(r, w)] else out) m = Ok out'"
    using Cons.prems by (auto simp: e push_present_Ok bindR_eq_Ok)
  from Cons.IH [OF this(2)] this(1) show ?case by (auto simp: e)
qed simp

lemma contents_at_Ok:
  assumes "contents_at orc t n = Ok es"
  shows "zw es = zw (concat (map (\<lambda>d. entries_for d t) (take n (or_log orc))))"
    and "in_range_deltas (or_log orc) \<Longrightarrow> proper es"
proof -
  let ?h = "concat (map (\<lambda>d. entries_for d t) (take n (or_log orc)))"
  obtain m where m: "foldR (add_weight ''integrating a table's deltas'') [] ?h = Ok m"
    and p: "foldR (push_present t n) [] m = Ok es"
    using assms by (auto simp: contents_at_def result_simps split: if_splits)
  note f = add_weight_fold [OF m] and q = push_present_fold [OF p]
  show "zw es = zw ?h" using f q by (simp add: zw_filter_weight zw_bt fun_eq_iff)
  assume range: "in_range_deltas (or_log orc)"
  have "list_all value_in_range r" if "r \<in> fst ` set m" for r
  proof -
    have "r \<in> fst ` set ?h" using that f by simp
    then obtain w d where "d \<in> set (take n (or_log orc))" "(r, w) \<in> set (entries_for d t)" by auto
    then show ?thesis using in_range_entries_for [OF range] in_set_takeD by metis
  qed
  moreover have "\<forall>(r, w) \<in> set m. 0 \<le> w" using q by simp
  ultimately show "proper es" using q by (fastforce simp: proper_def)
qed

section \<open>Joins\<close>

lemma oracle_keys_match_iff:
  "oracle_keys_match l r keys = Ok b \<Longrightarrow>
    b \<longleftrightarrow> key_of l (map fst keys) \<noteq> None \<and> key_of l (map fst keys) = key_of r (map snd keys)"
proof (induction keys)
  case (Cons k keys)
  then show ?case
    by (cases k; cases "key_of l (map fst keys)"; cases "key_of r (map snd keys)")
      (auto simp: result_simps is_null_def split: if_splits option.splits)
qed simp

lemma oracle_pair_zw:
  assumes "oracle_pair keys le out re = Ok out'" "jo_left_key op = map fst keys" "jo_right_key op = map snd keys"
  shows "zw out' r = zw out r + snd re * (snd le * join_pair op r (fst le) (fst re))"
  using assms(1)
  by (cases le; cases re)
    (auto simp: oracle_pair_def result_simps join_pair_def join_match_def assms(2,3) split: if_splits
      dest!: oracle_keys_match_iff)

lemma zint_scale: "zint (\<lambda>r. c * h r) es = c * zint h es"
  by (induction es) (simp_all add: algebra_simps)

lemma oracle_join_zw:
  assumes "foldR (\<lambda>out le. foldR (oracle_pair keys le) out rs) [] ls = Ok es"
    and "jo_left_key op = map fst keys" "jo_right_key op = map snd keys"
  shows "zw es r = join_spec op ls rs r"
proof -
  have "zw es r = zw [] r + zint (\<lambda>l. zint (join_pair op r l) rs) ls"
  proof (rule foldR_zw_sum [OF assms(1)])
    fix o' le o''
    assume "foldR (oracle_pair keys le) o' rs = Ok o''"
    then have "zw o'' r = zw o' r + zint (\<lambda>x. snd le * join_pair op r (fst le) x) rs"
      by (rule foldR_zw_sum) (rule oracle_pair_zw [OF _ assms(2,3)])
    then show "zw o'' r = zw o' r + snd le * zint (join_pair op r (fst le)) rs" by (simp add: zint_scale)
  qed
  then show ?thesis by (simp add: join_spec_def)
qed

lemma oracle_join_proper:
  assumes "foldR (\<lambda>out le. foldR (oracle_pair keys le) out rs) [] ls = Ok es" "proper ls" "proper rs"
  shows "proper es"
proof (rule foldR_inv [OF assms(1)])
  fix o' le o''
  assume le: "le \<in> set ls" and o': "proper o'" and f: "foldR (oracle_pair keys le) o' rs = Ok o''"
  show "proper o''"
  proof (rule foldR_inv [OF f])
    show "proper o'" by (rule o')
    fix u re v
    assume "re \<in> set rs" "proper u" "oracle_pair keys le u re = Ok v"
    moreover obtain l lw where l: "le = (l, lw)" by (cases le)
    moreover obtain rr rw where rr: "re = (rr, rw)" by (cases re)
    moreover have "0 < lw" "list_all value_in_range l" using le assms(2) l by (auto simp: proper_def)
    moreover have "0 < rw" "list_all value_in_range rr" using \<open>re \<in> set rs\<close> assms(3) rr by (auto simp: proper_def)
    ultimately show "proper v"
      by (auto simp: oracle_pair_def result_simps split: if_splits)
  qed
qed simp

section \<open>Linear stages\<close>

text \<open>A filter or projection of the reference engine: one loop, with its live errors.\<close>

fun lin_live :: "row_fun \<Rightarrow> entries \<times> live_set \<Rightarrow> row \<times> int \<Rightarrow> (oracle_error, entries \<times> live_set) result" where
  "lin_live f (kept, live) (r, w) = (case f r of
      Inr (Some r') \<Rightarrow> Ok (kept @ [(r', w)], live)
    | Inr None \<Rightarrow> Ok (kept, live)
    | Inl err \<Rightarrow> bindR (live_record err live) (\<lambda>live'. Ok (kept, live')))"

definition pred_fun :: "expr \<Rightarrow> schema \<Rightarrow> row_fun" where
  "pred_fun p s = filter_fun \<lparr>fl_input_schema = s, fl_predicate = p\<rparr>"

definition items_fun :: "expr named list \<Rightarrow> schema \<Rightarrow> row_fun" where
  "items_fun items s r = bindR (mapR (\<lambda>item. eval (nm_value item) r s) items) (\<lambda>vs. Ok (Some vs))"

lemma oracle_filter_lin: "oracle_filter_entry p s = lin_live (pred_fun p s)"
  by (intro ext)
    (auto simp: oracle_filter_entry_def pred_fun_def filter_fun_def bindR_def split: sum.splits prod.splits)

lemma oracle_project_lin: "oracle_project_entry items s = lin_live (items_fun items s)"
  by (intro ext)
    (auto simp: oracle_project_entry_def items_fun_def bindR_def split: sum.splits prod.splits)

definition messages :: "entries \<Rightarrow> string set" where
  "messages es = {m. [VStr m] \<in> fst ` set es}"

lemma messages_simps [simp]: "messages [] = {}" "messages (xs @ ys) = messages xs \<union> messages ys"
  "messages ((error_row e, w) # es) = insert (evaluation_message e) (messages es)"
  by (auto simp: messages_def error_row_def)

lemma live_record_Ok:
  "live_record e live = Ok live' \<longleftrightarrow> is_evaluation_error e \<and> live' = bt_insert (evaluation_message e) e live"
  by (auto simp: live_record_def)

text \<open>Every live error is an evaluation error filed under its own message.\<close>

definition live_ok :: "live_set \<Rightarrow> bool" where
  "live_ok live \<longleftrightarrow> bt_ok live \<and> (\<forall>(m, e) \<in> set live. is_evaluation_error e \<and> m = evaluation_message e)"

lemma live_ok_Nil [simp]: "live_ok []"
  by (simp add: live_ok_def)

lemma set_bt_insert: "set (bt_insert k v m) \<subseteq> insert (k, v) (set m)"
  by (induction k v m rule: bt_insert.induct) auto

lemma live_record_ok:
  assumes "live_record e live = Ok live'" "live_ok live"
  shows "live_ok live'" "fst ` set live' = insert (evaluation_message e) (fst ` set live)"
  using assms set_bt_insert [of "evaluation_message e" e live]
  by (auto simp: live_record_Ok live_ok_def btree_simps)

lemma lin_live_fold:
  "foldR (lin_live f) (ks, live) es = Ok (ks', live') \<Longrightarrow> live_ok live \<Longrightarrow>
    ks' = ks @ lin_data f es \<and> live_ok live' \<and> fst ` set live' = fst ` set live \<union> messages (lin_errs f es)"
proof (induction es arbitrary: ks live)
  case (Cons e es)
  obtain r w where e: "e = (r, w)" by (cases e)
  show ?case
  proof (cases "f r")
    case (Inl err)
    then obtain live1 where l: "live_record err live = Ok live1" "foldR (lin_live f) (ks, live1) es = Ok (ks', live')"
      using Cons.prems e by (auto simp: result_simps)
    then show ?thesis
      using Cons.IH [OF l(2)] live_record_ok [OF l(1) Cons.prems(2)] Inl e by auto
  next
    case (Inr x)
    then have "foldR (lin_live f) (case x of None \<Rightarrow> ks | Some r' \<Rightarrow> ks @ [(r', w)], live) es = Ok (ks', live')"
      using Cons.prems(1) e by (cases x) auto
    from Cons.IH [OF this Cons.prems(2)] show ?thesis using Inr e by (cases x) auto
  qed
qed simp

lemma proper_lin_data:
  assumes "proper es" "\<And>r r'. f r = Ok (Some r') \<Longrightarrow> list_all value_in_range r \<Longrightarrow> list_all value_in_range r'"
  shows "proper (lin_data f es)"
  using assms(1) by (induction es) (auto split: sum.splits option.splits dest: assms(2))

lemma pred_fun_same: "pred_fun p s r = Ok (Some r') \<Longrightarrow> r' = r"
  by (auto simp: pred_fun_def filter_fun_def result_simps split: if_splits)

lemma items_fun_range:
  assumes "items_fun items s r = Ok (Some r')" "list_all value_in_range r" "\<forall>i \<in> set items. expr_in_range (nm_value i)"
  shows "list_all value_in_range r'"
proof -
  have "list_all2 (\<lambda>i v. eval (nm_value i) r s = Ok v) items r'"
    using assms(1) by (auto simp: items_fun_def result_simps mapR_eq_Ok)
  then show ?thesis using assms(2,3)
    by (induction rule: list_all2_induct) (auto dest: eval_in_range(1))
qed

end
