(* ===== verification/Group_Equiv.thy ===== *)
theory Group_Equiv
  imports Oracle_Props Operator_Trait
begin

text \<open>
  The incremental aggregate against the reference one. The engine folds the ordered multiset of a
  slot's values, kept as weights modulo \<open>2 ^ 64\<close>; the reference folds the members of a group row by
  row. On a group whose total fits an \<open>i64\<close> both compute the same value, for every aggregate
  function.
\<close>

section \<open>Weighted lists of values\<close>

definition arg_values :: "expr \<Rightarrow> schema \<Rightarrow> entries \<Rightarrow> (sql_value \<times> int) list" where
  "arg_values arg s es = concat (map (\<lambda>(r, w). case eval arg r s of
     Inr v \<Rightarrow> if v = VNull then [] else [(v, w)] | Inl _ \<Rightarrow> []) es)"

abbreviation mass :: "('k \<times> int) list \<Rightarrow> int" where
  "mass es \<equiv> zint (\<lambda>_. 1) es"

definition ival :: "sql_value \<Rightarrow> int" where
  "ival v = (case v of VInt x \<Rightarrow> x | _ \<Rightarrow> 0)"

lemma ival_VInt [simp]: "ival (VInt x) = x"
  by (simp add: ival_def)

definition positive :: "('k \<times> int) list \<Rightarrow> bool" where
  "positive es \<longleftrightarrow> (\<forall>e \<in> set es. 0 < snd e)"

lemma positive_simps [simp]:
  "positive []" "positive (e # es) \<longleftrightarrow> 0 < snd e \<and> positive es" "positive (xs @ ys) \<longleftrightarrow> positive xs \<and> positive ys"
  by (auto simp: positive_def)

lemma proper_positive: "proper es \<Longrightarrow> positive es"
  by (auto simp: proper_def positive_def)

lemma arg_values_simps [simp]:
  "arg_values arg s [] = []"
  "arg_values arg s ((r, w) # es) = (case eval arg r s of
     Inr v \<Rightarrow> if v = VNull then [] else [(v, w)] | Inl _ \<Rightarrow> []) @ arg_values arg s es"
  by (simp_all add: arg_values_def)

lemma positive_arg_values: "positive es \<Longrightarrow> positive (arg_values arg s es)"
proof (induction es)
  case (Cons e es)
  then show ?case by (cases e) (auto split: sum.split)
qed simp

lemma mass_nonneg: "positive es \<Longrightarrow> 0 \<le> mass es"
  by (induction es) auto

lemma mass_arg_values: "positive es \<Longrightarrow> mass (arg_values arg s es) \<le> mass es"
proof (induction es)
  case (Cons e es)
  then show ?case by (cases e) (auto split: sum.split)
qed simp

lemma zw_le_mass: "positive es \<Longrightarrow> 0 \<le> zw es v \<and> zw es v \<le> mass es"
proof (induction es)
  case (Cons e es)
  then show ?case using mass_nonneg [of es] by auto
qed simp

lemma zw_positive_iff: "positive es \<Longrightarrow> zw es v \<noteq> 0 \<longleftrightarrow> v \<in> fst ` set es"
proof (induction es)
  case (Cons e es)
  then show ?case using zw_le_mass [of es v] by auto
qed simp

lemma canon_positive:
  assumes "canon ms" "\<And>v. 0 \<le> zw ms v"
  shows "positive ms"
  unfolding positive_def
proof
  fix e assume e: "e \<in> set ms"
  then have "snd e \<noteq> 0" "map_of ms (fst e) = Some (snd e)"
    using assms(1) bt_get_iff [of ms "fst e" "snd e"] by (auto simp: canon_def bt_get_def)
  then show "0 < snd e" using canon_weight [OF assms(1), of "fst e"] assms(2) [of "fst e"] by (auto split: if_splits)
qed

section \<open>The reference aggregates\<close>

lemma count_members_Ok:
  assumes "foldR (\<lambda>t (r, w). bindR (P r) (\<lambda>b. if b then ok_or (checked_add t w) err else Ok t)) t ms = Ok n" "in_i64 t"
  shows "in_i64 n \<and> n = t + zint (\<lambda>r. if P r = Ok True then 1 else 0) ms \<and> (\<forall>e \<in> set ms. is_ok (P (fst e)))"
  using assms
proof (induction ms arbitrary: t)
  case (Cons e ms)
  obtain r w where e: "e = (r, w)" by (cases e)
  from Cons.prems(1) obtain b t1 where b: "P r = Ok b" and t1: "(if b then ok_or (checked_add t w) err else Ok t) = Ok t1"
    and rest: "foldR (\<lambda>t (r, w). bindR (P r) (\<lambda>b. if b then ok_or (checked_add t w) err else Ok t)) t1 ms = Ok n"
    by (auto simp: e bindR_eq_Ok)
  have "in_i64 t1" "t1 = t + (if b then w else 0)" using t1 Cons.prems(2) by (auto simp: result_simps split: if_splits)
  with Cons.IH [OF rest] b show ?case by (auto simp: e)
qed simp

lemma count_all_Ok:
  assumes "count_members err (\<lambda>_. Ok True) ms = Ok n"
  shows "in_i64 n" "n = mass ms"
  using count_members_Ok [OF assms [unfolded count_members_def] in_i64_0] by auto

lemma count_arg_Ok:
  assumes "count_members err (\<lambda>r. bindR (map_err OrPlan (eval arg r s)) (\<lambda>v. Ok (\<not> is_null v))) ms = Ok n"
  shows "n = mass (arg_values arg s ms)" "\<forall>e \<in> set ms. is_ok (eval arg (fst e) s)"
proof -
  note c = count_members_Ok [OF assms [unfolded count_members_def] in_i64_0]
  show "\<forall>e \<in> set ms. is_ok (eval arg (fst e) s)"
    using c by (fastforce simp: is_ok_iff result_simps)
  have "zint (\<lambda>r. if bindR (map_err OrPlan (eval arg r s)) (\<lambda>v. Ok (\<not> is_null v)) = (Ok True :: (oracle_error, bool) result)
      then 1 else 0) ms = mass (arg_values arg s ms)"
  proof (induction ms)
    case (Cons e ms)
    then show ?case by (cases e) (auto simp: is_null_def split: sum.split)
  qed simp
  then show "n = mass (arg_values arg s ms)" using c by simp
qed

lemma sum_members_Ok:
  assumes "foldR (sum_member func arg s) (t, n, any) ms = Ok (t', n', any')"
  shows "t' = t + zint ival (arg_values arg s ms) \<and> n' = n + mass (arg_values arg s ms)
    \<and> any' = (any \<or> arg_values arg s ms \<noteq> []) \<and> (\<forall>e \<in> set ms. is_ok (eval arg (fst e) s))
    \<and> (\<forall>e \<in> set (arg_values arg s ms). \<exists>x. fst e = VInt x)"
  using assms
proof (induction ms arbitrary: t n any)
  case (Cons e ms)
  obtain r w where e: "e = (r, w)" by (cases e)
  obtain t1 n1 any1 where st: "sum_member func arg s (t, n, any) (r, w) = Ok (t1, n1, any1)"
    and rest: "foldR (sum_member func arg s) (t1, n1, any1) ms = Ok (t', n', any')"
    using Cons.prems by (auto simp: e bindR_eq_Ok)
  obtain v where v: "eval arg r s = Ok v" using st by (auto simp: sum_member_def result_simps)
  have "t1 = t + zint ival (arg_values arg s [(r, w)]) \<and> n1 = n + mass (arg_values arg s [(r, w)])
      \<and> any1 = (any \<or> arg_values arg s [(r, w)] \<noteq> []) \<and> is_ok (eval arg r s)
      \<and> (\<forall>e \<in> set (arg_values arg s [(r, w)]). \<exists>x. fst e = VInt x)"
    using st v by (cases v) (auto simp: sum_member_def result_simps ival_def split: if_splits)
  moreover have "arg_values arg s (e # ms) = arg_values arg s [(r, w)] @ arg_values arg s ms" by (simp add: e)
  ultimately show ?case using Cons.IH [OF rest] by (auto simp: e simp del: arg_values_simps)
qed simp

definition best_of :: "which_extremum \<Rightarrow> (sql_value \<times> int) list \<Rightarrow> sql_value option \<Rightarrow> sql_value option" where
  "best_of which vs b = foldl (\<lambda>b e. Some (better which (fst e) b)) b vs"

lemma extremum_members_Ok:
  assumes "foldR (extremum_member which arg s) b ms = Ok b'" "positive ms"
  shows "b' = best_of which (arg_values arg s ms) b \<and> (\<forall>e \<in> set ms. is_ok (eval arg (fst e) s))"
  using assms
proof (induction ms arbitrary: b)
  case (Cons e ms)
  obtain r w where e: "e = (r, w)" by (cases e)
  obtain b1 where st: "extremum_member which arg s b (r, w) = Ok b1"
    and rest: "foldR (extremum_member which arg s) b1 ms = Ok b'"
    using Cons.prems by (auto simp: e bindR_eq_Ok)
  have "b1 = best_of which (arg_values arg s [(r, w)]) b \<and> is_ok (eval arg r s)"
    using st Cons.prems(2) by (auto simp: e extremum_member_def best_of_def result_simps is_null_def split: if_splits)
  moreover have "arg_values arg s (e # ms) = arg_values arg s [(r, w)] @ arg_values arg s ms" by (simp add: e)
  ultimately show ?case using Cons.IH [OF rest] Cons.prems(2) by (auto simp: e best_of_def simp del: arg_values_simps)
qed (simp add: best_of_def)

lemma Min_Max_merge:
  fixes a b :: "'a::linorder"
  assumes "finite S"
  shows "Lattices_Big.Min (insert (min a b) S) = Lattices_Big.Min (insert b (insert a S))"
    "Lattices_Big.Max (insert (max a b) S) = Lattices_Big.Max (insert b (insert a S))"
  using assms by (cases "S = {}"; simp add: ac_simps)+

lemma best_of_Some:
  "best_of MinOf vs (Some b) = Some (Lattices_Big.Min (insert b (fst ` set vs)))"
  "best_of MaxOf vs (Some b) = Some (Lattices_Big.Max (insert b (fst ` set vs)))"
proof (induction vs arbitrary: b)
  case (Cons e vs)
  {
    case 1
    have "best_of MinOf (e # vs) (Some b) = best_of MinOf vs (Some (min (fst e) b))"
      by (simp add: best_of_def better_def min_def less_le)
    then show ?case by (simp only: Cons.IH(1) Min_Max_merge [OF finite_imageI [OF finite_set]]) simp
  next
    case 2
    have "best_of MaxOf (e # vs) (Some b) = best_of MaxOf vs (Some (max (fst e) b))"
      by (auto simp add: best_of_def better_def max_def)
    then show ?case by (simp only: Cons.IH(2) Min_Max_merge [OF finite_imageI [OF finite_set]]) simp
  }
qed (simp_all add: best_of_def)

lemma best_of_None:
  "best_of MinOf vs None = (if vs = [] then None else Some (Lattices_Big.Min (fst ` set vs)))"
  "best_of MaxOf vs None = (if vs = [] then None else Some (Lattices_Big.Max (fst ` set vs)))"
proof -
  have "best_of which (e # vs) None = best_of which vs (Some (fst e))" for which e vs
    by (simp add: best_of_def better_def)
  then show "best_of MinOf vs None = (if vs = [] then None else Some (Lattices_Big.Min (fst ` set vs)))"
    "best_of MaxOf vs None = (if vs = [] then None else Some (Lattices_Big.Max (fst ` set vs)))"
    by (cases vs; simp add: best_of_Some best_of_def [of _ "[]"])+
qed

section \<open>The incremental folds\<close>

lemma fold_values_count:
  assumes "positive ms" "0 \<le> fs_count st" "fs_count st + mass ms \<le> i64_max"
  shows "fold_values (Count a) ms st = st\<lparr>fs_any := fs_any st \<or> ms \<noteq> [], fs_count := fs_count st + mass ms\<rparr>"
  using assms
proof (induction ms arbitrary: st)
  case (Cons e ms)
  obtain v w where e: "e = (v, w)" by (cases e)
  have w: "0 < w" "fs_count st + w \<le> i64_max" using Cons.prems mass_nonneg [of ms] by (auto simp: e)
  then have "checked_add (fs_count st) w = Some (fs_count st + w)"
    using Cons.prems(2) by (simp add: result_simps i64_defs)
  then have "fold_values (Count a) (e # ms) st = fold_values (Count a) ms (st\<lparr>fs_any := True, fs_count := fs_count st + w\<rparr>)"
    by (simp add: e fold_visitor_def fold_count_def)
  also have "\<dots> = st\<lparr>fs_any := True, fs_count := fs_count st + w + mass ms\<rparr>"
    using Cons.IH [of "st\<lparr>fs_any := True, fs_count := fs_count st + w\<rparr>"] Cons.prems w by (simp add: e)
  finally show ?case by (simp add: e)
qed simp

lemma sum_bound_128:
  assumes "\<bar>t\<bar> \<le> 2 ^ 63 * n" "n + w \<le> i64_max" "0 < w" "0 \<le> n" "in_i64 x"
  shows "in_i128 (w * x)" "in_i128 (t + w * x)" "\<bar>t + w * x\<bar> \<le> 2 ^ 63 * (n + w)"
proof -
  have x: "\<bar>x\<bar> \<le> 2 ^ 63" using assms(5) by (auto simp: i64_defs)
  have wx: "\<bar>w * x\<bar> \<le> 2 ^ 63 * w"
    using mult_left_mono [OF x, of w] assms(3) by (simp add: abs_mult mult.commute)
  then show s: "\<bar>t + w * x\<bar> \<le> 2 ^ 63 * (n + w)" using assms(1) by (simp add: algebra_simps)
  have "2 ^ 63 * (n + w) \<le> 2 ^ 63 * i64_max" "2 ^ 63 * w \<le> 2 ^ 63 * i64_max" using assms(2-4) by simp_all
  moreover have "2 ^ 63 * i64_max < (2 ^ 127 :: int)" by (simp add: i64_max_def)
  ultimately show "in_i128 (w * x)" "in_i128 (t + w * x)" using s wx unfolding in_i128_def by linarith+
qed

lemma fold_values_sum:
  assumes func: "func = Sum a \<or> func = Avg a" and "positive ms" "0 \<le> fs_count st" "fs_count st + mass ms \<le> i64_max"
    and "\<forall>e \<in> set ms. \<exists>x. fst e = VInt x \<and> in_i64 x" "\<bar>fs_sum st\<bar> \<le> 2 ^ 63 * fs_count st"
  shows "fold_values func ms st = st\<lparr>fs_any := fs_any st \<or> ms \<noteq> [], fs_sum := fs_sum st + zint ival ms,
    fs_count := fs_count st + mass ms\<rparr>"
  using assms(2-)
proof (induction ms arbitrary: st)
  case (Cons e ms)
  obtain x w where e: "e = (VInt x, w)" and x: "in_i64 x" using Cons.prems(4) by (cases e) auto
  have w: "0 < w" "fs_count st + w \<le> i64_max" using Cons.prems mass_nonneg [of ms] by (auto simp: e)
  note b = sum_bound_128 [OF Cons.prems(5) w(2,1) Cons.prems(2) x]
  let ?st = "st\<lparr>fs_any := True, fs_sum := fs_sum st + w * x, fs_count := fs_count st + w\<rparr>"
  have "checked_add (fs_count st) w = Some (fs_count st + w)"
    using Cons.prems(2) w by (simp add: result_simps i64_defs)
  then have "fold_values func (e # ms) st = fold_values func ms ?st"
    using func b(1,2) by (auto simp: e fold_visitor_def fold_sum_def)
  also have "\<dots> = ?st\<lparr>fs_any := True, fs_sum := fs_sum ?st + zint ival ms, fs_count := fs_count ?st + mass ms\<rparr>"
    using Cons.IH [of ?st] Cons.prems w b(3) by (simp add: e)
  finally show ?case by (simp add: e add.assoc)
qed simp

section \<open>One slot of one group\<close>

lemma zw_slot_values:
  "zw (slot_values op r w g (enumerate n aggs)) (slot, g', v)
    = (if n \<le> slot \<and> slot < n + length aggs \<and> g' = g \<and> agg_arg op r (aggs ! (slot - n)) = Ok (Some v) then w else 0)"
proof (induction aggs arbitrary: n)
  case (Cons a aggs)
  have "slot_values op r w g (enumerate n (a # aggs))
      = (case agg_arg op r a of Inr (Some v) \<Rightarrow> [((n, g, v), w)] | _ \<Rightarrow> []) @ slot_values op r w g (enumerate (Suc n) aggs)"
    by (simp add: slot_values_def)
  then show ?case
    using Cons.IH [of "Suc n"]
    by (cases "slot = n") (auto simp: nth_Cons' Suc_diff_le split: sum.split option.split)
qed (simp add: slot_values_def)

definition group_members :: "aggregate_op \<Rightarrow> sql_value list \<Rightarrow> entries \<Rightarrow> entries" where
  "group_members op g es = filter (\<lambda>(r, w). agg_group op r = Ok g) es"

lemma zw_total_members: "zw (total_hist op es) g = mass (group_members op g es)"
proof (induction es)
  case (Cons e es)
  then show ?case
    by (cases e) (auto simp: total_hist_def group_members_def split: sum.split)
qed (simp add: group_members_def)

lemma zw_value_members:
  assumes "slot < length (ag_aggregates op)" "agg_argument (nm_value (ag_aggregates op ! slot)) = Some arg"
  shows "zw (value_hist op es) (slot, g, v) = zw (arg_values arg (ag_input_schema op) (group_members op g es)) v"
proof (induction es)
  case (Cons e es)
  obtain r w where e: "e = (r, w)" by (cases e)
  have "zw (value_hist op [e]) (slot, g, v) = zw (arg_values arg (ag_input_schema op) (group_members op g [e])) v"
    using assms by (auto simp: e value_hist_def group_members_def zw_slot_values agg_arg_def bindR_def
        split: sum.split if_splits)
  moreover have "value_hist op (e # es) = value_hist op [e] @ value_hist op es" using hist_append [of op "[e]" es] by simp
  moreover have "arg_values arg s (group_members op g (e # es))
      = arg_values arg s (group_members op g [e]) @ arg_values arg s (group_members op g es)" for s
    by (simp add: arg_values_def group_members_def)
  ultimately show ?case using Cons by simp
qed (simp add: group_members_def)

lemma proper_members: "proper es \<Longrightarrow> proper (group_members op g es)"
  by (auto simp: proper_def group_members_def)

lemma slot_multiset:
  assumes "agg_inv op [h]" "length g = key_count op" "zw h = zw es" "proper es"
    and "slot < length (ag_aggregates op)" "agg_argument (nm_value (ag_aggregates op ! slot)) = Some arg"
    and "mass (group_members op g es) \<le> i64_max"
  obtains ms where "mem_scan_prefix (ag_state op) (values_prefix slot g) = map (\<lambda>(v, w). (value_key_at slot g v, w)) ms"
    "canon ms" "positive ms" "zw ms = zw (arg_values arg (ag_input_schema op) (group_members op g es))"
proof -
  let ?vs = "arg_values arg (ag_input_schema op) (group_members op g es)"
  obtain ms where ms: "mem_scan_prefix (ag_state op) (values_prefix slot g) = map (\<lambda>(v, w). (value_key_at slot g v, w)) ms"
    "canon ms" "\<And>v. zw ms v = wrap64 (zw (value_hist op h) (slot, g, v))"
    using scan_values [OF assms(1,2), of slot] by blast
  have pos: "positive (group_members op g es)" using assms(4) by (intro proper_positive proper_members)
  have bound: "0 \<le> zw ?vs v" "zw ?vs v \<le> i64_max" for v
    using zw_le_mass [OF positive_arg_values [OF pos], of arg "ag_input_schema op" v]
      mass_arg_values [OF pos, of arg "ag_input_schema op"] assms(7) by auto
  have "zw ms v = zw ?vs v" for v
    using bound [of v] by (simp add: ms(3) hist_cong(2) [OF assms(3)] zw_value_members [OF assms(5,6)] wrap64_id i64_defs)
  then show ?thesis using that ms canon_positive [OF ms(2)] bound(1) by auto
qed

lemma mass_cong: "zw es = zw fs \<Longrightarrow> mass es = mass fs"
  by (rule zint_cong)

lemma arg_values_in_range:
  assumes "proper es" "expr_in_range arg" "e \<in> set (arg_values arg s es)"
  shows "value_in_range (fst e)"
  using assms
proof (induction es)
  case (Cons x es)
  then show ?case
    by (cases x; cases "eval arg (fst x) s") (auto split: if_splits dest: eval_in_range(1))
qed simp

lemma empty_iff:
  assumes "canon ms" "positive vs" "zw ms = zw vs"
  shows "fst ` set ms = fst ` set vs" "ms = [] \<longleftrightarrow> vs = []"
proof -
  show f: "fst ` set ms = fst ` set vs"
    using canon_support [OF assms(1)] zw_positive_iff [OF assms(2)] assms(3) by auto
  then show "ms = [] \<longleftrightarrow> vs = []" by auto
qed

text \<open>A multiset that holds exactly the argument values of a group's members.\<close>

definition slot_matches :: "expr \<Rightarrow> schema \<Rightarrow> entries \<Rightarrow> (sql_value \<times> int) list \<Rightarrow> bool" where
  "slot_matches arg s M ms \<longleftrightarrow> canon ms \<and> positive ms \<and> proper M \<and> mass M \<le> i64_max \<and> zw ms = zw (arg_values arg s M)"

lemma slot_matches_facts:
  assumes "slot_matches arg s M ms"
  shows "positive ms" "positive M" "mass ms \<le> i64_max" "zint ival ms = zint ival (arg_values arg s M)"
    "mass ms = mass (arg_values arg s M)" "fst ` set ms = fst ` set (arg_values arg s M)"
    "ms = [] \<longleftrightarrow> arg_values arg s M = []" "sorted_wrt (<) (map fst ms)"
proof -
  have m: "canon ms" "positive ms" "positive M" "zw ms = zw (arg_values arg s M)" "mass M \<le> i64_max"
    using assms by (simp_all add: slot_matches_def proper_positive)
  then show "positive ms" "positive M" "zint ival ms = zint ival (arg_values arg s M)" "sorted_wrt (<) (map fst ms)"
    and mm: "mass ms = mass (arg_values arg s M)"
    by (auto intro: zint_cong simp: canon_def bt_ok_def)
  show "mass ms \<le> i64_max" using mm mass_arg_values [OF m(3), of arg s] m(5) by simp
  show "fst ` set ms = fst ` set (arg_values arg s M)" "ms = [] \<longleftrightarrow> arg_values arg s M = []"
    using empty_iff [OF m(1) positive_arg_values [OF m(3)] m(4)] .
qed

definition slot_result :: "aggregate_op \<Rightarrow> sql_value list \<Rightarrow> agg_func \<Rightarrow> (sql_value \<times> int) list \<Rightarrow> (op_error, sql_value) result" where
  "slot_result op g func ms = (let st = fold_values func ms fold_start in
    case fs_failure st of Some e \<Rightarrow> Err e | None \<Rightarrow> fold_result op g func st)"

lemma count_reference:
  assumes "slot_matches arg s M ms" "agg_evaluate (Count arg) M s = Ok v"
  shows "slot_result op g (Count arg) ms = Ok v"
proof -
  note m = slot_matches_facts [OF assms(1)]
  have "v = VInt (mass ms)" using assms(2) count_arg_Ok(1) by (auto simp: agg_evaluate_def result_simps m(5))
  then show ?thesis
    using fold_values_count [OF m(1), of fold_start arg] m(3) by (simp add: slot_result_def fold_start_def fold_result_def)
qed

lemma sum_fold_reference:
  assumes m: "slot_matches arg s M ms" and f: "foldR (sum_member func arg s) (0, 0, False) M = Ok (t, n, any)"
    and func: "func = Sum arg \<or> func = Avg arg" and range: "expr_in_range arg"
  shows "fold_values func ms fold_start = fold_start\<lparr>fs_any := any, fs_sum := t, fs_count := n\<rparr>"
proof -
  note facts = slot_matches_facts [OF m] and o = sum_members_Ok [OF f]
  have "\<exists>x. fst e = VInt x \<and> in_i64 x" if "e \<in> set ms" for e
  proof -
    have "fst e \<in> fst ` set (arg_values arg s M)" using that unfolding facts(6) [symmetric] by (rule imageI)
    then obtain e' where e': "e' \<in> set (arg_values arg s M)" "fst e' = fst e" by auto
    have "proper M" using m by (simp add: slot_matches_def)
    from arg_values_in_range [OF this range e'(1)] have "value_in_range (fst e)" using e'(2) by simp
    moreover have "\<exists>x. fst e' = VInt x" using o e'(1) by blast
    ultimately show ?thesis using e'(2) by auto
  qed
  then have "fold_values func ms fold_start = fold_start\<lparr>fs_any := ms \<noteq> [], fs_sum := zint ival ms, fs_count := mass ms\<rparr>"
    using fold_values_sum [OF func facts(1), of fold_start] facts(3) by (simp add: fold_start_def)
  then show ?thesis using o facts(4,5,7) by simp
qed

lemma sum_reference:
  assumes "slot_matches arg s M ms" "agg_evaluate (Sum arg) M s = Ok v" "expr_in_range arg"
  shows "slot_result op g (Sum arg) ms = Ok v"
proof -
  obtain t n any where f: "foldR (sum_member (Sum arg) arg s) (0, 0, False) M = Ok (t, n, any)"
    and v: "v = (if any then VInt t else VNull)" "any \<Longrightarrow> in_i64 t"
    using assms(2) by (auto simp: agg_evaluate_def sum_and_count_def result_simps split: if_splits)
  then show ?thesis
    using sum_fold_reference [OF assms(1) f _ assms(3)] by (auto simp: slot_result_def fold_start_def fold_result_def)
qed

lemma avg_reference:
  assumes "slot_matches arg s M ms" "agg_evaluate (Avg arg) M s = Ok v" "expr_in_range arg"
  shows "slot_result op g (Avg arg) ms = Ok v"
proof -
  obtain t n any where f: "foldR (sum_member (Avg arg) arg s) (0, 0, False) M = Ok (t, n, any)"
    and v: "v = (if any then VFloat (f64_div_ints t n) else VNull)" "any \<Longrightarrow> in_i64 t"
    using assms(2) by (auto simp: agg_evaluate_def sum_and_count_def result_simps split: if_splits)
  then show ?thesis
    using sum_fold_reference [OF assms(1) f _ assms(3)] by (auto simp: slot_result_def fold_start_def fold_result_def)
qed

lemma extremum_reference:
  assumes "slot_matches arg s M ms"
  shows "agg_evaluate (Min arg) M s = Ok v \<Longrightarrow> slot_result op g (Min arg) ms = Ok v"
    "agg_evaluate (Max arg) M s = Ok v \<Longrightarrow> slot_result op g (Max arg) ms = Ok v"
proof -
  note m = slot_matches_facts [OF assms]
  have best: "b = best_of which (arg_values arg s M) None"
    if "foldR (extremum_member which arg s) None M = Ok b" for which b
    using extremum_members_Ok [OF that m(2)] by simp
  show "slot_result op g (Min arg) ms = Ok v" if "agg_evaluate (Min arg) M s = Ok v"
  proof -
    have "v = (if ms = [] then VNull else Lattices_Big.Min (fst ` set ms))"
      using that m(6,7) by (auto simp: agg_evaluate_def extremum_def result_simps best_of_None dest!: best)
    then show ?thesis
      using sorted_Min_hd [OF _ m(8)] by (cases ms) (auto simp: slot_result_def fold_visitor_def nth_opt_def Let_def fold_start_def fold_result_def)
  qed
  show "slot_result op g (Max arg) ms = Ok v" if "agg_evaluate (Max arg) M s = Ok v"
  proof -
    have "v = (if ms = [] then VNull else Lattices_Big.Max (fst ` set ms))"
      using that m(6,7) by (auto simp: agg_evaluate_def extremum_def result_simps best_of_None dest!: best)
    then show ?thesis
      using sorted_Max_last [OF _ m(8)]
      by (cases "ms = []") (auto simp: slot_result_def fold_values_max fold_start_def fold_result_def last_map)
  qed
qed

lemma agg_fold_reference:
  assumes inv: "agg_inv op [h]" "length g = key_count op" and hist: "zw h = zw es" "proper es"
    and slot: "slot < length (ag_aggregates op)" "nm_value (ag_aggregates op ! slot) = func" "func \<noteq> CountStar"
    and mass: "mass (group_members op g es) \<le> i64_max"
    and ref: "agg_evaluate func (group_members op g es) (ag_input_schema op) = Ok v"
    and range: "\<And>arg. agg_argument func = Some arg \<Longrightarrow> expr_in_range arg"
  shows "agg_fold op slot g func = Ok v"
proof -
  obtain arg where arg: "agg_argument func = Some arg" using slot(3) by (cases func) auto
  obtain ms where ms: "mem_scan_prefix (ag_state op) (values_prefix slot g) = map (\<lambda>(v, w). (value_key_at slot g v, w)) ms"
    "canon ms" "positive ms" "zw ms = zw (arg_values arg (ag_input_schema op) (group_members op g es))"
    using slot_multiset [OF inv hist slot(1) _ mass] slot(2) arg by metis
  have "slot_matches arg (ag_input_schema op) (group_members op g es) ms"
    using ms mass proper_members [OF hist(2)] by (simp add: slot_matches_def)
  then have "slot_result op g func ms = Ok v"
    using ref range [OF arg] arg count_reference sum_reference avg_reference extremum_reference by (cases func) auto
  then show ?thesis
    using agg_fold_values [OF ms(1) _ slot(3)] inv(1) by (simp add: agg_inv_def slot_result_def)
qed

section \<open>What a group emits\<close>

lemma emit_slots_reference:
  assumes "mapR (\<lambda>a. agg_evaluate (nm_value a) M s) (drop slot aggs) = Ok vs"
    and "\<And>i v. i < length aggs \<Longrightarrow> nm_value (aggs ! i) \<noteq> CountStar \<Longrightarrow> agg_evaluate (nm_value (aggs ! i)) M s = Ok v
      \<Longrightarrow> agg_fold op i g (nm_value (aggs ! i)) = Ok v"
    and "t = mass M" "slot \<le> length aggs"
  shows "emit_slots op t g slot (drop slot aggs) acc = Ok (EmRow (acc @ vs))"
  using assms(1,4)
proof (induction "drop slot aggs" arbitrary: slot acc vs)
  case Nil
  then show ?case by (metis append_Nil2 emit_slots.simps(1) mapR.simps(1) sum.inject(2))
next
  case (Cons a rest)
  have lt: "slot < length aggs" using Cons.hyps(2) Cons.prems(2) by (cases "slot < length aggs") auto
  then have a: "a = aggs ! slot" "rest = drop (Suc slot) aggs"
    using Cons.hyps(2) by (simp_all add: Cons_nth_drop_Suc [symmetric])
  obtain v ws where v: "agg_evaluate (nm_value a) M s = Ok v"
    and ws: "mapR (\<lambda>a. agg_evaluate (nm_value a) M s) (drop (Suc slot) aggs) = Ok ws" and vs: "vs = v # ws"
    using Cons.prems(1) a unfolding Cons.hyps(2) [symmetric] by (auto simp: bindR_eq_Ok)
  have "(if nm_value a = CountStar then Ok (VInt t) else agg_fold op slot g (nm_value a)) = Ok v"
    using v assms(2) [OF lt, of v] assms(3) a(1) count_all_Ok(2)
    by (auto simp: agg_evaluate_def bindR_eq_Ok split: if_splits)
  then have "emit_slots op t g slot (a # rest) acc = emit_slots op t g (Suc slot) rest (acc @ [v])" by simp
  also have "\<dots> = Ok (EmRow ((acc @ [v]) @ ws))"
    using Cons.hyps(1) [OF a(2) ws] lt a(2) by simp
  finally show ?case using Cons.hyps(2) vs by simp
qed

definition aggs_in_range :: "agg_func named list \<Rightarrow> bool" where
  "aggs_in_range aggs \<longleftrightarrow> (\<forall>a \<in> set aggs. \<forall>arg. agg_argument (nm_value a) = Some arg \<longrightarrow> expr_in_range arg)"

lemma group_total_members:
  assumes "agg_inv op [h]" "zw h = zw es" "proper es" "mass (group_members op g es) \<le> i64_max"
  shows "group_total op g = mass (group_members op g es)"
proof -
  have "0 \<le> mass (group_members op g es)" using assms(3) by (intro mass_nonneg proper_positive proper_members)
  then have "in_i64 (mass (group_members op g es))" using assms(4) by (simp add: i64_defs)
  then show ?thesis
    using assms(1) group_total_zw [of op g] by (simp add: agg_inv_def hist_cong(1) [OF assms(2)] zw_total_members wrap64_id)
qed

lemma emission_reference:
  assumes inv: "agg_inv op [h]" "length g = key_count op" and hist: "zw h = zw es" "proper es" and primed: "primed op"
    and mass: "mass (group_members op g es) \<le> i64_max" and range: "aggs_in_range (ag_aggregates op)"
    and ref: "mapR (\<lambda>a. agg_evaluate (nm_value a) (group_members op g es) (ag_input_schema op)) (ag_aggregates op) = Ok vs"
    and here: "is_grand_total op \<or> 0 < mass (group_members op g es)"
  shows "emission_of op g (was_primed op) = Ok (EmRow (g @ vs))"
proof -
  note t = group_total_members [OF inv(1) hist mass]
  have "agg_fold op i g (nm_value (ag_aggregates op ! i)) = Ok v"
    if "i < length (ag_aggregates op)" "nm_value (ag_aggregates op ! i) \<noteq> CountStar"
      "agg_evaluate (nm_value (ag_aggregates op ! i)) (group_members op g es) (ag_input_schema op) = Ok v" for i v
  proof (rule agg_fold_reference [OF inv hist that(1) refl that(2) mass that(3)])
    show "expr_in_range arg" if "agg_argument (nm_value (ag_aggregates op ! i)) = Some arg" for arg
      using range that nth_mem [OF \<open>i < length (ag_aggregates op)\<close>] by (auto simp: aggs_in_range_def)
  qed
  then have "emit_slots op (group_total op g) g 0 (drop 0 (ag_aggregates op)) g = Ok (EmRow (g @ vs))"
    using emit_slots_reference [of "group_members op g es" "ag_input_schema op" 0 "ag_aggregates op" vs] ref t by simp
  then show ?thesis using here primed by (auto simp: emission_of_def Let_def t primed_def)
qed

lemma emission_absent:
  assumes "agg_inv op [h]" "zw h = zw es" "proper es" "group_members op g es = []" "\<not> is_grand_total op"
  shows "emission_of op g a = Ok Absent"
  using group_total_members [OF assms(1-3)] assms(4,5) by (simp add: emission_of_def Let_def i64_max_def)

section \<open>The groups of the reference engine\<close>

abbreviation group_keys :: "group_by \<Rightarrow> schema \<Rightarrow> row \<Rightarrow> (plan_error, sql_value list) result" where
  "group_keys gb s r \<equiv> mapR (\<lambda>k. eval (nm_value k) r s) (gb_keys gb)"

lemma group_entry_Ok:
  assumes "group_entry gb s (groups, live) (r, w) = Ok (groups', live')" "live_ok live"
  shows "0 \<le> w"
    and "case group_keys gb s r of
        Inr k \<Rightarrow> groups' = bt_insert k (bt_get_or [] groups k @ [(r, w)]) groups \<and> live' = live
      | Inl e \<Rightarrow> groups' = groups \<and> live_ok live' \<and> fst ` set live' = insert (evaluation_message e) (fst ` set live)"
  using assms live_record_ok [OF _ assms(2)]
  by (auto simp: group_entry_def bindR_eq_Ok split: if_splits sum.splits)

lemma group_entries_Ok:
  assumes "foldR (group_entry gb s) (groups, live) es = Ok (groups', live')" "bt_ok groups" "live_ok live"
  shows "bt_ok groups' \<and> live_ok live'
    \<and> (\<forall>k. bt_get_or [] groups' k = bt_get_or [] groups k @ filter (\<lambda>(r, w). group_keys gb s r = Ok k) es)
    \<and> fst ` set groups' = fst ` set groups \<union> {k. \<exists>e \<in> set es. group_keys gb s (fst e) = Ok k}
    \<and> fst ` set live' = fst ` set live \<union> {evaluation_message e |e. \<exists>x \<in> set es. group_keys gb s (fst x) = Err e}"
  using assms
proof (induction es arbitrary: groups live)
  case (Cons x es)
  obtain r w where x: "x = (r, w)" by (cases x)
  obtain groups1 live1 where st: "group_entry gb s (groups, live) (r, w) = Ok (groups1, live1)"
    and rest: "foldR (group_entry gb s) (groups1, live1) es = Ok (groups', live')"
    using Cons.prems(1) by (auto simp: x bindR_eq_Ok)
  note st = group_entry_Ok(2) [OF st Cons.prems(3)]
  show ?case
  proof (cases "group_keys gb s r")
    case (Inl e)
    then have "groups1 = groups" "live_ok live1" "fst ` set live1 = insert (evaluation_message e) (fst ` set live)"
      using st by simp_all
    with Cons.IH [OF rest] Cons.prems(2) Inl show ?thesis by (auto simp: x)
  next
    case (Inr k)
    then have "groups1 = bt_insert k (bt_get_or [] groups k @ [(r, w)]) groups" "live1 = live" using st by simp_all
    with Cons.IH [OF rest] Cons.prems(2,3) Inr show ?thesis by (auto simp: x btree_simps)
  qed
qed simp

lemma group_values_Ok:
  assumes "group_values s M aggs vals live = Ok (found, [])" "live_ok live"
  shows "live = []" "\<exists>vs. found = Some (vals @ vs) \<and> mapR (\<lambda>a. agg_evaluate (nm_value a) M s) aggs = Ok vs"
proof -
  have "live = [] \<and> (\<exists>vs. found = Some (vals @ vs) \<and> mapR (\<lambda>a. agg_evaluate (nm_value a) M s) aggs = Ok vs)"
    using assms
  proof (induction aggs arbitrary: vals)
    case (Cons a aggs)
    show ?case
    proof (cases "agg_evaluate (nm_value a) M s")
      case (Inl e)
      then obtain p where "live_record p live = Ok []"
        using Cons.prems by (auto simp: bindR_eq_Ok split: oracle_error.splits if_splits)
      then show ?thesis using live_record_ok(2) [OF _ Cons.prems(2)] by fastforce
    next
      case (Inr v)
      then show ?thesis using Cons.IH [of "vals @ [v]"] Cons.prems by auto
    qed
  qed simp
  then show "live = []" "\<exists>vs. found = Some (vals @ vs) \<and> mapR (\<lambda>a. agg_evaluate (nm_value a) M s) aggs = Ok vs" by auto
qed

lemma group_values_grows:
  "group_values s M aggs vals live = Ok (found, live') \<Longrightarrow> live_ok live \<Longrightarrow> live_ok live' \<and> fst ` set live \<subseteq> fst ` set live'"
proof (induction aggs arbitrary: vals)
  case (Cons a aggs)
  show ?case
  proof (cases "agg_evaluate (nm_value a) M s")
    case (Inl e)
    then obtain p where "live_record p live = Ok live'"
      using Cons.prems(1) by (auto simp: bindR_eq_Ok split: oracle_error.splits if_splits)
    from live_record_ok [OF this Cons.prems(2)] show ?thesis by auto
  next
    case (Inr v)
    then show ?thesis using Cons.IH [of "vals @ [v]"] Cons.prems by auto
  qed
qed simp

text \<open>A present group whose aggregates all evaluate contributes one row at weight one.\<close>

definition group_evaluates :: "group_by \<Rightarrow> schema \<Rightarrow> entries \<Rightarrow> sql_value list \<Rightarrow> bool" where
  "group_evaluates gb s M vs \<longleftrightarrow> in_i64 (mass M) \<and> mapR (\<lambda>a. agg_evaluate (nm_value a) M s) (gb_aggregates gb) = Ok vs"

lemma group_row_Ok:
  assumes "group_row gb s (out, live) (k, M) = Ok (out', live')" "live_ok live" "gb_keys gb = [] \<or> 0 < mass M"
  shows "live_ok live'" "fst ` set live \<subseteq> fst ` set live'"
    and "live' = [] \<Longrightarrow> \<exists>vs. group_evaluates gb s M vs \<and> out' = out @ [(k @ vs, 1)]"
proof -
  obtain n where n: "count_members (OrPlan (AggregateOverflow ''GROUP BY'')) (\<lambda>_. Ok True) M = Ok n"
    using assms(1) by (auto simp: group_row_def bindR_eq_Ok)
  note cnt = count_all_Ok [OF n]
  obtain found where gv: "group_values s M (gb_aggregates gb) k live = Ok (found, live')"
    and out': "out' = (case found of None \<Rightarrow> out | Some values \<Rightarrow> out @ [(values, 1)])"
    using assms(1,3) n cnt by (auto simp: group_row_def bindR_eq_Ok split: option.splits)
  show "live_ok live'" "fst ` set live \<subseteq> fst ` set live'" using group_values_grows [OF gv assms(2)] by auto
  show "\<exists>vs. group_evaluates gb s M vs \<and> out' = out @ [(k @ vs, 1)]" if "live' = []"
    using group_values_Ok(2) [OF gv [unfolded that] assms(2)] cnt out' by (auto simp: group_evaluates_def)
qed

lemma group_rows_Ok:
  assumes "foldR (group_row gb s) (out, live) groups = Ok (out', [])" "live_ok live"
    and "\<forall>(k, M) \<in> set groups. gb_keys gb = [] \<or> 0 < mass M"
  shows "live = [] \<and> (\<exists>rows. out' = out @ rows
    \<and> list_all2 (\<lambda>x e. \<exists>vs. group_evaluates gb s (snd x) vs \<and> e = (fst x @ vs, 1)) groups rows)"
  using assms
proof (induction groups arbitrary: out live)
  case (Cons x groups)
  obtain k M where x: "x = (k, M)" by (cases x)
  obtain out1 live1 where st: "group_row gb s (out, live) (k, M) = Ok (out1, live1)"
    and rest: "foldR (group_row gb s) (out1, live1) groups = Ok (out', [])"
    using Cons.prems(1) by (auto simp: x bindR_eq_Ok)
  have pos: "gb_keys gb = [] \<or> 0 < mass M" using Cons.prems(3) by (auto simp: x)
  note st = group_row_Ok [OF st Cons.prems(2) pos]
  from Cons.IH [OF rest st(1)] Cons.prems(3) obtain rows where l1: "live1 = []" and rows: "out' = out1 @ rows"
    "list_all2 (\<lambda>x e. \<exists>vs. group_evaluates gb s (snd x) vs \<and> e = (fst x @ vs, 1)) groups rows"
    by auto
  obtain vs where "group_evaluates gb s M vs" "out1 = out @ [(k @ vs, 1)]" using st(3) [OF l1] by blast
  then show ?case using st(2) l1 rows by (auto simp: x intro!: exI [of _ "(k @ vs, 1) # rows"])
qed simp

text \<open>Rows that start with the distinct keys of their groups do not merge.\<close>

lemma zw_group_rows:
  assumes "list_all2 (\<lambda>x e. \<exists>vs. P (snd x) vs \<and> e = (fst x @ vs, 1)) groups rows" "distinct (map fst groups)"
    and "\<forall>x \<in> set groups. length (fst x) = n" and det: "\<And>M vs vs'. P M vs \<Longrightarrow> P M vs' \<Longrightarrow> vs = vs'"
  shows "zw rows r = (if \<exists>x \<in> set groups. \<exists>vs. P (snd x) vs \<and> r = fst x @ vs then 1 else 0)"
  using assms(1-3)
proof (induction rule: list_all2_induct)
  case (Cons x groups e rows)
  obtain vs where vs: "P (snd x) vs" "e = (fst x @ vs, 1)" using Cons.hyps by blast
  have here: "(\<exists>ws. P (snd x) ws \<and> r = fst x @ ws) \<longleftrightarrow> r = fst x @ vs"
    using vs(1) det [OF _ vs(1)] by blast
  have "\<not> (\<exists>y \<in> set groups. \<exists>ws. P (snd y) ws \<and> r = fst y @ ws)" if r: "r = fst x @ vs"
  proof (intro notI, elim bexE exE conjE)
    fix y ws assume y: "y \<in> set groups" "r = fst y @ ws"
    then have "fst y = fst x" using r Cons.prems(2) by (auto simp: append_eq_append_conv)
    then show False using Cons.prems(1) y(1) by (auto simp: image_iff)
  qed
  moreover have "zw rows r = (if \<exists>x \<in> set groups. \<exists>vs. P (snd x) vs \<and> r = fst x @ vs then 1 else 0)"
    using Cons.IH Cons.prems by simp
  ultimately show ?case using here vs(2) by auto
qed simp

end
