(* ===== verification/Group_Stage.thy ===== *)
theory Group_Stage
  imports Group_Equiv
begin

text \<open>
  The whole \<open>GROUP BY\<close> stage: when the reference engine groups a relation without a live error, the
  rows it produces are exactly the rows the incremental aggregate has emitted, and the aggregate
  has no live error either.
\<close>

section \<open>The aggregate stage\<close>

text \<open>The operator built for a \<open>GROUP BY\<close> over a relation's schema.\<close>

definition implements_group :: "aggregate_op \<Rightarrow> group_by \<Rightarrow> schema \<Rightarrow> bool" where
  "implements_group op gb s \<longleftrightarrow> ag_keys op = gb_keys gb \<and> ag_aggregates op = gb_aggregates gb \<and> ag_input_schema op = s"

lemma eval_group_by_Ok:
  assumes ev: "eval_group_by gb \<lparr>rl_schema = s, rl_entries = es\<rparr> output [] = Ok (rel', [])" and "proper es"
  obtains groups where "bt_ok groups" "\<And>k. bt_get_or [] groups k = filter (\<lambda>(r, w). group_keys gb s r = Ok k) es"
    "fst ` set groups = (if gb_keys gb = [] then {[]} else {}) \<union> {k. \<exists>e \<in> set es. group_keys gb s (fst e) = Ok k}"
    "\<forall>x \<in> set es. is_ok (group_keys gb s (fst x))" "rl_schema rel' = output"
    "list_all2 (\<lambda>x e. \<exists>vs. group_evaluates gb s (snd x) vs \<and> e = (fst x @ vs, 1)) groups (rl_entries rel')"
    "\<And>x. x \<in> set groups \<Longrightarrow> snd x = filter (\<lambda>(r, w). group_keys gb s r = Ok (fst x)) es"
proof -
  let ?g0 = "if gb_keys gb = [] then [([], [])] else []"
  obtain groups live1 out where f1: "foldR (group_entry gb s) (?g0, []) es = Ok (groups, live1)"
    and f2: "foldR (group_row gb s) ([], live1) groups = Ok (out, [])"
    and rel': "rel' = \<lparr>rl_schema = output, rl_entries = out\<rparr>"
    using ev by (auto simp: eval_group_by_def bindR_eq_Ok)
  have g0: "bt_ok ?g0" "\<And>k. bt_get_or [] ?g0 k = []" by (auto simp: bt_get_or_def split: if_splits)
  note e1 = group_entries_Ok [OF f1 g0(1) live_ok_Nil]
  then have bt: "bt_ok groups" and get: "\<And>k. bt_get_or [] groups k = filter (\<lambda>(r, w). group_keys gb s r = Ok k) es"
    using g0(2) by auto
  have keys: "fst ` set groups = (if gb_keys gb = [] then {[]} else {}) \<union> {k. \<exists>e \<in> set es. group_keys gb s (fst e) = Ok k}"
    using e1 by auto
  have mem: "snd x = filter (\<lambda>(r, w). group_keys gb s r = Ok (fst x)) es" if "x \<in> set groups" for x
    using get [of "fst x"] bt_get_iff [OF bt, of "fst x" "snd x"] that by (simp add: bt_get_or_def bt_get_def)
  have "gb_keys gb = [] \<or> 0 < mass M" if x: "(k, M) \<in> set groups" for k M
  proof (rule disjCI)
    assume "\<not> 0 < mass M"
    have M: "M = filter (\<lambda>(r, w). group_keys gb s r = Ok k) es" using mem [OF x] by simp
    then have "positive M" using \<open>proper es\<close> by (auto simp: proper_def positive_def)
    then have "M = []" using \<open>\<not> 0 < mass M\<close> mass_nonneg [of "tl M"] by (cases M) auto
    then have "k \<notin> {k. \<exists>e \<in> set es. group_keys gb s (fst e) = Ok k}" using M by (auto simp: filter_empty_conv dest: sym)
    moreover have "k \<in> fst ` set groups" using x by force
    ultimately show "gb_keys gb = []" using keys by (auto split: if_splits)
  qed
  then obtain rows where l1: "live1 = []" and rows: "out = rows"
    "list_all2 (\<lambda>x e. \<exists>vs. group_evaluates gb s (snd x) vs \<and> e = (fst x @ vs, 1)) groups rows"
    using group_rows_Ok [OF f2] e1 by auto
  have "\<forall>x \<in> set es. is_ok (group_keys gb s (fst x))"
  proof
    fix x assume "x \<in> set es"
    moreover have "{evaluation_message e |e. \<exists>x \<in> set es. group_keys gb s (fst x) = Err e} = {}" using e1 l1 by auto
    ultimately show "is_ok (group_keys gb s (fst x))" by (cases "group_keys gb s (fst x)") auto
  qed
  then show ?thesis using that [OF bt get keys _ _ _ mem] rows rel' by simp
qed

lemma agg_evaluate_args:
  assumes "agg_evaluate func M s = Ok v" "agg_argument func = Some arg" "positive M" "e \<in> set M"
  shows "is_ok (eval arg (fst e) s)"
  using assms
  by (cases func)
    (auto simp: agg_evaluate_def sum_and_count_def extremum_def bindR_eq_Ok
      dest!: count_arg_Ok(2) sum_members_Ok extremum_members_Ok [OF _ assms(3)])

lemma group_length: "group_keys gb s r = Ok k \<Longrightarrow> length k = length (gb_keys gb)"
  by (rule mapR_length)

lemma group_evaluates_unique: "group_evaluates gb s M vs \<Longrightarrow> group_evaluates gb s M vs' \<Longrightarrow> vs = vs'"
  by (simp add: group_evaluates_def)

lemma group_evaluates_emission:
  assumes "agg_inv op [h]" "primed op" "implements_group op gb s" "zw h = zw es" "proper es" "aggs_in_range (gb_aggregates gb)"
    and "length k = length (gb_keys gb)" "group_evaluates gb s (group_members op k es) vs"
    and "gb_keys gb = [] \<or> group_members op k es \<noteq> []"
  shows "emv op (was_primed op) k = EmRow (k @ vs)"
proof -
  have pos: "positive (group_members op k es)" using assms(5) by (intro proper_positive proper_members)
  have "group_members op k es \<noteq> [] \<Longrightarrow> 0 < mass (group_members op k es)"
    using pos mass_nonneg [of "tl (group_members op k es)"] by (cases "group_members op k es") auto
  then have "is_grand_total op \<or> 0 < mass (group_members op k es)"
    using assms(3,9) by (auto simp: is_grand_total_def implements_group_def)
  moreover have "mass (group_members op k es) \<le> i64_max" using assms(8) by (simp add: group_evaluates_def i64_defs)
  ultimately have "emission_of op k (was_primed op) = Ok (EmRow (k @ vs))"
    using assms by (intro emission_reference [OF assms(1) _ assms(4,5,2)]) (auto simp: implements_group_def group_evaluates_def)
  then show ?thesis by (simp add: emv_def)
qed

lemma group_evaluates_each:
  "group_evaluates gb s M vs \<Longrightarrow> a \<in> set (gb_aggregates gb) \<Longrightarrow> \<exists>v. agg_evaluate (nm_value a) M s = Ok v"
  using mapR_ok_iff [of "\<lambda>a. agg_evaluate (nm_value a) M s" "gb_aggregates gb"]
  by (auto simp: group_evaluates_def is_ok_iff)

lemma no_slot_errors:
  assumes imp: "implements_group op gb s" and "proper es"
    and keys: "\<forall>x \<in> set es. is_ok (group_keys gb s (fst x))"
    and ev: "\<And>x k. x \<in> set es \<Longrightarrow> group_keys gb s (fst x) = Ok k \<Longrightarrow> \<exists>vs. group_evaluates gb s (group_members op k es) vs"
  shows "err_hist op es = []"
proof -
  have "(case agg_group op r of Inr g \<Rightarrow> slot_errs op r w (enumerate 0 (ag_aggregates op)) | Inl e \<Rightarrow> [(error_row e, w)]) = []"
    if x: "(r, w) \<in> set es" for r w
  proof -
    obtain k where k: "group_keys gb s r = Ok k" using keys x by (auto simp: is_ok_iff)
    then have ak: "agg_group op r = Ok k" using imp by (simp add: agg_group_def implements_group_def)
    obtain vs where vs: "group_evaluates gb s (group_members op k es) vs" using ev [OF x] k by auto
    have mem: "(r, w) \<in> set (group_members op k es)" using x ak by (simp add: group_members_def)
    have pos: "positive (group_members op k es)" using assms(2) by (intro proper_positive proper_members)
    have "\<exists>v. agg_arg op r a = Ok v" if a: "a \<in> set (gb_aggregates gb)" for a
    proof -
      obtain v where v: "agg_evaluate (nm_value a) (group_members op k es) s = Ok v"
        using group_evaluates_each [OF vs a] by blast
      show ?thesis
        using agg_evaluate_args [OF v _ pos mem] imp
        by (cases "agg_argument (nm_value a)") (auto simp: agg_arg_def implements_group_def is_ok_iff)
    qed
    then have arg: "\<exists>v. agg_arg op r a = Ok v" if "(i, a) \<in> set (enumerate 0 (ag_aggregates op))" for i a
      using set_zip_rightD [OF that [unfolded enumerate_eq_zip]] imp by (simp add: implements_group_def)
    have "(case x of (slot, agg) \<Rightarrow> case agg_arg op r agg of Inl e \<Rightarrow> [(error_row e, w)] | _ \<Rightarrow> []) = []"
      if "x \<in> set (enumerate 0 (ag_aggregates op))" for x
      using arg [of "fst x" "snd x"] that by (auto simp: split_beta)
    then have "slot_errs op r w (enumerate 0 (ag_aggregates op)) = []"
      unfolding slot_errs_def concat_eq_Nil_conv set_map by blast
    then show ?thesis using ak by simp
  qed
  then show ?thesis by (auto simp: err_hist_def)
qed

text \<open>The groups of the reference engine, each evaluated.\<close>

definition reference_groups :: "group_by \<Rightarrow> schema \<Rightarrow> entries \<Rightarrow> (sql_value list, entries) btree \<Rightarrow> bool" where
  "reference_groups gb s es groups \<longleftrightarrow> bt_ok groups
    \<and> (\<forall>x \<in> set groups. length (fst x) = length (gb_keys gb) \<and> (gb_keys gb = [] \<or> snd x \<noteq> [])
        \<and> snd x = filter (\<lambda>(r, w). group_keys gb s r = Ok (fst x)) es \<and> (\<exists>vs. group_evaluates gb s (snd x) vs))
    \<and> (\<forall>k. length k = length (gb_keys gb) \<longrightarrow> k \<notin> fst ` set groups \<longrightarrow>
        gb_keys gb \<noteq> [] \<and> filter (\<lambda>(r, w). group_keys gb s r = Ok k) es = [])"

lemma members_filter:
  "implements_group op gb s \<Longrightarrow> group_members op k es = filter (\<lambda>(r, w). group_keys gb s r = Ok k) es"
  by (simp add: group_members_def agg_group_def implements_group_def)

lemma eval_group_by_groups:
  assumes "eval_group_by gb \<lparr>rl_schema = s, rl_entries = es\<rparr> output [] = Ok (rel', [])" "proper es"
  obtains groups where "reference_groups gb s es groups" "\<forall>x \<in> set es. is_ok (group_keys gb s (fst x))" "rl_schema rel' = output"
    "list_all2 (\<lambda>x e. \<exists>vs. group_evaluates gb s (snd x) vs \<and> e = (fst x @ vs, 1)) groups (rl_entries rel')"
proof -
  obtain groups where bt: "bt_ok groups"
    and keys: "fst ` set groups = (if gb_keys gb = [] then {[]} else {}) \<union> {k. \<exists>e \<in> set es. group_keys gb s (fst e) = Ok k}"
    and ok: "\<forall>x \<in> set es. is_ok (group_keys gb s (fst x))" and sch: "rl_schema rel' = output"
    and rows: "list_all2 (\<lambda>x e. \<exists>vs. group_evaluates gb s (snd x) vs \<and> e = (fst x @ vs, 1)) groups (rl_entries rel')"
    and mem: "\<And>x. x \<in> set groups \<Longrightarrow> snd x = filter (\<lambda>(r, w). group_keys gb s r = Ok (fst x)) es"
    using eval_group_by_Ok [OF assms] by blast
  have "length (fst x) = length (gb_keys gb) \<and> (gb_keys gb = [] \<or> snd x \<noteq> [])" if x: "x \<in> set groups" for x
  proof -
    have "fst x \<in> fst ` set groups" using x by (rule imageI)
    then consider "gb_keys gb = []" "fst x = []" | e where "e \<in> set es" "group_keys gb s (fst e) = Ok (fst x)"
      unfolding keys by (auto split: if_splits)
    then show ?thesis using mem [OF x] by cases (auto simp: filter_empty_conv dest: group_length)
  qed
  moreover have "\<exists>vs. group_evaluates gb s (snd x) vs" if x: "x \<in> set groups" for x
  proof -
    obtain i where "i < length groups" "x = groups ! i" using x by (auto simp: in_set_conv_nth)
    then show ?thesis using list_all2_nthD [OF rows] by blast
  qed
  moreover have "gb_keys gb \<noteq> [] \<and> filter (\<lambda>(r, w). group_keys gb s r = Ok k) es = []"
    if "length k = length (gb_keys gb)" "k \<notin> fst ` set groups" for k
    using that unfolding keys by (auto simp: filter_empty_conv split: if_splits)
  ultimately have "reference_groups gb s es groups" using bt mem by (simp add: reference_groups_def)
  then show ?thesis using that ok sch rows by blast
qed

text \<open>Which row a group emits, if any.\<close>

lemma emission_of_group:
  assumes "agg_inv op [h]" "primed op" "implements_group op gb s" "zw h = zw es" "proper es" "aggs_in_range (gb_aggregates gb)"
    and groups: "reference_groups gb s es groups" and k: "length k = key_count op"
  shows "emv op (was_primed op) k = EmRow r \<longleftrightarrow> (\<exists>x \<in> set groups. \<exists>vs. fst x = k \<and> group_evaluates gb s (snd x) vs \<and> r = k @ vs)"
    "em_err (emv op (was_primed op) k) r' = 0"
proof -
  note imp = assms(3)
  have kc: "key_count op = length (gb_keys gb)" using imp by (simp add: implements_group_def)
  have "(emv op (was_primed op) k = EmRow r \<longleftrightarrow> (\<exists>x \<in> set groups. \<exists>vs. fst x = k \<and> group_evaluates gb s (snd x) vs \<and> r = k @ vs))
    \<and> em_err (emv op (was_primed op) k) r' = 0"
  proof (cases "k \<in> fst ` set groups")
    case True
    then obtain x where x: "x \<in> set groups" "fst x = k" by auto
    then have sx: "snd x = group_members op k es" "gb_keys gb = [] \<or> snd x \<noteq> []"
      using groups by (auto simp: reference_groups_def members_filter [OF imp])
    obtain vs where vs: "group_evaluates gb s (snd x) vs" using groups x(1) by (auto simp: reference_groups_def)
    have em: "emv op (was_primed op) k = EmRow (k @ vs)"
      using group_evaluates_emission [OF assms(1-6)] k kc vs sx by simp
    have "snd y = snd x" if "y \<in> set groups" "fst y = k" for y
      using that x groups by (simp add: reference_groups_def)
    then have "(\<exists>y \<in> set groups. \<exists>ws. fst y = k \<and> group_evaluates gb s (snd y) ws \<and> r = k @ ws) \<longleftrightarrow> r = k @ vs"
      using x vs group_evaluates_unique [OF vs] by metis
    then show ?thesis using em by (auto simp: em_err_def)
  next
    case False
    then have "group_members op k es = []" "\<not> is_grand_total op"
      using groups k kc imp by (auto simp: reference_groups_def members_filter [OF imp] is_grand_total_def implements_group_def)
    then have "emv op (was_primed op) k = Absent"
      using emission_absent [OF assms(1,4,5)] by (simp add: emv_def)
    then show ?thesis using False by (auto simp: em_err_def)
  qed
  then show "emv op (was_primed op) k = EmRow r \<longleftrightarrow> (\<exists>x \<in> set groups. \<exists>vs. fst x = k \<and> group_evaluates gb s (snd x) vs \<and> r = k @ vs)"
    "em_err (emv op (was_primed op) k) r' = 0" by simp_all
qed

lemma agg_rows_groups:
  assumes inv: "agg_inv op [h]" "primed op" and imp: "implements_group op gb s" and hist: "zw h = zw es" "proper es"
    and range: "aggs_in_range (gb_aggregates gb)" and groups: "reference_groups gb s es groups"
    and rows: "list_all2 (\<lambda>x e. \<exists>vs. group_evaluates gb s (snd x) vs \<and> e = (fst x @ vs, 1)) groups rows"
  shows "agg_rows op r = zw rows r"
proof -
  note em = emission_of_group [OF inv imp hist range groups]
  have bt: "bt_ok groups" and len: "\<forall>x \<in> set groups. length (fst x) = key_count op"
    using groups imp by (auto simp: reference_groups_def implements_group_def)
  have z: "zw rows r = (if \<exists>x \<in> set groups. \<exists>vs. group_evaluates gb s (snd x) vs \<and> r = fst x @ vs then 1 else 0)"
    by (rule zw_group_rows [OF rows bt_ok_distinct [OF bt] len group_evaluates_unique])
  have starts: "r = fst x @ vs \<longleftrightarrow> key_count op \<le> length r \<and> fst x = take (key_count op) r
      \<and> r = take (key_count op) r @ vs" if "x \<in> set groups" for x vs
  proof -
    have "length (fst x) = key_count op" using len that by blast
    then show ?thesis by (auto dest: arg_cong [of _ _ length])
  qed
  have "(\<exists>x \<in> set groups. \<exists>vs. group_evaluates gb s (snd x) vs \<and> r = fst x @ vs)
      \<longleftrightarrow> key_count op \<le> length r \<and> emv op (was_primed op) (take (key_count op) r) = EmRow r"
  proof (cases "key_count op \<le> length r")
    case True
    then have "emv op (was_primed op) (take (key_count op) r) = EmRow r \<longleftrightarrow> (\<exists>x \<in> set groups. \<exists>vs.
        fst x = take (key_count op) r \<and> group_evaluates gb s (snd x) vs \<and> r = take (key_count op) r @ vs)"
      by (intro em(1)) simp
    then show ?thesis using True starts by blast
  qed (use starts in blast)
  then show ?thesis by (simp add: z agg_rows_def em_row_def)
qed

lemma positive_group_rows:
  "list_all2 (\<lambda>x e. \<exists>vs. P x vs \<and> e = (fst x @ vs, 1)) groups rows \<Longrightarrow> positive rows"
  by (induction rule: list_all2_induct) auto

lemma aggregate_stage:
  assumes inv: "agg_inv op [h]" "primed op" and imp: "implements_group op gb s" and hist: "zw h = zw es" "proper es"
    and range: "aggs_in_range (gb_aggregates gb)"
    and ev: "eval_group_by gb \<lparr>rl_schema = s, rl_entries = es\<rparr> output [] = Ok (rel', [])"
  shows "agg_rows op = zw (rl_entries rel')" "agg_errors op [h] r = 0" "positive (rl_entries rel')" "rl_schema rel' = output"
proof -
  obtain groups where groups: "reference_groups gb s es groups" and ok: "\<forall>x \<in> set es. is_ok (group_keys gb s (fst x))"
    and sch: "rl_schema rel' = output"
    and rows: "list_all2 (\<lambda>x e. \<exists>vs. group_evaluates gb s (snd x) vs \<and> e = (fst x @ vs, 1)) groups (rl_entries rel')"
    using eval_group_by_groups [OF ev hist(2)] .
  note em = emission_of_group [OF inv imp hist range groups]
  have "agg_rows op r = zw (rl_entries rel') r" for r
    by (rule agg_rows_groups [OF inv imp hist range groups rows])
  then show "agg_rows op = zw (rl_entries rel')" by blast
  have "agg_failed op r = {}" using em(2) by (auto simp: agg_failed_def)
  moreover have "err_hist op es = []"
  proof (rule no_slot_errors [OF imp hist(2) ok])
    fix x k assume x: "x \<in> set es" "group_keys gb s (fst x) = Ok k"
    then have "filter (\<lambda>(r, w). group_keys gb s r = Ok k) es \<noteq> []" by (auto simp: filter_empty_conv split_beta)
    then have "k \<in> fst ` set groups" using groups group_length [OF x(2)] by (auto simp: reference_groups_def)
    then obtain y where y: "y \<in> set groups" "fst y = k" by auto
    have "\<exists>vs. group_evaluates gb s (snd y) vs" using groups y(1) unfolding reference_groups_def by blast
    moreover have "snd y = group_members op k es"
      using groups y by (simp add: reference_groups_def members_filter [OF imp])
    ultimately show "\<exists>vs. group_evaluates gb s (group_members op k es) vs" by simp
  qed
  ultimately show "agg_errors op [h] r = 0"
    using hist_cong(3) [OF hist(1), of op] by (simp add: agg_errors_def)
  show "positive (rl_entries rel')"
    using rows by (rule positive_group_rows)
  show "rl_schema rel' = output" by (rule sch)
qed

end
