(* ===== verification/Equivalence.thy ===== *)
theory Equivalence
  imports Circuit_Built Group_Stage
begin

text \<open>
  The differential promise of the engine (I-1): the answer a circuit maintains incrementally is the answer
  the reference engine recomputes from scratch, and while an evaluation error is live both report
  it. The proof follows the stages of a query; after each one the accumulated stream of the circuit's
  node and the relation of the reference engine are the same Z-set, and the error streams so far hold
  exactly the messages the reference engine has recorded.
\<close>

section \<open>The state of both engines after a stage\<close>

definition errsum :: "(nat \<Rightarrow> entries) \<Rightarrow> nat \<Rightarrow> nat \<Rightarrow> row \<Rightarrow> int" where
  "errsum E lo hi r = (\<Sum>i = lo..hi. zw (E i) r)"

lemma errsum_simps [simp]:
  "errsum E i i r = zw (E i) r" "lo \<le> Suc hi \<Longrightarrow> errsum E lo (Suc hi) r = errsum E lo hi r + zw (E (Suc hi)) r"
  by (simp_all add: errsum_def)

lemma errsum_split:
  assumes "lo \<le> mid" "mid \<le> hi"
  shows "errsum E lo hi r = errsum E lo mid r + errsum E (Suc mid) hi r"
proof -
  have "{lo..hi} = {lo..mid} \<union> {Suc mid..hi}" using assms by auto
  then show ?thesis by (simp add: errsum_def sum.union_disjoint)
qed

definition agrees :: "node option list \<Rightarrow> (nat \<Rightarrow> entries) \<Rightarrow> (nat \<Rightarrow> entries) \<Rightarrow> nat \<Rightarrow> nat \<Rightarrow> circuit_node \<Rightarrow> orel \<Rightarrow> string set \<Rightarrow> bool" where
  "agrees ns H E lo hi node rel msgs \<longleftrightarrow> implements ns lo hi node \<and> zw (H hi) = zw (rl_entries rel)
    \<and> rl_schema rel = cn_schema node \<and> positive (rl_entries rel) \<and> (\<forall>r. 0 \<le> errsum E lo hi r)
    \<and> (\<forall>r. errsum E lo hi r \<noteq> 0 \<longleftrightarrow> (\<exists>m \<in> msgs. r = [VStr m]))"

text \<open>What the invariant of a circuit says about the node that computes a plan node.\<close>

lemma computes_meaning:
  assumes "circuit_inv c H E" "all_primed c" "computes (ci_nodes c) i node ins"
  obtains op where "op_implements node op" "op_inv op (map H ins)" "zw (H i) = op_out op (map H ins)"
    "zw (E i) = op_errs op (map H ins)" "op_primed op"
proof -
  obtain op where op: "get_node (ci_nodes c) i = Some (OperatorNode op ins)" "op_implements node op"
    using assms(3) by (auto simp: computes_def)
  have "node_ok (ci_nodes c) H E i" using assms(1) by (simp add: circuit_inv_def circuit_ok_def)
  then have ok: "op_inv op (map H ins)" "\<And>r. zw (H i) r = op_out op (map H ins) r" "\<And>r. zw (E i) r = op_errs op (map H ins) r"
    unfolding node_ok_def op(1) by simp_all
  have "zw (H i) = op_out op (map H ins)" "zw (E i) = op_errs op (map H ins)" by (rule ext, rule ok)+
  moreover have "op_primed op" using assms(2) op(1) unfolding all_primed_def by blast
  ultimately show ?thesis using that [OF op(2) ok(1)] by blast
qed

section \<open>Sources\<close>

lemma join_keys_agree:
  assumes "mapR (\<lambda>(ln, rn). bindR (sql_index_of ls ln) (\<lambda>li. bindR (sql_index_of rs rn) (\<lambda>ri. Ok (li, ri)))) on = Ok keys"
    and "mapR (oracle_join_key ls rs) on = Ok keys'"
  shows "keys = keys'"
proof -
  have "mapR (oracle_join_key ls rs) on = Ok keys"
    unfolding mapR_eq_Ok
    by (rule list_all2_mono [OF assms(1) [unfolded mapR_eq_Ok]])
      (auto simp: oracle_join_key_def sql_index_of_def bindR_eq_Ok ok_or_eq_Ok)
  then show ?thesis using assms(2) by simp
qed

lemma agrees_source:
  assumes inv: "circuit_inv c H E" "all_primed c"
    and hist: "\<And>i t a s. get_node (ci_nodes c) i = Some (SourceNode t a s)
      \<Longrightarrow> zw (H i) = zw (concat (map (\<lambda>d. entries_for d t) (take n (or_log orc))))"
    and range: "in_range_deltas (or_log orc)"
  shows "source_node src (or_catalog orc) = Ok node \<Longrightarrow> eval_source orc n src = Ok rel
    \<Longrightarrow> implements (ci_nodes c) lo hi node \<Longrightarrow> agrees (ci_nodes c) H E lo hi node rel {} \<and> proper (rl_entries rel)"
proof (induction src arbitrary: node rel lo hi)
  case (Scan t al)
  obtain sch es where ev: "contents_at orc t n = Ok es" "rel = \<lparr>rl_schema = sch, rl_entries = es\<rparr>"
    and node: "node = CnSource t al sch"
    using Scan.prems(1,2) by (auto simp: result_simps)
  have src: "lo = hi" "get_node (ci_nodes c) hi = Some (SourceNode t al sch)" using Scan.prems(3) node by simp_all
  have "node_ok (ci_nodes c) H E hi" using inv(1) by (simp add: circuit_inv_def circuit_ok_def)
  then have "E hi = []" using src(2) by (simp add: node_ok_def)
  moreover note contents_at_Ok(1) [OF ev(1)] contents_at_Ok(2) [OF ev(1) range]
  ultimately show ?case
    using Scan.prems(3) src hist [OF src(2)] ev(2) node by (simp add: agrees_def proper_positive)
next
  case (JoinSource l r on)
  obtain ln rn keys s where ln: "source_node l (or_catalog orc) = Ok ln" and rn: "source_node r (or_catalog orc) = Ok rn"
    and keys: "mapR (\<lambda>(x, y). bindR (sql_index_of (cn_schema ln) x) (\<lambda>li. bindR (sql_index_of (cn_schema rn) y) (\<lambda>ri. Ok (li, ri)))) on = Ok keys"
    and s: "schema_new (sc_fields (cn_schema ln) @ sc_fields (cn_schema rn)) = Ok s" and node: "node = CnJoin ln rn keys s"
    using JoinSource.prems(1) by (auto simp: bindR_eq_Ok map_err_eq_Ok)
  obtain lr rr keys' s' es where lr: "eval_source orc n l = Ok lr" and rr: "eval_source orc n r = Ok rr"
    and keys': "mapR (oracle_join_key (rl_schema lr) (rl_schema rr)) on = Ok keys'"
    and s': "schema_new (sc_fields (rl_schema lr) @ sc_fields (rl_schema rr)) = Ok s'"
    and es: "foldR (\<lambda>out le. foldR (oracle_pair keys' le) out (rl_entries rr)) [] (rl_entries lr) = Ok es"
    and rel: "rel = \<lparr>rl_schema = s', rl_entries = es\<rparr>"
    using JoinSource.prems(2) by (auto simp: bindR_eq_Ok map_err_eq_Ok split: if_splits)
  obtain mid hi' where h: "hi = Suc hi'" "implements (ci_nodes c) lo mid ln" "implements (ci_nodes c) (Suc mid) hi' rn"
    "computes (ci_nodes c) hi node [mid, hi']"
    using JoinSource.prems(3) node by auto
  have L: "agrees (ci_nodes c) H E lo mid ln lr {}" "proper (rl_entries lr)" using JoinSource.IH(1) [OF ln lr h(2)] by auto
  have R: "agrees (ci_nodes c) H E (Suc mid) hi' rn rr {}" "proper (rl_entries rr)" using JoinSource.IH(2) [OF rn rr h(3)] by auto
  have sch: "rl_schema lr = cn_schema ln" "rl_schema rr = cn_schema rn" using L R by (simp_all add: agrees_def)
  have same: "keys' = keys" "s' = s" using join_keys_agree [OF keys] keys' s s' sch by simp_all
  obtain op where op: "op_implements node op" "zw (H hi) = op_out op (map H [mid, hi'])" "zw (E hi) = op_errs op (map H [mid, hi'])"
    using computes_meaning [OF inv h(4)] by blast
  then obtain jo where jo: "op = OpJoin jo" "jo_left_key jo = map fst keys" "jo_right_key jo = map snd keys"
    by (cases op) (auto simp: node)
  have "zw (H hi) = join_spec jo (H mid) (H hi')" using op(2) jo(1) by simp
  also have "\<dots> = join_spec jo (rl_entries lr) (rl_entries rr)" using L R by (intro join_spec_cong) (simp_all add: agrees_def)
  also have "\<dots> = zw es" using oracle_join_zw [OF es] jo same by auto
  finally have zw: "zw (H hi) = zw es" .
  have p: "proper es" by (rule oracle_join_proper [OF es L(2) R(2)])
  have "errsum E lo hi x = 0" for x
  proof -
    have "zw (E hi) x = 0" using op(3) jo(1) by simp
    moreover have "errsum E lo mid x = 0" "errsum E (Suc mid) hi' x = 0" using L(1) R(1) by (auto simp: agrees_def)
    ultimately show ?thesis
      using h(1) implements_le [OF h(2)] implements_le [OF h(3)] errsum_split [of lo mid hi' E x] by simp
  qed
  then show ?case
    using zw p JoinSource.prems(3) rel same node by (simp add: agrees_def proper_positive)
qed

section \<open>Linear stages\<close>

lemma positive_lin:
  assumes "positive es"
  shows "positive (lin_data f es)" "positive (lin_errs f es)"
  using assms by (induction es) (auto split: sum.split option.split)

lemma lin_errs_form: "r \<in> fst ` set (lin_errs f es) \<Longrightarrow> \<exists>m. r = [VStr m]"
  by (auto simp: lin_errs_def error_row_def split: sum.splits)

lemma lin_errs_rows: "r \<in> fst ` set (lin_errs f es) \<longleftrightarrow> (\<exists>m \<in> messages (lin_errs f es). r = [VStr m])"
proof
  assume r: "r \<in> fst ` set (lin_errs f es)"
  then obtain m where m: "r = [VStr m]" using lin_errs_form by blast
  then have "m \<in> messages (lin_errs f es)" using r by (simp only: messages_def mem_Collect_eq)
  then show "\<exists>m \<in> messages (lin_errs f es). r = [VStr m]" using m by blast
next
  assume "\<exists>m \<in> messages (lin_errs f es). r = [VStr m]"
  then show "r \<in> fst ` set (lin_errs f es)" by (auto simp only: messages_def mem_Collect_eq)
qed

lemma agrees_linear:
  assumes A: "agrees ns H E lo hi input rel msgs" and impl: "implements ns lo (Suc hi) node"
    and out: "zw (H (Suc hi)) = zw (lin_data f (H hi))" "zw (E (Suc hi)) = zw (lin_errs f (H hi))"
    and rel': "rl_entries rel' = lin_data f (rl_entries rel)" "rl_schema rel' = cn_schema node"
  shows "agrees ns H E lo (Suc hi) node rel' (msgs \<union> messages (lin_errs f (rl_entries rel)))"
proof -
  let ?es = "rl_entries rel"
  have hist: "zw (H hi) = zw ?es" and pos: "positive ?es" and le: "lo \<le> hi"
    and nn: "\<And>r. 0 \<le> errsum E lo hi r" and nz: "\<And>r. errsum E lo hi r \<noteq> 0 \<longleftrightarrow> (\<exists>m \<in> msgs. r = [VStr m])"
    using A implements_le by (auto simp: agrees_def)
  have err: "zw (E (Suc hi)) r = zw (lin_errs f ?es) r" for r using out(2) zw_lin_cong(2) [OF hist] by simp
  have pe: "0 \<le> zw (lin_errs f ?es) r" "zw (lin_errs f ?es) r \<noteq> 0 \<longleftrightarrow> (\<exists>m \<in> messages (lin_errs f ?es). r = [VStr m])" for r
    using zw_le_mass [OF positive_lin(2) [OF pos]] zw_positive_iff [OF positive_lin(2) [OF pos]] lin_errs_rows by auto
  have "errsum E lo (Suc hi) r \<noteq> 0 \<longleftrightarrow> errsum E lo hi r \<noteq> 0 \<or> zw (lin_errs f ?es) r \<noteq> 0" for r
    using le nn [of r] pe(1) [of r] by (auto simp: err)
  then have "errsum E lo (Suc hi) r \<noteq> 0 \<longleftrightarrow> (\<exists>m \<in> msgs \<union> messages (lin_errs f ?es). r = [VStr m])" for r
    using nz [of r] pe(2) [of r] by blast
  moreover have "0 \<le> errsum E lo (Suc hi) r" for r using le nn [of r] pe(1) [of r] by (simp add: err)
  ultimately show ?thesis
    using impl out(1) zw_lin_cong(1) [OF hist, of f] rel' positive_lin(1) [OF pos] by (simp add: agrees_def)
qed

lemma agrees_filter:
  assumes inv: "circuit_inv c H E" "all_primed c" and A: "agrees (ci_nodes c) H E lo hi input rel (fst ` set live)" "live_ok live"
    and impl: "implements (ci_nodes c) lo hi' (CnFilter input n p)" "hi' = Suc hi" and ev: "oracle_filter p rel live = Ok (rel', live')"
  shows "agrees (ci_nodes c) H E lo hi' (CnFilter input n p) rel' (fst ` set live')" "live_ok live'"
    "rl_entries rel' = lin_data (pred_fun p (cn_schema input)) (rl_entries rel)"
proof -
  have sch: "rl_schema rel = cn_schema input" using A(1) by (simp add: agrees_def)
  obtain kept where f: "foldR (lin_live (pred_fun p (cn_schema input))) ([], live) (rl_entries rel) = Ok (kept, live')"
    and rel': "rel' = rel\<lparr>rl_entries := kept\<rparr>"
    using ev by (auto simp: oracle_filter_def bindR_eq_Ok oracle_filter_lin sch)
  note l = lin_live_fold [OF f A(2)]
  have "computes (ci_nodes c) hi' (CnFilter input n p) [hi]" using impl by auto
  then obtain op where op: "op_implements (CnFilter input n p) op" "zw (H hi') = op_out op (map H [hi])" "zw (E hi') = op_errs op (map H [hi])"
    using computes_meaning [OF inv] by metis
  then have out: "zw (H (Suc hi)) = zw (lin_data (pred_fun p (cn_schema input)) (H hi))"
      "zw (E (Suc hi)) = zw (lin_errs (pred_fun p (cn_schema input)) (H hi))"
    by (cases op; simp add: pred_fun_def impl(2))+
  show "rl_entries rel' = lin_data (pred_fun p (cn_schema input)) (rl_entries rel)" using l rel' by simp
  then have "agrees (ci_nodes c) H E lo (Suc hi) (CnFilter input n p) rel' (fst ` set live \<union> messages (lin_errs (pred_fun p (cn_schema input)) (rl_entries rel)))"
    using agrees_linear [OF A(1) impl(1) [unfolded impl(2)] out] rel' sch by simp
  then show "agrees (ci_nodes c) H E lo hi' (CnFilter input n p) rel' (fst ` set live')" using l impl(2) by simp
  show "live_ok live'" using l by simp
qed

lemma agrees_project:
  assumes inv: "circuit_inv c H E" "all_primed c" and A: "agrees (ci_nodes c) H E lo hi input rel (fst ` set live)" "live_ok live"
    and impl: "implements (ci_nodes c) lo hi' (CnProject input n items s)" "hi' = Suc hi" and ev: "oracle_project items s rel live = Ok (rel', live')"
  shows "agrees (ci_nodes c) H E lo hi' (CnProject input n items s) rel' (fst ` set live')" "live_ok live'"
proof -
  have sch: "rl_schema rel = cn_schema input" using A(1) by (simp add: agrees_def)
  obtain kept where f: "foldR (lin_live (items_fun items (cn_schema input))) ([], live) (rl_entries rel) = Ok (kept, live')"
    and rel': "rel' = \<lparr>rl_schema = s, rl_entries = kept\<rparr>"
    using ev by (auto simp: oracle_project_def bindR_eq_Ok oracle_project_lin sch)
  note l = lin_live_fold [OF f A(2)]
  have "computes (ci_nodes c) hi' (CnProject input n items s) [hi]" using impl by auto
  then obtain op where op: "op_implements (CnProject input n items s) op" "zw (H hi') = op_out op (map H [hi])" "zw (E hi') = op_errs op (map H [hi])"
    using computes_meaning [OF inv] by metis
  have "project_fun \<lparr>pj_input_schema = cn_schema input, pj_output_schema = s, pj_items = items\<rparr> = items_fun items (cn_schema input)"
    by (simp add: fun_eq_iff project_fun_def items_fun_def)
  then have out: "zw (H (Suc hi)) = zw (lin_data (items_fun items (cn_schema input)) (H hi))"
      "zw (E (Suc hi)) = zw (lin_errs (items_fun items (cn_schema input)) (H hi))"
    using op by (cases op; simp add: impl(2))+
  have "agrees (ci_nodes c) H E lo (Suc hi) (CnProject input n items s) rel' (fst ` set live \<union> messages (lin_errs (items_fun items (cn_schema input)) (rl_entries rel)))"
    by (rule agrees_linear [OF A(1) impl(1) [unfolded impl(2)] out]) (use l rel' in simp_all)
  then show "agrees (ci_nodes c) H E lo hi' (CnProject input n items s) rel' (fst ` set live')" using l impl(2) by simp
  show "live_ok live'" using l by simp
qed

lemma agrees_consolidated:
  assumes "agrees ns H E lo hi node rel msgs" "oracle_consolidate (rl_entries rel) = Ok es" "positive es"
  shows "agrees ns H E lo hi node (rel\<lparr>rl_entries := es\<rparr>) msgs"
  using assms oracle_consolidate_Ok(2) [OF assms(2)] by (simp add: agrees_def)

section \<open>Grouping\<close>

lemma agrees_group:
  assumes inv: "circuit_inv c H E" "all_primed c" and A: "agrees (ci_nodes c) H E lo hi input rel {}" "proper (rl_entries rel)"
    and impl: "implements (ci_nodes c) lo hi' (CnAggregate input (gb_keys g) (gb_aggregates g) s)" "hi' = Suc hi"
    and range: "aggs_in_range (gb_aggregates g)" and ev: "eval_group_by g rel s [] = Ok (rel', [])"
  shows "agrees (ci_nodes c) H E lo hi' (CnAggregate input (gb_keys g) (gb_aggregates g) s) rel' {}"
proof -
  let ?node = "CnAggregate input (gb_keys g) (gb_aggregates g) s"
  have sch: "rl_schema rel = cn_schema input" and hist: "zw (H hi) = zw (rl_entries rel)" and le: "lo \<le> hi"
    and quiet: "\<And>r. errsum E lo hi r = 0"
    using A(1) implements_le by (auto simp: agrees_def)
  have "computes (ci_nodes c) hi' ?node [hi]" using impl by auto
  then obtain op where op: "op_implements ?node op" "op_inv op (map H [hi])" "zw (H hi') = op_out op (map H [hi])"
      "zw (E hi') = op_errs op (map H [hi])" "op_primed op"
    using computes_meaning [OF inv] by metis
  then obtain ao where ao: "op = OpAggregate ao" by (cases op) auto
  have "implements_group ao g (rl_schema rel)" using op(1) ao sch by (simp add: implements_group_def)
  moreover have "eval_group_by g \<lparr>rl_schema = rl_schema rel, rl_entries = rl_entries rel\<rparr> s [] = Ok (rel', [])" using ev by (cases rel) simp
  moreover have "agg_inv ao [H hi]" "primed ao" using op(2,5) ao by simp_all
  ultimately have st: "agg_rows ao = zw (rl_entries rel')" "\<And>r. agg_errors ao [H hi] r = 0" "positive (rl_entries rel')" "rl_schema rel' = s"
    using aggregate_stage [OF _ _ _ hist A(2) range] by blast+
  have "zw (H hi') = zw (rl_entries rel')" using op(3) ao st(1) by simp
  moreover have "errsum E lo hi' r = 0" for r using op(4) ao st(2) quiet le impl(2) by simp
  ultimately show ?thesis using impl(1) st(3,4) by (simp add: agrees_def)
qed

lemma eval_group_by_live:
  assumes "eval_group_by g rel s live = Ok (rel', live')" "live_ok live"
  shows "live_ok live' \<and> fst ` set live \<subseteq> fst ` set live'"
proof -
  let ?g0 = "if gb_keys g = [] then [([], [])] else []"
  let ?P = "\<lambda>(acc :: entries \<times> live_set). live_ok (snd acc) \<and> fst ` set live \<subseteq> fst ` set (snd acc)"
  obtain groups live1 out where f1: "foldR (group_entry g (rl_schema rel)) (?g0, live) (rl_entries rel) = Ok (groups, live1)"
    and f2: "foldR (group_row g (rl_schema rel)) ([], live1) groups = Ok (out, live')"
    using assms(1) by (auto simp: eval_group_by_def bindR_eq_Ok)
  have start: "live_ok live1 \<and> fst ` set live \<subseteq> fst ` set live1" using group_entries_Ok [OF f1 _ assms(2)] by auto
  have step: "?P v" if P: "?P u" and row: "group_row g (rl_schema rel) u x = Ok v" for u x v
  proof -
    obtain out0 l0 where u: "u = (out0, l0)" by (cases u)
    then consider "snd v = l0" | found where "group_values (rl_schema rel) (snd x) (gb_aggregates g) (fst x) l0 = Ok (found, snd v)"
      using row by (cases x) (auto simp: group_row_def bindR_eq_Ok split: if_splits option.splits)
    then show ?thesis
    proof cases
      case 1
      then show ?thesis using P u by simp
    next
      case 2
      have l0: "live_ok l0" "fst ` set live \<subseteq> fst ` set l0" using P u by simp_all
      note gr = group_values_grows [OF 2 l0(1)]
      show ?thesis by (rule conjI [OF conjunct1 [OF gr] subset_trans [OF l0(2) conjunct2 [OF gr]]])
    qed
  qed
  have "?P (out, live')"
  proof (rule foldR_inv [OF f2, of ?P])
    show "?P ([], live1)" using start by simp
  qed (rule step)
  then show ?thesis by simp
qed

section \<open>The stages of a query\<close>

lemma agrees_where:
  assumes inv: "circuit_inv c H E" "all_primed c" and impl: "implements (ci_nodes c) lo hi (plan_filter (q_filter q) src)"
    and IH: "\<And>h. implements (ci_nodes c) lo h src \<Longrightarrow> agrees (ci_nodes c) H E lo h src rel {} \<and> proper (rl_entries rel)"
    and ev: "oracle_where q rel [] = Ok (rel', live)"
  shows "agrees (ci_nodes c) H E lo hi (plan_filter (q_filter q) src) rel' (fst ` set live)" "live_ok live" "proper (rl_entries rel')"
proof -
  have "agrees (ci_nodes c) H E lo hi (plan_filter (q_filter q) src) rel' (fst ` set live) \<and> live_ok live \<and> proper (rl_entries rel')"
  proof (cases "q_filter q")
    case None
    then show ?thesis using impl ev IH [of hi] by (simp add: plan_filter_def oracle_where_def)
  next
    case (Some p)
    then obtain h where h: "hi = Suc h" "implements (ci_nodes c) lo h src"
      and impl': "implements (ci_nodes c) lo hi (CnFilter src Qualified p)"
      using impl by (auto simp: plan_filter_def)
    have A: "agrees (ci_nodes c) H E lo h src rel (fst ` set [])" "proper (rl_entries rel)" using IH [OF h(2)] by simp_all
    note f = agrees_filter [OF inv A(1) live_ok_Nil impl' h(1), of rel' live]
    have ev': "oracle_filter p rel [] = Ok (rel', live)" using ev Some by (simp add: oracle_where_def)
    have "proper (rl_entries rel')"
      unfolding f(3) [OF ev'] by (rule proper_lin_data [OF A(2)]) (auto dest: pred_fun_same)
    then show ?thesis using f(1,2) [OF ev'] Some by (simp add: plan_filter_def)
  qed
  then show "agrees (ci_nodes c) H E lo hi (plan_filter (q_filter q) src) rel' (fst ` set live)" "live_ok live" "proper (rl_entries rel')"
    by simp_all
qed

definition query_in_range :: "query \<Rightarrow> bool" where
  "query_in_range q \<longleftrightarrow> (case q_group_by q of None \<Rightarrow> True | Some g \<Rightarrow> aggs_in_range (gb_aggregates g))"

lemma agrees_grouping:
  assumes inv: "circuit_inv c H E" "all_primed c" and impl: "implements (ci_nodes c) lo hi (plan_group (q_group_by q) gs input)"
    and IH: "\<And>h. implements (ci_nodes c) lo h input \<Longrightarrow> agrees (ci_nodes c) H E lo h input rel (fst ` set live)"
    and live: "live_ok live" "proper (rl_entries rel)" and range: "query_in_range q"
    and ev: "oracle_group q gs rel live = Ok (rel', live')" and quiet: "q_group_by q = None \<or> live' = []"
  shows "agrees (ci_nodes c) H E lo hi (plan_group (q_group_by q) gs input) rel' (fst ` set live') \<and> live_ok live'"
proof (cases "q_group_by q")
  case None
  then show ?thesis using impl ev IH [of hi] live by (simp add: plan_group_def oracle_group_def)
next
  case (Some g)
  let ?agg = "CnAggregate input (gb_keys g) (gb_aggregates g) gs"
  obtain rel1 live1 where g1: "eval_group_by g rel gs live = Ok (rel1, live1)"
    and h1: "(case gb_having g of None \<Rightarrow> Ok (rel1, live1) | Some h \<Rightarrow> oracle_filter h rel1 live1) = Ok (rel', live')"
    using ev Some by (auto simp: oracle_group_def bindR_eq_Ok)
  note mono = eval_group_by_live [OF g1 live(1)]
  have "live' = []" using quiet Some by simp
  have "live1 = []"
  proof (cases "gb_having g")
    case None
    then show ?thesis using h1 \<open>live' = []\<close> by simp
  next
    case (Some h)
    then obtain k where "foldR (lin_live (pred_fun h (rl_schema rel1))) ([], live1) (rl_entries rel1) = Ok (k, [])"
      using h1 \<open>live' = []\<close> by (auto simp: oracle_filter_def bindR_eq_Ok oracle_filter_lin)
    from lin_live_fold [OF this] mono show ?thesis by auto
  qed
  then have "live = []" using mono by auto
  have agg: "agrees (ci_nodes c) H E lo h ?agg rel1 {}" if i: "implements (ci_nodes c) lo h ?agg" for h
  proof -
    obtain h' where h': "h = Suc h'" "implements (ci_nodes c) lo h' input" using i by auto
    show ?thesis
      using agrees_group [OF inv _ live(2) i h'(1), of rel1] IH [OF h'(2)] g1 \<open>live = []\<close> \<open>live1 = []\<close> range Some
      by (simp add: query_in_range_def)
  qed
  show ?thesis
  proof (cases "gb_having g")
    case None
    then show ?thesis using impl h1 agg [of hi] Some \<open>live1 = []\<close> by (simp add: plan_group_def)
  next
    case (Some h)
    then have impl': "implements (ci_nodes c) lo hi (CnFilter ?agg Unqualified h)"
      using impl \<open>q_group_by q = Some g\<close> by (simp add: plan_group_def)
    then obtain h' where h': "hi = Suc h'" "implements (ci_nodes c) lo h' ?agg" by auto
    have "oracle_filter h rel1 [] = Ok (rel', live')" using h1 Some \<open>live1 = []\<close> by simp
    from agrees_filter(1,2) [OF inv _ live_ok_Nil impl' h'(1) this] agg [OF h'(2)] show ?thesis
      using Some \<open>q_group_by q = Some g\<close> by (simp add: plan_group_def)
  qed
qed

lemma agrees_select:
  assumes inv: "circuit_inv c H E" "all_primed c"
    and impl: "implements (ci_nodes c) lo hi (plan_project (q_project q) grouped out input)"
    and IH: "\<And>h. implements (ci_nodes c) lo h input \<Longrightarrow> agrees (ci_nodes c) H E lo h input rel (fst ` set live)"
    and live: "live_ok live" and ev: "oracle_select q out rel live = Ok (rel', live')"
  shows "agrees (ci_nodes c) H E lo hi (plan_project (q_project q) grouped out input) rel' (fst ` set live') \<and> live_ok live'"
proof (cases "q_project q")
  case None
  then show ?thesis using impl ev IH [of hi] live by (simp add: plan_project_def oracle_select_def)
next
  case (Some items)
  let ?n = "if grouped then Unqualified else Qualified"
  have impl': "implements (ci_nodes c) lo hi (CnProject input ?n items out)" using impl Some by (simp add: plan_project_def)
  then obtain h where h: "hi = Suc h" "implements (ci_nodes c) lo h input" by auto
  have "oracle_project items out rel live = Ok (rel', live')" using ev Some by (simp add: oracle_select_def)
  from agrees_project [OF inv IH [OF h(2)] live impl' h(1) this] show ?thesis using Some by (simp add: plan_project_def)
qed

lemma oracle_filter_live:
  assumes "oracle_filter p rel live = Ok (rel', live')" "live_ok live"
  shows "live_ok live' \<and> fst ` set live \<subseteq> fst ` set live'"
proof -
  obtain k where "foldR (lin_live (pred_fun p (rl_schema rel))) ([], live) (rl_entries rel) = Ok (k, live')"
    using assms(1) by (auto simp: oracle_filter_def bindR_eq_Ok oracle_filter_lin)
  from lin_live_fold [OF this assms(2)] show ?thesis by auto
qed

lemma oracle_group_live:
  assumes "oracle_group q gs rel live = Ok (rel', live')" "live_ok live"
  shows "live_ok live'"
proof (cases "q_group_by q")
  case None
  then show ?thesis using assms by (simp add: oracle_group_def)
next
  case (Some g)
  then obtain r1 l1 where g1: "eval_group_by g rel gs live = Ok (r1, l1)"
    and h: "(case gb_having g of None \<Rightarrow> Ok (r1, l1) | Some h \<Rightarrow> oracle_filter h r1 l1) = Ok (rel', live')"
    using assms(1) by (auto simp: oracle_group_def bindR_eq_Ok)
  have "live_ok l1" using eval_group_by_live [OF g1 assms(2)] by simp
  then show ?thesis using h oracle_filter_live [of _ r1 l1 rel' live'] by (cases "gb_having g") auto
qed

lemma oracle_select_live:
  assumes "oracle_select q out rel live = Ok (rel', live')" "live_ok live"
  shows "fst ` set live \<subseteq> fst ` set live'"
proof (cases "q_project q")
  case None
  then show ?thesis using assms by (simp add: oracle_select_def)
next
  case (Some items)
  then obtain k where "foldR (lin_live (items_fun items (rl_schema rel))) ([], live) (rl_entries rel) = Ok (k, live')"
    using assms(1) by (auto simp: oracle_select_def oracle_project_def bindR_eq_Ok oracle_project_lin)
  from lin_live_fold [OF this assms(2)] show ?thesis by auto
qed

lemma implements_schema:
  "implements ns lo hi node \<Longrightarrow> get_node ns hi = Some n \<Longrightarrow> node_schema n = cn_schema node"
  by (cases node) (auto simp: computes_def dest: op_implements_schemas)

section \<open>The maintained circuit of a query\<close>

lemma distinct_below:
  assumes inv: "circuit_inv c H E" "all_primed c" and impl: "implements (ci_nodes c) lo hi (plan_distinct d n)"
  obtains h where "implements (ci_nodes c) lo h n" "\<And>r. errsum E lo hi r = errsum E lo h r"
    "zw (H hi) = (\<lambda>r. if d then sign (zw (H h) r) else zw (H h) r)"
proof (cases d)
  case False
  then show ?thesis using that [of hi] impl by (simp add: plan_distinct_def)
next
  case True
  then obtain h where h: "hi = Suc h" "implements (ci_nodes c) lo h n" "computes (ci_nodes c) hi (CnDistinct n) [h]"
    using impl by (auto simp: plan_distinct_def)
  obtain op where op: "op_implements (CnDistinct n) op" "zw (H hi) = op_out op (map H [h])" "zw (E hi) = op_errs op (map H [h])"
    using computes_meaning [OF inv h(3)] by blast
  then obtain dop where "op = OpDistinct dop" by (cases op) auto
  then have "zw (H hi) = (\<lambda>r. sign (zw (H h) r))" "zw (E hi) r = 0" for r using op(2,3) by simp_all
  then show ?thesis using that [OF h(2)] True h(1) implements_le [OF h(2)] by simp
qed

lemma maintained:
  assumes plan: "incrementalize_typed q cat = Ok plan" and inst: "instantiate plan = Ok c" and seal: "seal_epochs ds c = (Ok (), c')"
  obtains H E h b src s where "circuit_inv c' H E" "all_primed c'" "bind q cat = Ok b" "source_node (q_source q) cat = Ok src"
    "implements (ci_nodes c') 0 h (plan_project (q_project q) (q_group_by q \<noteq> None) (bd_output_schema b)
      (plan_group (q_group_by q) (bd_grouped_schema b) (plan_filter (q_filter q) src)))"
    "\<And>i t a sch. get_node (ci_nodes c') i = Some (SourceNode t a sch) \<Longrightarrow> H i = accumulated ds t"
    "sink_at c' 0 = Ok s" "store_holds (sk_result s) (bd_output_schema b) (\<lambda>r. if q_distinct q then sign (zw (H h) r) else zw (H h) r)"
    "store_holds (sk_errors s) err_schema (errsum E 0 h)"
proof -
  obtain b src where b: "bind q cat = Ok b" and po: "plan_of q b cat = Ok plan" and src: "source_node (q_source q) cat = Ok src"
    and root: "cp_root plan = plan_distinct (q_distinct q) (plan_project (q_project q) (q_group_by q \<noteq> None) (bd_output_schema b)
      (plan_group (q_group_by q) (bd_grouped_schema b) (plan_filter (q_filter q) src)))"
    using plan by (auto simp: incrementalize_typed_def plan_of_def bindR_eq_Ok map_err_eq_Ok Let_def split: if_splits)
  note wf = plan_of_wf [OF b po]
  obtain H0 E0 rt s0 where b0: "reach c H0 E0" "all_primed c" "implements (ci_nodes c) 0 rt (cp_root plan)" "ci_sinks c = [Some s0]" "sk_node s0 = rt"
      "rs_schema (sk_result s0) = cp_output_schema plan"
    and src0: "\<And>i t a sch. get_node (ci_nodes c) i = Some (SourceNode t a sch) \<Longrightarrow> H0 i = []"
    by (rule instantiate_built [OF inst wf(1)]) (rule that, assumption+)
  obtain H E where r: "reach c' H E" "same_wiring c c'" "all_primed c'"
    and hist: "\<And>i t a sch. get_node (ci_nodes c) i = Some (SourceNode t a sch) \<Longrightarrow> H i = H0 i @ accumulated ds t"
    using seal_reach [OF b0(1) seal] b0(2) by blast
  have "config_extends (ci_nodes c) (ci_nodes c')" using r(2) by (intro config_extends_shape) (simp add: same_wiring_def)
  note impl = implements_extends [OF b0(3) this]
  obtain s where s: "sink_at c' 0 = Ok s" "sk_node s = rt" using same_wiring_sink [OF r(2) b0(4)] b0(5) by auto
  note st = sink_stores [OF r(1) s(1)]
  have "live_errors c' E s = errsum E 0 rt" by (simp add: fun_eq_iff live_errors_def errsum_def s(2) implements_upstream [OF impl])
  moreover have "rs_schema (sk_result s) = bd_output_schema b"
    using st(3) implements_schema [OF impl] wf(2) s(2) by auto
  moreover have "H i = accumulated ds t" if "get_node (ci_nodes c') i = Some (SourceNode t a sch)" for i t a sch
    using same_wiring_source [OF r(2) that] hist src0 by simp
  moreover obtain h where h: "implements (ci_nodes c') 0 h (plan_project (q_project q) (q_group_by q \<noteq> None) (bd_output_schema b)
      (plan_group (q_group_by q) (bd_grouped_schema b) (plan_filter (q_filter q) src)))"
    and below: "\<And>r. errsum E 0 rt r = errsum E 0 h r" "zw (H rt) = (\<lambda>r. if q_distinct q then sign (zw (H h) r) else zw (H h) r)"
    by (rule distinct_below [OF reach_inv [OF r(1)] r(3) impl [unfolded root]]) (rule that, assumption+)
  moreover have "errsum E 0 rt = errsum E 0 h" using below(1) by (rule ext)
  ultimately show ?thesis
    using that [OF reach_inv [OF r(1)] r(3) b src h _ s(1)] st(1,2) s(2) by simp
qed

text \<open>Every stage up to the projection, in one step: the circuit agrees with what the reference engine has.\<close>

lemma stages_agree:
  assumes inv: "circuit_inv c H E" "all_primed c"
    and hist: "\<And>i t a s. get_node (ci_nodes c) i = Some (SourceNode t a s) \<Longrightarrow> H i = accumulated (or_log orc) t"
    and range: "in_range_deltas (or_log orc)" "query_in_range q" and n: "n = length (or_log orc)"
    and src: "source_node (q_source q) (or_catalog orc) = Ok src"
    and r0: "eval_source orc n (q_source q) = Ok r0" and r1: "oracle_where q r0 [] = Ok (r1, live1)"
    and es1: "oracle_consolidate (rl_entries r1) = Ok es1"
    and r2: "oracle_group q gs (r1\<lparr>rl_entries := es1\<rparr>) live1 = Ok (r2, live2)"
    and r3: "oracle_select q out r2 live2 = Ok (r3, live3)" and quiet: "q_group_by q = None \<or> live3 = []"
    and impl: "implements (ci_nodes c) 0 h (plan_project (q_project q) grouped out (plan_group (q_group_by q) gs (plan_filter (q_filter q) src)))"
  shows "agrees (ci_nodes c) H E 0 h (plan_project (q_project q) grouped out (plan_group (q_group_by q) gs (plan_filter (q_filter q) src)))
      r3 (fst ` set live3)" "live_ok live3"
proof -
  have hist': "zw (H i) = zw (concat (map (\<lambda>d. entries_for d t) (take n (or_log orc))))"
    if "get_node (ci_nodes c) i = Some (SourceNode t a s)" for i t a s
    using hist [OF that] n by (simp add: accumulated_def)
  note S = agrees_source [OF inv hist' range(1) src r0]
  let ?f = "plan_filter (q_filter q) src" and ?r1 = "r1\<lparr>rl_entries := es1\<rparr>"
  have W: "agrees (ci_nodes c) H E 0 h' ?f ?r1 (fst ` set live1) \<and> live_ok live1 \<and> proper es1"
    if "implements (ci_nodes c) 0 h' ?f" for h'
  proof -
    note w = agrees_where [OF inv that S r1]
    have "proper es1" by (rule oracle_consolidate_proper [OF es1 w(3)])
    then show ?thesis using agrees_consolidated [OF w(1) es1] w(2) by (simp add: proper_positive)
  qed
  obtain hf where hf: "implements (ci_nodes c) 0 hf ?f"
    using impl by (auto simp: plan_project_def plan_group_def Let_def split: option.splits)
  have l1: "live_ok live1" "proper (rl_entries ?r1)" using W [OF hf] by simp_all
  have "q_group_by q = None \<or> live2 = []"
  proof (cases "q_group_by q = None")
    case False
    then have "live3 = []" using quiet by metis
    then have "live2 = []" if "live_ok live2" using oracle_select_live [OF r3 that] by simp
    moreover have "live_ok live2" by (rule oracle_group_live [OF r2 l1(1)])
    ultimately show ?thesis by blast
  qed simp
  note q2 = this
  have G: "agrees (ci_nodes c) H E 0 h' (plan_group (q_group_by q) gs ?f) r2 (fst ` set live2) \<and> live_ok live2"
    if "implements (ci_nodes c) 0 h' (plan_group (q_group_by q) gs ?f)" for h'
    by (rule agrees_grouping [OF inv that _ l1 range(2) r2 q2]) (use W in blast)
  have "live_ok live2" by (rule oracle_group_live [OF r2 l1(1)])
  from agrees_select [OF inv impl _ this r3] G
  show "agrees (ci_nodes c) H E 0 h (plan_project (q_project q) grouped out (plan_group (q_group_by q) gs (plan_filter (q_filter q) src)))
      r3 (fst ` set live3)" "live_ok live3" by blast+
qed

section \<open>Distinct rows\<close>

lemma oracle_distinct_zw:
  assumes "canon es" "mapR oracle_distinct_entry es = Ok es'"
  shows "zw es' r = sign (zw es r)"
proof -
  have l: "list_all2 (\<lambda>e e'. 0 \<le> snd e \<and> e' = (fst e, 1)) es es'"
    using assms(2) by (auto simp: mapR_eq_Ok oracle_distinct_entry_def elim!: list_all2_mono split: if_splits)
  have "distinct (map fst es)" "\<forall>e \<in> set es. snd e \<noteq> 0" using assms(1) by (simp_all add: canon_def bt_ok_distinct)
  with l show ?thesis
  proof (induction es es' rule: list_all2_induct)
    case (Cons e es e' es')
    then show ?case by (cases "fst e = r") (auto simp: sign_def zw_notin split: prod.splits)
  qed (simp add: sign_def)
qed

lemma from_entries_canonical:
  assumes "from_entries s es = Ok b" "schema_ok s" "zb_canonical b = Ok ca"
  shows "ca_schema ca = s \<and> canon (ca_entries ca) \<and> zw (ca_entries ca) = zw es"
proof -
  obtain ms where ms: "merge_sorted es = Ok ms" "ca = \<lparr>ca_schema = s, ca_entries = ms\<rparr>"
    using assms(3) by (auto simp: zb_canonical_holds [OF holds_from_entries [OF assms(2,1)]] bindR_eq_Ok)
  then show ?thesis using merge_sorted_Ok [OF ms(1)] by simp
qed

lemma canonical_answer_at_Ok:
  assumes "canonical_answer_at orc q n = Ok ca" "bind q (or_catalog orc) = Ok b"
  obtains r0 r1 live1 es1 r2 live2 r3 es es' ba where "eval_source orc n (q_source q) = Ok r0" "oracle_where q r0 [] = Ok (r1, live1)"
    "oracle_consolidate (rl_entries r1) = Ok es1" "oracle_group q (bd_grouped_schema b) (r1\<lparr>rl_entries := es1\<rparr>) live1 = Ok (r2, live2)"
    "oracle_select q (bd_output_schema b) r2 live2 = Ok (r3, [])" "oracle_consolidate (rl_entries r3) = Ok es"
    "(if q_distinct q then mapR oracle_distinct_entry es else Ok es) = Ok es'" "from_entries (bd_output_schema b) es' = Ok ba" "zb_canonical ba = Ok ca"
proof -
  obtain ba where ba: "answer_at orc q n = Ok ba" "zb_canonical ba = Ok ca"
    using assms(1) by (auto simp: canonical_answer_at_def bindR_eq_Ok map_err_eq_Ok)
  then obtain r0 r1 live1 es1 r2 live2 r3 live3 where r: "eval_source orc n (q_source q) = Ok r0" "oracle_where q r0 [] = Ok (r1, live1)"
      "oracle_consolidate (rl_entries r1) = Ok es1" "oracle_group q (bd_grouped_schema b) (r1\<lparr>rl_entries := es1\<rparr>) live1 = Ok (r2, live2)"
      "oracle_select q (bd_output_schema b) r2 live2 = Ok (r3, live3)"
    and fin: "(case live_least live3 of Some e \<Rightarrow> Err (OrPlan e) | None \<Rightarrow>
          bindR (oracle_consolidate (rl_entries r3)) (\<lambda>es.
          bindR (if q_distinct q then mapR oracle_distinct_entry es else Ok es) (\<lambda>es'.
          map_err OrZSet (from_entries (bd_output_schema b) es')))) = Ok ba"
    using assms(2) by (auto simp: answer_at_def bindR_eq_Ok split: if_splits)
  have "live3 = []" using fin by (cases live3) (auto simp: live_least_def)
  with fin obtain es es' where "oracle_consolidate (rl_entries r3) = Ok es" "(if q_distinct q then mapR oracle_distinct_entry es else Ok es) = Ok es'"
    "from_entries (bd_output_schema b) es' = Ok ba"
    by (auto simp: live_least_def bindR_eq_Ok map_err_eq_Ok)
  with that [OF r(1,2,3,4) r(5) [unfolded \<open>live3 = []\<close>]] ba(2) show ?thesis by blast
qed

section \<open>Where evaluation errors of the reference engine come from\<close>

definition structural :: "(oracle_error, 'a) result \<Rightarrow> bool" where
  "structural x \<longleftrightarrow> (\<forall>e. x = Err (OrPlan e) \<longrightarrow> \<not> is_evaluation_error e)"

named_theorems structural_intros

lemma structural_results [simp]:
  "structural (Ok x)" "structural (Err (OrPlan e)) = (\<not> is_evaluation_error e)" "structural (Err (OrZSet z))"
  "structural (Err (NegativeIntermediate a i))" "structural (Err OrJoinWeightOverflow)" "structural (Err (NegativeIntegral t r w n))"
  "structural (Err (EpochOutOfRange m n))" "structural (map_err OrZSet y)"
  by (cases y; simp add: structural_def)+

lemma structural_ok_or [structural_intros]: "structural (Err e :: (oracle_error, 'a) result) \<Longrightarrow> structural (ok_or (x :: 'a option) e)"
  by (cases x) (simp_all add: structural_def)

lemma structural_bindR [structural_intros]:
  "structural m \<Longrightarrow> (\<And>x. m = Ok x \<Longrightarrow> structural (f x)) \<Longrightarrow> structural (bindR m f)"
  by (cases m) (simp_all add: structural_def)

lemma structural_foldR [structural_intros]: "(\<And>a x. structural (f a x)) \<Longrightarrow> structural (foldR f a xs)"
  by (induction xs arbitrary: a) (auto intro!: structural_bindR)

lemma structural_mapR [structural_intros]: "(\<And>x. structural (f x)) \<Longrightarrow> structural (mapR f xs)"
  by (induction xs) (auto intro!: structural_bindR)

lemma structural_consolidate [structural_intros]: "structural (oracle_consolidate es)"
  by (auto simp: oracle_consolidate_def add_weight_def intro!: structural_intros split: prod.split)

lemma structural_keys_match [structural_intros]: "structural (oracle_keys_match l r on)"
  by (induction l r on rule: oracle_keys_match.induct) (auto intro!: structural_intros)

lemma structural_contents [structural_intros]: "structural (contents_at orc t n)"
  by (auto simp: contents_at_def add_weight_def push_present_def unknown_table_def intro!: structural_intros split: prod.split)

lemma structural_source: "structural (eval_source orc n src)"
  by (induction orc n src rule: eval_source.induct)
    (auto simp: oracle_join_key_def oracle_pair_def unknown_table_def intro!: structural_intros split: prod.split)

lemma structural_lin_live: "structural (foldR (lin_live f) a es)"
proof (rule structural_foldR)
  fix acc :: "entries \<times> live_set" and e
  show "structural (lin_live f acc e)"
    by (cases acc; cases e) (auto simp: live_record_def intro!: structural_intros split: sum.split option.split)
qed

lemma structural_where: "structural (oracle_where q rel live)"
  by (auto simp: oracle_where_def oracle_filter_def oracle_filter_lin intro!: structural_bindR structural_lin_live split: option.split)

lemma structural_select: "structural (oracle_select q s rel live)"
  by (auto simp: oracle_select_def oracle_project_def oracle_project_lin intro!: structural_bindR structural_lin_live split: option.split)

lemma structural_bind_Err: "bindR m f = Err (OrPlan e) \<Longrightarrow> structural m \<Longrightarrow> is_evaluation_error e \<Longrightarrow> \<exists>x. m = Ok x \<and> f x = Err (OrPlan e)"
  by (cases m) (auto simp: structural_def)

lemma structural_finish:
  "structural (bindR (oracle_consolidate es) (\<lambda>es. bindR (if d then mapR oracle_distinct_entry es else Ok es) (\<lambda>es'. map_err OrZSet (from_entries s es'))))"
  by (auto simp: oracle_distinct_entry_def intro!: structural_intros)

lemma canonical_answer_at_live:
  assumes ref: "canonical_answer_at orc q n = Err (OrPlan e)" and ev: "is_evaluation_error e" and ungrouped: "q_group_by q = None"
    and b: "bind q (or_catalog orc) = Ok b"
  obtains r0 r1 live1 es1 r3 live3 where "eval_source orc n (q_source q) = Ok r0" "oracle_where q r0 [] = Ok (r1, live1)"
    "oracle_consolidate (rl_entries r1) = Ok es1" "oracle_group q (bd_grouped_schema b) (r1\<lparr>rl_entries := es1\<rparr>) live1 = Ok (r1\<lparr>rl_entries := es1\<rparr>, live1)"
    "oracle_select q (bd_output_schema b) (r1\<lparr>rl_entries := es1\<rparr>) live1 = Ok (r3, live3)" "live_least live3 = Some e"
proof -
  let ?fin = "\<lambda>(r3, live3). case live_least live3 of Some e \<Rightarrow> Err (OrPlan e) | None \<Rightarrow>
    bindR (oracle_consolidate (rl_entries r3)) (\<lambda>es.
    bindR (if q_distinct q then mapR oracle_distinct_entry es else Ok es) (\<lambda>es'.
    map_err OrZSet (from_entries (bd_output_schema b) es')))"
  let ?sel = "\<lambda>r1 live1 es1. bindR (oracle_select q (bd_output_schema b) (r1\<lparr>rl_entries := es1\<rparr>) live1) ?fin"
  let ?where = "\<lambda>(r1, live1). bindR (oracle_consolidate (rl_entries r1)) (?sel r1 live1)"
  have "answer_at orc q n = Err (OrPlan e)"
    using ref by (cases "answer_at orc q n") (auto simp: canonical_answer_at_def map_err_def split: sum.splits)
  then have a: "bindR (eval_source orc n (q_source q)) (\<lambda>r0. bindR (oracle_where q r0 []) ?where) = Err (OrPlan e)"
    using b ungrouped by (simp add: answer_at_def oracle_group_def split: if_splits)
  from structural_bind_Err [OF a structural_source ev] obtain r0 where r0: "eval_source orc n (q_source q) = Ok r0"
    and a: "bindR (oracle_where q r0 []) ?where = Err (OrPlan e)" by auto
  from structural_bind_Err [OF a structural_where ev] obtain r1 live1 where r1: "oracle_where q r0 [] = Ok (r1, live1)"
    and a: "bindR (oracle_consolidate (rl_entries r1)) (?sel r1 live1) = Err (OrPlan e)" by auto
  from structural_bind_Err [OF a structural_consolidate ev] obtain es1 where es1: "oracle_consolidate (rl_entries r1) = Ok es1"
    and a: "?sel r1 live1 es1 = Err (OrPlan e)" by auto
  from structural_bind_Err [OF a structural_select ev] obtain r3 live3
    where r3: "oracle_select q (bd_output_schema b) (r1\<lparr>rl_entries := es1\<rparr>) live1 = Ok (r3, live3)"
    and fin: "?fin (r3, live3) = Err (OrPlan e)" by auto
  have "live_least live3 = Some e"
    using fin structural_finish [of "rl_entries r3" "q_distinct q" "bd_output_schema b"] ev
    by (cases "live_least live3") (auto simp: structural_def)
  then show ?thesis using that [OF r0 r1 es1 _ r3] ungrouped by (simp add: oracle_group_def)
qed

section \<open>Concrete queries\<close>

definition ex_catalog :: catalog where
  "ex_catalog = [(''t'', \<lparr>sc_fields = [field_not_null ''k'' Int64, field_nullable ''v'' Int64]\<rparr>)]"

text \<open>\<open>SELECT DISTINCT n * 2 AS twice FROM (SELECT k, SUM(v) AS n FROM t WHERE v > 0 GROUP BY k HAVING n > 2)\<close>.\<close>

definition ex_query :: query where
  "ex_query = \<lparr>q_source = Scan ''t'' ''t'', q_filter = Some (Binary Gt (Column ''t.v'') (Literal (VInt 0))),
    q_group_by = Some \<lparr>gb_keys = [\<lparr>nm_name = ''k'', nm_value = Column ''t.k''\<rparr>],
      gb_aggregates = [\<lparr>nm_name = ''n'', nm_value = Sum (Column ''t.v'')\<rparr>], gb_having = Some (Binary Gt (Column ''n'') (Literal (VInt 2)))\<rparr>,
    q_project = Some [\<lparr>nm_name = ''twice'', nm_value = Binary Mul (Column ''n'') (Literal (VInt 2))\<rparr>], q_distinct = True\<rparr>"

definition ex_log :: "epoch_deltas list" where
  "ex_log = [[(''t'', [([VInt 1, VInt 3], 1), ([VInt 2, VInt 1], 1), ([VInt 3, VInt 5], 1)])],
    [(''t'', [([VInt 2, VInt 2], 1), ([VInt 3, VInt 5], - 1), ([VInt 3, VNull], 1)])]]"

definition ex_failing_query :: query where
  "ex_failing_query = \<lparr>q_source = Scan ''t'' ''t'', q_filter = None, q_group_by = None,
    q_project = Some [\<lparr>nm_name = ''x'', nm_value = Binary Div (Literal (VInt 6)) (Column ''t.v'')\<rparr>], q_distinct = False\<rparr>"

definition ex_failing_log :: "epoch_deltas list" where
  "ex_failing_log = [[(''t'', [([VInt 1, VInt 3], 1), ([VInt 2, VInt 0], 1)])]]"


text \<open>The circuit of a query over a log that it compiles, instantiates and seals.\<close>

definition runs :: "query \<Rightarrow> catalog \<Rightarrow> epoch_deltas list \<Rightarrow> bool" where
  "runs q cat ds = (case incrementalize_typed q cat of Inl _ \<Rightarrow> False
     | Inr plan \<Rightarrow> (case instantiate plan of Inl _ \<Rightarrow> False | Inr c \<Rightarrow> is_ok (fst (seal_epochs ds c))))"

lemma runs_circuit:
  assumes "runs q cat ds"
  obtains plan c c' where "incrementalize_typed q cat = Ok plan" "instantiate plan = Ok c" "seal_epochs ds c = (Ok (), c')"
  using assms by (auto simp: runs_def is_ok_iff split: sum.splits) (metis prod.collapse)

section \<open>Claims\<close>

text \<open>
  C1. The engine and the reference engine agree (I-1). Take any query the compiler accepts, the
  circuit built for it, and any sequence of epochs the circuit seals. If the reference engine, which
  replays the log and evaluates the query from scratch at the last epoch, has an answer, then the circuit's
  maintained answer is the same canonical batch: same schema, same rows, same weights.
\<close>

theorem incremental_answer_is_reference_answer:
  assumes plan: "incrementalize_typed q cat = Ok plan" and inst: "instantiate plan = Ok c" and seal: "seal_epochs ds c = (Ok (), c')"
    and range: "in_range_deltas ds" "query_in_range q"
    and ref: "canonical_answer_at \<lparr>or_catalog = cat, or_log = ds\<rparr> q (length ds) = Ok ca"
  shows "answer c' = Ok ca"
proof -
  let ?o = "\<lparr>or_catalog = cat, or_log = ds\<rparr>"
  obtain H E h b src s where m: "circuit_inv c' H E" "all_primed c'" "bind q cat = Ok b" "source_node (q_source q) cat = Ok src"
    "implements (ci_nodes c') 0 h (plan_project (q_project q) (q_group_by q \<noteq> None) (bd_output_schema b)
      (plan_group (q_group_by q) (bd_grouped_schema b) (plan_filter (q_filter q) src)))"
    "\<And>i t a sch. get_node (ci_nodes c') i = Some (SourceNode t a sch) \<Longrightarrow> H i = accumulated ds t"
    "sink_at c' 0 = Ok s" "store_holds (sk_result s) (bd_output_schema b) (\<lambda>r. if q_distinct q then sign (zw (H h) r) else zw (H h) r)"
    "store_holds (sk_errors s) err_schema (errsum E 0 h)"
    by (rule maintained [OF plan inst seal]) (rule that, assumption+)
  obtain r0 r1 live1 es1 r2 live2 r3 es es' ba where r: "eval_source ?o (length ds) (q_source q) = Ok r0" "oracle_where q r0 [] = Ok (r1, live1)"
      "oracle_consolidate (rl_entries r1) = Ok es1" "oracle_group q (bd_grouped_schema b) (r1\<lparr>rl_entries := es1\<rparr>) live1 = Ok (r2, live2)"
      "oracle_select q (bd_output_schema b) r2 live2 = Ok (r3, [])"
    and es: "oracle_consolidate (rl_entries r3) = Ok es" "(if q_distinct q then mapR oracle_distinct_entry es else Ok es) = Ok es'"
      "from_entries (bd_output_schema b) es' = Ok ba" "zb_canonical ba = Ok ca"
    by (rule canonical_answer_at_Ok [OF ref, unfolded oracle_db.simps, OF m(3)]) (rule that, assumption+)
  have ag: "agrees (ci_nodes c') H E 0 h (plan_project (q_project q) (q_group_by q \<noteq> None) (bd_output_schema b)
      (plan_group (q_group_by q) (bd_grouped_schema b) (plan_filter (q_filter q) src))) r3 {}"
    using stages_agree(1) [of c' H E ?o q "length ds", OF m(1,2) _ _ range(2) _ _ r _ m(5)] m(4,6) range(1) by simp
  have "zw (H h) = zw es" using ag oracle_consolidate_Ok(2) [OF es(1)] by (simp add: agrees_def)
  then have "(\<lambda>r. if q_distinct q then sign (zw (H h) r) else zw (H h) r) = zw es'"
    using es(2) oracle_distinct_zw [OF oracle_consolidate_Ok(1) [OF es(1)]] by (auto simp: fun_eq_iff)
  moreover have "errsum E 0 h = (\<lambda>r. 0)" using ag by (auto simp: agrees_def)
  then obtain fs where "answer_of c' 0 = Ok \<lparr>ca_schema = bd_output_schema b, ca_entries = fs\<rparr>" "canon fs" "zw fs = (\<lambda>r. if q_distinct q then sign (zw (H h) r) else zw (H h) r)"
    using answer_of_quiet [OF _ m(7,8)] m(9) by auto
  moreover have "schema_ok (bd_output_schema b)" using m(8) by (simp add: store_holds_def)
  note from_entries_canonical [OF es(3) this es(4)]
  ultimately show ?thesis using canon_unique [of fs "ca_entries ca"] by (simp add: answer_def)
qed

theorem incremental_answer_is_reference_answer_witness:
  "\<exists>plan c c'. incrementalize_typed ex_query ex_catalog = Ok plan \<and> instantiate plan = Ok c \<and> seal_epochs ex_log c = (Ok (), c')
    \<and> answer c' = Ok \<lparr>ca_schema = \<lparr>sc_fields = [field_nullable ''twice'' Int64]\<rparr>, ca_entries = [([VInt 6], 1)]\<rparr>"
proof -
  have "runs ex_query ex_catalog ex_log" by code_simp
  then obtain plan c c' where p: "incrementalize_typed ex_query ex_catalog = Ok plan" "instantiate plan = Ok c" "seal_epochs ex_log c = (Ok (), c')"
    by (rule runs_circuit)
  have "in_range_deltas ex_log" by code_simp
  moreover have "query_in_range ex_query" by (simp add: query_in_range_def ex_query_def aggs_in_range_def)
  moreover have "canonical_answer_at \<lparr>or_catalog = ex_catalog, or_log = ex_log\<rparr> ex_query (length ex_log)
      = Ok \<lparr>ca_schema = \<lparr>sc_fields = [field_nullable ''twice'' Int64]\<rparr>, ca_entries = [([VInt 6], 1)]\<rparr>" by code_simp
  ultimately show ?thesis using incremental_answer_is_reference_answer [OF p] p by blast
qed

text \<open>
  C2. The error side of the same agreement. When the reference engine rejects a query without
  grouping because evaluating it raises an error, the circuit's answer is that error too, with the
  same message: of all errors live at that epoch both engines report the least.
\<close>

theorem incremental_error_is_reference_error:
  assumes plan: "incrementalize_typed q cat = Ok plan" and inst: "instantiate plan = Ok c" and seal: "seal_epochs ds c = (Ok (), c')"
    and range: "in_range_deltas ds" and ungrouped: "q_group_by q = None"
    and ref: "canonical_answer_at \<lparr>or_catalog = cat, or_log = ds\<rparr> q (length ds) = Err (OrPlan e)" and ev: "is_evaluation_error e"
  shows "answer c' = Err (LiveEvaluationError (evaluation_message e))"
proof -
  let ?o = "\<lparr>or_catalog = cat, or_log = ds\<rparr>"
  obtain H E h b src s where m: "circuit_inv c' H E" "all_primed c'" "bind q cat = Ok b" "source_node (q_source q) cat = Ok src"
    "implements (ci_nodes c') 0 h (plan_project (q_project q) (q_group_by q \<noteq> None) (bd_output_schema b)
      (plan_group (q_group_by q) (bd_grouped_schema b) (plan_filter (q_filter q) src)))"
    "\<And>i t a sch. get_node (ci_nodes c') i = Some (SourceNode t a sch) \<Longrightarrow> H i = accumulated ds t"
    "sink_at c' 0 = Ok s" "store_holds (sk_result s) (bd_output_schema b) (\<lambda>r. if q_distinct q then sign (zw (H h) r) else zw (H h) r)"
    "store_holds (sk_errors s) err_schema (errsum E 0 h)"
    by (rule maintained [OF plan inst seal]) (rule that, assumption+)
  obtain r0 r1 live1 es1 r3 live3 where r: "eval_source ?o (length ds) (q_source q) = Ok r0" "oracle_where q r0 [] = Ok (r1, live1)"
      "oracle_consolidate (rl_entries r1) = Ok es1" "oracle_group q (bd_grouped_schema b) (r1\<lparr>rl_entries := es1\<rparr>) live1 = Ok (r1\<lparr>rl_entries := es1\<rparr>, live1)"
      "oracle_select q (bd_output_schema b) (r1\<lparr>rl_entries := es1\<rparr>) live1 = Ok (r3, live3)" and least: "live_least live3 = Some e"
    by (rule canonical_answer_at_live [OF ref ev ungrouped, unfolded oracle_db.simps, OF m(3)]) (rule that, assumption+)
  have "query_in_range q" using ungrouped by (simp add: query_in_range_def)
  note ag = stages_agree [of c' H E ?o q "length ds", OF m(1,2) _ _ this _ _ r _ m(5)]
  have ag: "\<And>r. errsum E 0 h r \<noteq> 0 \<longleftrightarrow> (\<exists>m \<in> fst ` set live3. r = [VStr m])" and ok: "live_ok live3"
    using ag m(4,6) range ungrouped by (simp_all add: agrees_def)
  obtain rest where live3: "live3 = (evaluation_message e, e) # rest"
    using least ok by (auto simp: live_least_def live_ok_def split: list.splits)
  then have le: "\<forall>m \<in> fst ` set live3. evaluation_message e \<le> m"
    using ok by (auto simp: live_ok_def bt_ok_def intro: less_imp_le)
  have "errsum E 0 h [VStr (evaluation_message e)] \<noteq> 0" using ag live3 by simp
  from answer_of_live [OF m(9,7) this] obtain msg where msg: "answer_of c' 0 = Err (LiveEvaluationError msg)"
      "errsum E 0 h [VStr msg] \<noteq> 0" "msg \<le> evaluation_message e"
    using \<open>errsum E 0 h [VStr (evaluation_message e)] \<noteq> 0\<close> by blast
  have "msg \<in> fst ` set live3" using msg(2) ag by simp
  then have "msg = evaluation_message e" using le msg(3) by (intro antisym) auto
  then show ?thesis using msg(1) by (simp add: answer_def)
qed

theorem incremental_error_is_reference_error_witness:
  "\<exists>plan c c'. incrementalize_typed ex_failing_query ex_catalog = Ok plan \<and> instantiate plan = Ok c \<and> seal_epochs ex_failing_log c = (Ok (), c')
    \<and> answer c' = Err (LiveEvaluationError (evaluation_message (DivisionByZero ''/'')))"
proof -
  have "runs ex_failing_query ex_catalog ex_failing_log" by code_simp
  then obtain plan c c' where p: "incrementalize_typed ex_failing_query ex_catalog = Ok plan" "instantiate plan = Ok c"
      "seal_epochs ex_failing_log c = (Ok (), c')"
    by (rule runs_circuit)
  have "in_range_deltas ex_failing_log" "q_group_by ex_failing_query = None" "is_evaluation_error (DivisionByZero ''/'')" by code_simp+
  moreover have "canonical_answer_at \<lparr>or_catalog = ex_catalog, or_log = ex_failing_log\<rparr> ex_failing_query (length ex_failing_log)
      = Err (OrPlan (DivisionByZero ''/''))" by code_simp
  ultimately show ?thesis using incremental_error_is_reference_error [OF p] p by blast
qed


end
