(* ===== verification/Bytes.thy ===== *)
theory Bytes
  imports Values
begin

text \<open>
  Bytes on disk: big-endian fixed-width integers (\<open>to_be_bytes\<close> and \<open>from_be_bytes\<close>), the bytes of a
  \<open>String\<close> and the UTF-8 check of \<open>String::from_utf8\<close>, slicing with \<open>get(at..at + n)\<close>, and the facts about
  their lengths, round trips and byte-lexicographic order that the codecs share.
\<close>

type_synonym u8 = "8 word"
type_synonym bytes = "u8 list"

section \<open>Fixed-width integers\<close>

fun be_of :: "nat \<Rightarrow> int \<Rightarrow> bytes" where
  "be_of 0 x = []"
| "be_of (Suc n) x = be_of n (x div 256) @ [word_of_int (x mod 256)]"

definition of_be :: "bytes \<Rightarrow> int" where
  "of_be bs = foldl (\<lambda>a b. a * 256 + uint b) 0 bs"

definition be_u64 :: "64 word \<Rightarrow> bytes" where
  "be_u64 w = be_of 8 (uint w)"

definition be_u32 :: "32 word \<Rightarrow> bytes" where
  "be_u32 w = be_of 4 (uint w)"

definition u64_be :: "bytes \<Rightarrow> 64 word" where
  "u64_be bs = word_of_int (of_be bs)"

definition u32_be :: "bytes \<Rightarrow> 32 word" where
  "u32_be bs = word_of_int (of_be bs)"

text \<open>An \<open>i64\<close> read as \<open>u64\<close> and back (\<open>as u64\<close>, \<open>as i64\<close>).\<close>

definition i64_bits :: "int \<Rightarrow> 64 word" where
  "i64_bits i = word_of_int i"

definition bits_i64 :: "64 word \<Rightarrow> int" where
  "bits_i64 w = sint w"

text \<open>Sizes that a 32-bit or a 64-bit length can hold.\<close>

definition fits_u32 :: "nat \<Rightarrow> bool" where
  "fits_u32 n \<longleftrightarrow> int n < 2 ^ 32"

definition fits_u64 :: "nat \<Rightarrow> bool" where
  "fits_u64 n \<longleftrightarrow> int n < 2 ^ 64"

lemma unat_of_fitting [simp]:
  "fits_u32 n \<Longrightarrow> unat (of_nat n :: 32 word) = n" "fits_u64 n \<Longrightarrow> unat (of_nat n :: 64 word) = n"
  by (simp_all add: fits_u32_def fits_u64_def unat_of_nat take_bit_nat_eq_self)

lemma fits_u32_u64: "fits_u32 n \<Longrightarrow> fits_u64 n"
  by (simp add: fits_u32_def fits_u64_def)

text \<open>The sign bit of a 64-bit integer, \<open>1 << 63\<close>.\<close>

definition sign_mask :: "64 word" where
  "sign_mask = push_bit 63 1"

lemma bit_sign_mask [simp]: "bit sign_mask n \<longleftrightarrow> n = 63"
  unfolding sign_mask_def bit_push_bit_iff by (auto simp: bit_1_iff)

lemma sign_mask_nonzero [simp]: "sign_mask \<noteq> 0"
  by (simp add: sign_mask_def)

lemma sign_bit: "w AND sign_mask = 0 \<longleftrightarrow> \<not> bit w 63"
  using and_exp_eq_0_iff_not_bit [of w 63] by (simp add: sign_mask_def push_bit_of_1)

lemma length_be_of [simp]: "length (be_of n x) = n"
  by (induction n arbitrary: x) simp_all

lemma length_be [simp]: "length (be_u64 w) = 8" "length (be_u32 v) = 4"
  by (simp_all add: be_u64_def be_u32_def)

lemma of_be_snoc [simp]: "of_be (bs @ [b]) = of_be bs * 256 + uint b"
  by (simp add: of_be_def)

lemma uint_byte: "uint (word_of_int (x mod 256) :: u8) = x mod 256"
  by (simp add: unsigned_of_int take_bit_eq_mod)

lemma of_be_be_of: "of_be (be_of n x) = x mod 256 ^ n"
proof (induction n arbitrary: x)
  case (Suc n)
  then show ?case by (simp add: uint_byte zmod_zmult2_eq [of "256 ^ n" x 256])
qed (simp add: of_be_def)

lemma u64_round_trip [simp]: "u64_be (be_u64 w) = w"
proof -
  have "0 \<le> uint w" "uint w < 256 ^ 8" using unsigned_less [of w, where 'a = int] by simp_all
  then show ?thesis by (simp add: u64_be_def be_u64_def of_be_be_of)
qed

lemma u32_round_trip [simp]: "u32_be (be_u32 w) = w"
proof -
  have "0 \<le> uint w" "uint w < 256 ^ 4" using unsigned_less [of w, where 'a = int] by simp_all
  then show ?thesis by (simp add: u32_be_def be_u32_def of_be_be_of)
qed

lemma i64_round_trip [simp]: "in_i64 i \<Longrightarrow> bits_i64 (i64_bits i) = i"
  by (simp add: bits_i64_def i64_bits_def in_i64_def i64_min_def i64_max_def signed_of_int signed_take_bit_int_eq_self)

text \<open>Flipping the sign bit maps the signed order onto the unsigned one.\<close>

lemma flip_sign: "int (unat (w XOR sign_mask)) = sint w + 2 ^ 63"
proof -
  let ?k = "uint w"
  have t: "take_bit 64 ?k = ?k" using unsigned_less [of w, where 'a = int] by (simp add: take_bit_int_eq_self)
  then have k: "?k = take_bit 63 ?k + of_bool (bit ?k 63) * 2 ^ 63" using take_bit_Suc_from_most [of 63 ?k] by simp
  have "uint (w XOR sign_mask) = flip_bit 63 ?k"
    by (simp add: sign_mask_def unsigned_xor_eq flip_bit_def unsigned_push_bit_eq)
  also have "\<dots> = take_bit 63 ?k + of_bool (\<not> bit ?k 63) * 2 ^ 63"
    using k by (cases "bit ?k 63") (simp_all add: flip_bit_eq_if set_bit_eq unset_bit_eq)
  finally have "uint (w XOR sign_mask) = take_bit 63 ?k + of_bool (\<not> bit ?k 63) * 2 ^ 63" .
  moreover have "sint w = take_bit 63 ?k - of_bool (bit ?k 63) * 2 ^ 63"
    using t k by (cases "bit ?k 63") (simp_all add: sint_uint signed_take_bit_eq_take_bit_minus)
  ultimately show ?thesis by simp
qed

section \<open>Byte order\<close>

lemma less_append_same_length:
  fixes u v :: "'a::linorder list"
  shows "length u = length v \<Longrightarrow> u @ x < v @ y \<longleftrightarrow> u < v \<or> u = v \<and> x < y"
  by (induction u v rule: list_induct2) auto

lemma less_div_mod: "(x :: int) < y \<longleftrightarrow> x div 256 < y div 256 \<or> x div 256 = y div 256 \<and> x mod 256 < y mod 256"
proof -
  have "x = x div 256 * 256 + x mod 256" "y = y div 256 * 256 + y mod 256" by simp_all
  moreover have "0 \<le> x mod 256" "x mod 256 < 256" "0 \<le> y mod 256" "y mod 256 < 256" by simp_all
  ultimately show ?thesis by linarith
qed

lemma be_of_inject:
  assumes "0 \<le> x" "x < 256 ^ n" "0 \<le> y" "y < 256 ^ n"
  shows "be_of n x = be_of n y \<longleftrightarrow> x = y"
proof
  assume "be_of n x = be_of n y"
  then have "of_be (be_of n x) = of_be (be_of n y)" by (rule arg_cong)
  then show "x = y" using assms by (simp add: of_be_be_of)
qed simp

lemma be_of_less:
  assumes "0 \<le> x" "x < 256 ^ n" "0 \<le> y" "y < 256 ^ n"
  shows "be_of n x < be_of n y \<longleftrightarrow> x < y"
  using assms
proof (induction n arbitrary: x y)
  case (Suc n)
  have lt: "z div 256 < 256 ^ n" if "z < 256 ^ Suc n" for z :: int
  proof -
    have "z = z div 256 * 256 + z mod 256" "0 \<le> z mod 256" by simp_all
    moreover have "z < 256 ^ n * 256" using that by simp
    ultimately show ?thesis by linarith
  qed
  have d: "0 \<le> x div 256" "x div 256 < 256 ^ n" "0 \<le> y div 256" "y div 256 < 256 ^ n"
    using Suc.prems lt [of x] lt [of y] by (simp_all add: pos_imp_zdiv_nonneg_iff)
  have last: "(word_of_int (x mod 256) :: u8) < word_of_int (y mod 256) \<longleftrightarrow> x mod 256 < y mod 256"
    by (simp add: word_less_alt uint_byte)
  show ?case
    using Suc.IH [OF d] less_div_mod [of x y] by (simp add: less_append_same_length be_of_inject [OF d] last)
qed simp

lemma be_u64_less: "be_u64 v < be_u64 w \<longleftrightarrow> v < w"
proof -
  have "0 \<le> uint v" "uint v < 256 ^ 8" "0 \<le> uint w" "uint w < 256 ^ 8"
    using unsigned_less [of v, where 'a = int] unsigned_less [of w, where 'a = int] by simp_all
  then show ?thesis by (simp add: be_u64_def be_of_less word_less_alt)
qed

lemma be_u64_inject [simp]: "be_u64 v = be_u64 w \<longleftrightarrow> v = w"
  by (metis u64_round_trip)

section \<open>Strings\<close>

definition str_bytes :: "string \<Rightarrow> bytes" where
  "str_bytes s = map of_char s"

definition bytes_str :: "bytes \<Rightarrow> string" where
  "bytes_str bs = map (\<lambda>b. char_of (unat b)) bs"

definition continuation :: "u8 \<Rightarrow> bool" where
  "continuation b \<longleftrightarrow> 128 \<le> b \<and> b \<le> 191"

text \<open>The validation of \<open>core::str::from_utf8\<close>: widths by the first byte, no overlong form, no surrogate.\<close>

fun utf8_valid :: "bytes \<Rightarrow> bool" where
  "utf8_valid [] = True"
| "utf8_valid (a # rest) =
    (if a < 128 then utf8_valid rest
     else if 194 \<le> a \<and> a \<le> 223 then
       (case rest of b # r \<Rightarrow> continuation b \<and> utf8_valid r | _ \<Rightarrow> False)
     else if 224 \<le> a \<and> a \<le> 239 then
       (case rest of b # c # r \<Rightarrow>
          continuation b \<and> (a = 224 \<longrightarrow> 160 \<le> b) \<and> (a = 237 \<longrightarrow> b \<le> 159) \<and> continuation c \<and> utf8_valid r
        | _ \<Rightarrow> False)
     else if 240 \<le> a \<and> a \<le> 244 then
       (case rest of b # c # d # r \<Rightarrow>
          continuation b \<and> (a = 240 \<longrightarrow> 144 \<le> b) \<and> (a = 244 \<longrightarrow> b \<le> 143) \<and> continuation c \<and> continuation d
          \<and> utf8_valid r
        | _ \<Rightarrow> False)
     else False)"

definition from_utf8 :: "bytes \<Rightarrow> string option" where
  "from_utf8 bs = (if utf8_valid bs then Some (bytes_str bs) else None)"

text \<open>What the type \<open>String\<close> guarantees of its bytes.\<close>

definition str_ok :: "string \<Rightarrow> bool" where
  "str_ok s \<longleftrightarrow> utf8_valid (str_bytes s)"

lemma length_str_bytes [simp]: "length (str_bytes s) = length s"
  by (simp add: str_bytes_def)

lemma unat_of_char: "unat (of_char c :: u8) = of_char c"
proof -
  have "(of_char c :: u8) = of_nat (of_char c)" by (simp add: of_nat_of_char)
  then show ?thesis by (simp add: unat_of_nat take_bit_eq_mod)
qed

lemma bytes_str_bytes [simp]: "bytes_str (str_bytes s) = s"
  by (simp add: bytes_str_def str_bytes_def unat_of_char comp_def)

lemma str_bytes_inject [simp]: "str_bytes s = str_bytes t \<longleftrightarrow> s = t"
  by (metis bytes_str_bytes)

lemma from_utf8_bytes [simp]: "str_ok s \<Longrightarrow> from_utf8 (str_bytes s) = Some s"
  by (simp add: from_utf8_def str_ok_def)

lemma of_char_less: "(of_char c :: u8) < of_char d \<longleftrightarrow> c < d"
  by (simp add: word_less_nat_alt unat_of_char less_char_def)

lemma of_char_u8_inject [simp]: "(of_char c :: u8) = of_char d \<longleftrightarrow> c = d"
  using unat_of_char [of c] unat_of_char [of d] by (metis of_char_eq_iff)

section \<open>Slices\<close>

text \<open>
  A reader at a position in a slice is the rest of the slice. \<open>get(at..at + n)\<close> is the next \<open>n\<close> bytes,
  or nothing when there are not that many; a sum that overflowed \<open>usize\<close> would give an end below the
  start, and the same nothing.
\<close>

definition take_bytes :: "nat \<Rightarrow> bytes \<Rightarrow> (bytes \<times> bytes) option" where
  "take_bytes n bs = (if n \<le> length bs then Some (take n bs, drop n bs) else None)"

lemma take_bytes_append [simp]: "length xs = n \<Longrightarrow> take_bytes n (xs @ ys) = Some (xs, ys)"
  by (simp add: take_bytes_def)

lemma take_bytes_Some: "take_bytes n bs = Some (xs, ys) \<longleftrightarrow> bs = xs @ ys \<and> length xs = n"
  by (auto simp: take_bytes_def)

end
