(* ===== verification/Codec.thy ===== *)
theory Codec
  imports State Bytes
begin

text \<open>
  The order-preserving key codec (\<open>schweep-state/src/codec.rs\<close>) and the serialised entries of a
  snapshot. Byte-lexicographic order of encoded keys is the order of the keys, encodings are
  self-delimiting, and decoding inverts encoding.
\<close>

section \<open>Encoding\<close>

fun escape :: "bytes \<Rightarrow> bytes" where
  "escape [] = [0, 0]"
| "escape (b # bs) = (if b = 0 then [0, 255] else [b]) @ escape bs"

definition int_ordered :: "int \<Rightarrow> 64 word" where
  "int_ordered i = i64_bits i XOR sign_mask"

definition float_ordered :: "64 word \<Rightarrow> 64 word" where
  "float_ordered b = (if b AND sign_mask \<noteq> 0 then NOT b else b OR sign_mask)"

fun encode_value :: "sql_value \<Rightarrow> bytes" where
  "encode_value VNull = [0]"
| "encode_value (VBool b) = [1, if b then 1 else 0]"
| "encode_value (VInt i) = 2 # be_u64 (int_ordered i)"
| "encode_value (VFloat x) = 3 # be_u64 (float_ordered x)"
| "encode_value (VStr s) = 4 # escape (str_bytes s)"

definition encode_key :: "key \<Rightarrow> bytes" where
  "encode_key k = concat (map encode_value k)"

section \<open>Decoding\<close>

definition corrupt :: "string \<Rightarrow> state_error" where
  "corrupt what = Backend (''corrupt encoded key: '' @ what)"

definition eight :: "bytes \<Rightarrow> (state_error, bytes \<times> bytes) result" where
  "eight bs = ok_or (take_bytes 8 bs) (corrupt ''short fixed-width value'')"

definition float_unordered :: "64 word \<Rightarrow> 64 word" where
  "float_unordered w = (if w AND sign_mask \<noteq> 0 then w AND NOT sign_mask else NOT w)"

fun unescape :: "bytes \<Rightarrow> bytes \<Rightarrow> (state_error, bytes \<times> bytes) result" where
  "unescape acc [] = Err (corrupt ''unterminated string'')"
| "unescape acc (b # rest) =
    (if b = 0 then (case rest of
         [] \<Rightarrow> Err (corrupt ''short escape'')
       | n # rest' \<Rightarrow> if n = 0 then Ok (acc, rest')
           else if n = 255 then unescape (acc @ [0]) rest'
           else Err (corrupt ''bad escape''))
     else unescape (acc @ [b]) rest)"

definition decode_value :: "bytes \<Rightarrow> (state_error, sql_value \<times> bytes) result" where
  "decode_value bs = (case bs of
      [] \<Rightarrow> Err (corrupt ''missing tag'')
    | tag # body \<Rightarrow>
        if tag = 0 then Ok (VNull, body)
        else if tag = 1 then (case body of
            [] \<Rightarrow> Err (corrupt ''short bool'')
          | b # rest \<Rightarrow> Ok (VBool (b \<noteq> 0), rest))
        else if tag = 2 then bindR (eight body) (\<lambda>(raw, rest). Ok (VInt (bits_i64 (u64_be raw XOR sign_mask)), rest))
        else if tag = 3 then bindR (eight body) (\<lambda>(raw, rest). Ok (VFloat (float_unordered (u64_be raw)), rest))
        else if tag = 4 then bindR (unescape [] body) (\<lambda>(acc, rest).
          bindR (ok_or (from_utf8 acc) (corrupt ''string is not UTF-8'')) (\<lambda>s. Ok (VStr s, rest)))
        else Err (Backend (''corrupt encoded key: unknown tag '' @ show_nat (unat tag))))"

lemma unescape_shorter: "unescape acc bs = Ok (s, rest) \<Longrightarrow> length rest < length bs"
  by (induction acc bs rule: unescape.induct) (auto split: if_splits list.splits simp: less_Suc_eq)

lemma decode_value_tag:
  "decode_value [] = Err (corrupt ''missing tag'')"
  "decode_value (0 # body) = Ok (VNull, body)"
  "decode_value (1 # b # rest) = Ok (VBool (b \<noteq> 0), rest)"
  "decode_value [1] = Err (corrupt ''short bool'')"
  "decode_value (2 # body) = bindR (eight body) (\<lambda>(raw, rest). Ok (VInt (bits_i64 (u64_be raw XOR sign_mask)), rest))"
  "decode_value (3 # body) = bindR (eight body) (\<lambda>(raw, rest). Ok (VFloat (float_unordered (u64_be raw)), rest))"
  "decode_value (4 # body) = bindR (unescape [] body) (\<lambda>(acc, rest).
     bindR (ok_or (from_utf8 acc) (corrupt ''string is not UTF-8'')) (\<lambda>s. Ok (VStr s, rest)))"
  by (simp_all add: decode_value_def)

lemma eight_Ok: "eight bs = Ok (raw, rest) \<longleftrightarrow> bs = raw @ rest \<and> length raw = 8"
  by (simp add: eight_def ok_or_eq_Ok take_bytes_Some)

lemma decode_value_shorter:
  assumes "decode_value bs = Ok (v, rest)"
  shows "length rest < length bs"
proof (cases bs)
  case Nil
  then show ?thesis using assms by (simp add: decode_value_tag)
next
  case (Cons tag body)
  consider "tag = 0" | "tag = 1" | "tag = 2" | "tag = 3" | "tag = 4" | "tag \<notin> {0, 1, 2, 3, 4}" by auto
  then show ?thesis
  proof cases
    case 2
    then show ?thesis using assms Cons by (cases body) (auto simp: decode_value_tag)
  next
    case 5
    then obtain acc where "unescape [] body = Ok (acc, rest)" using assms Cons by (auto simp: decode_value_tag bindR_eq_Ok)
    then show ?thesis using Cons unescape_shorter by fastforce
  next
    case 6
    then show ?thesis using assms Cons by (simp add: decode_value_def)
  qed (use assms Cons in \<open>auto simp: decode_value_tag bindR_eq_Ok eight_Ok\<close>)
qed

text \<open>The loop of \<open>decode_key\<close> ends because every value takes at least its tag.\<close>

function decode_key :: "bytes \<Rightarrow> (state_error, key) result" where
  "decode_key bs = (if bs = [] then Ok []
    else (case decode_value bs of
        Inl e \<Rightarrow> Err e
      | Inr (v, rest) \<Rightarrow> bindR (decode_key rest) (\<lambda>vs. Ok (v # vs))))"
  by pat_completeness auto
termination
  by (relation "measure length") (auto dest: decode_value_shorter)

declare decode_key.simps [simp del]

definition encode_entries :: "(key \<times> int) list \<Rightarrow> bytes" where
  "encode_entries es = be_u64 (of_nat (length es)) @ concat (map (\<lambda>(k, w).
     be_u32 (of_nat (length (encode_key k))) @ encode_key k @ be_u64 (i64_bits w)) es)"

definition snapshot_short :: state_error where
  "snapshot_short = corrupt ''snapshot is short''"

definition decode_entry :: "bytes \<Rightarrow> (state_error, (key \<times> int) \<times> bytes) result" where
  "decode_entry bs =
    bindR (ok_or (take_bytes 4 bs) snapshot_short) (\<lambda>(len_raw, r1).
    bindR (ok_or (take_bytes (unat (u32_be len_raw)) r1) snapshot_short) (\<lambda>(raw, r2).
    bindR (decode_key raw) (\<lambda>key.
    bindR (ok_or (take_bytes 8 r2) snapshot_short) (\<lambda>(w, r3). Ok ((key, bits_i64 (u64_be w)), r3)))))"

fun decode_n_entries :: "nat \<Rightarrow> bytes \<Rightarrow> (state_error, (key \<times> int) list) result" where
  "decode_n_entries 0 bs = Ok []"
| "decode_n_entries (Suc n) bs = bindR (decode_entry bs) (\<lambda>(e, rest).
    bindR (decode_n_entries n rest) (\<lambda>es. Ok (e # es)))"

definition decode_entries :: "bytes \<Rightarrow> (state_error, (key \<times> int) list) result" where
  "decode_entries bs = bindR (ok_or (take_bytes 8 bs) snapshot_short) (\<lambda>(count_raw, rest).
    decode_n_entries (unat (u64_be count_raw)) rest)"

section \<open>What the types guarantee\<close>

fun value_ok :: "sql_value \<Rightarrow> bool" where
  "value_ok (VInt i) = in_i64 i"
| "value_ok (VStr s) = str_ok s"
| "value_ok _ = True"

definition key_ok :: "key \<Rightarrow> bool" where
  "key_ok k \<longleftrightarrow> list_all value_ok k"

section \<open>Decoding inverts encoding\<close>

lemma float_round_trip: "float_unordered (float_ordered b) = b"
proof (cases "bit b 63")
  case True
  then have "\<not> bit (NOT b) 63" by (simp add: bit_simps)
  then show ?thesis using True by (simp add: float_ordered_def float_unordered_def sign_bit)
next
  case False
  have "bit (b OR sign_mask) 63" by (simp add: bit_simps)
  moreover have "(b OR sign_mask) AND NOT sign_mask = b"
    using False by (intro bit_eqI) (auto simp: bit_simps)
  ultimately show ?thesis using False by (simp add: float_ordered_def float_unordered_def sign_bit)
qed

lemma unescape_escape [simp]: "unescape acc (escape bs @ rest) = Ok (acc @ bs, rest)"
  by (induction bs arbitrary: acc) auto

lemma eight_be [simp]: "eight (be_u64 w @ rest) = Ok (be_u64 w, rest)"
  by (simp add: eight_Ok)

lemma decode_value_encode: "value_ok v \<Longrightarrow> decode_value (encode_value v @ rest) = Ok (v, rest)"
  by (cases v) (simp_all add: decode_value_tag float_round_trip int_ordered_def xor.assoc ok_or_def)

lemma encode_value_nonempty [simp]: "encode_value v \<noteq> []"
  by (cases v) simp_all

lemma decode_key_append: "value_ok v \<Longrightarrow> decode_key (encode_value v @ rest) = bindR (decode_key rest) (\<lambda>vs. Ok (v # vs))"
  using decode_value_encode [of v rest] by (subst decode_key.simps) (auto simp: encode_value_nonempty)

lemma decode_key_encode: "key_ok k \<Longrightarrow> decode_key (encode_key k) = Ok k"
  by (induction k) (simp_all add: key_ok_def encode_key_def decode_key_append decode_key.simps [of "[]"])

section \<open>Byte order is value order\<close>

lemma int_ordered_less: "in_i64 i \<Longrightarrow> in_i64 j \<Longrightarrow> int_ordered i < int_ordered j \<longleftrightarrow> i < j"
  using flip_sign [of "i64_bits i"] flip_sign [of "i64_bits j"] i64_round_trip [of i] i64_round_trip [of j]
  by (simp add: int_ordered_def word_less_alt bits_i64_def)

lemma float_ordered_key: "float_ordered b = (b XOR drop_bit 1 (if bit b 63 then - 1 else 0)) XOR sign_mask"
proof (rule bit_eqI)
  fix n assume "possible_bit TYPE(64 word) n"
  then have "n < 64" by simp
  then show "bit (float_ordered b) n \<longleftrightarrow> bit ((b XOR drop_bit 1 (if bit b 63 then - 1 else 0)) XOR sign_mask) n"
    by (cases "n = 63") (auto simp: float_ordered_def sign_bit bit_simps)
qed

lemma float_ordered_less: "float_ordered a < float_ordered b \<longleftrightarrow> f64_order_key a < f64_order_key b"
  using flip_sign [of "a XOR drop_bit 1 (if bit a 63 then - 1 else 0)"] flip_sign [of "b XOR drop_bit 1 (if bit b 63 then - 1 else 0)"]
  unfolding float_ordered_key f64_order_key_def word_less_nat_alt by linarith

lemma escape_less: "s \<noteq> t \<Longrightarrow> escape s @ x < escape t @ y \<longleftrightarrow> s < t"
proof (induction s t rule: list_induct2')
  case (2 a s)
  then show ?case by auto
next
  case (3 b t)
  then show ?case by (auto simp: word_gt_0)
next
  case (4 a s b t)
  then show ?case by (auto simp: word_gt_0)
qed simp

lemma str_bytes_less: "str_bytes s < str_bytes t \<longleftrightarrow> s < t"
  by (induction s t rule: list_induct2') (simp_all add: str_bytes_def of_char_less)

lemma float_ordered_inject [simp]: "float_ordered a = float_ordered b \<longleftrightarrow> a = b"
  by (metis float_round_trip)

lemma int_ordered_inject: "in_i64 i \<Longrightarrow> in_i64 j \<Longrightarrow> int_ordered i = int_ordered j \<longleftrightarrow> i = j"
  by (metis int_ordered_less less_irrefl linorder_cases)

lemma encode_value_less:
  assumes "value_ok v" "value_ok w" "v \<noteq> w"
  shows "encode_value v @ x < encode_value w @ y \<longleftrightarrow> v < w"
  using assms
  by (cases v; cases w) (auto simp: less_sql_value_def less_append_same_length be_u64_less int_ordered_less int_ordered_inject float_ordered_less
      total_cmp_def escape_less str_bytes_less)

lemma encode_key_simps [simp]: "encode_key [] = []" "encode_key (v # k) = encode_value v @ encode_key k"
  by (simp_all add: encode_key_def)

lemma key_ok_simps [simp]: "key_ok []" "key_ok (v # k) \<longleftrightarrow> value_ok v \<and> key_ok k"
  by (simp_all add: key_ok_def)

lemma less_append_cancel [simp]: "(u @ x < u @ y) = (x < y)" for x :: "'a::linorder list"
  by (induction u) auto

section \<open>Claims\<close>

text \<open>
  C15. The key codec preserves order: comparing two encoded keys byte by byte gives the order of the keys
  themselves (S-7), for keys of any length and mixture of types, negative numbers, floats and strings with
  NUL bytes included. A backend that stores bytes therefore scans in the order \<open>MemBackend\<close> does.
\<close>

theorem key_encoding_preserves_order:
  assumes "key_ok a" "key_ok b"
  shows "encode_key a < encode_key b \<longleftrightarrow> a < b"
  using assms
proof (induction a b rule: list_induct2')
  case (3 w k)
  then show ?case by (cases w) simp_all
next
  case (4 v j w k)
  then show ?case
    using encode_value_less [of v w "encode_key j" "encode_key k"] by (cases "v = w") auto
qed simp_all

theorem key_encoding_preserves_order_witness:
  "(encode_key [VInt (- 5), VStr ''b''] < encode_key [VInt 3, VNull]) = ([VInt (- 5), VStr ''b''] < [VInt 3, VNull])
    \<and> [VInt (- 5), VStr ''b''] < [VInt 3, VNull]"
proof -
  have "key_ok [VInt (- 5), VStr ''b'']" "key_ok [VInt 3, VNull]" by code_simp+
  moreover have "[VInt (- 5), VStr ''b''] < [VInt 3, VNull]" by (simp add: less_sql_value_def)
  ultimately show ?thesis using key_encoding_preserves_order by blast
qed

text \<open>
  C16. The codec is self-delimiting: the bytes of one key are a prefix of the bytes of another exactly when
  the key is a prefix of the other, component by component. This is what makes a byte-prefix scan a key-prefix
  scan.
\<close>

theorem key_encoding_preserves_prefixes:
  assumes "key_ok p" "key_ok k"
  shows "prefix (encode_key p) (encode_key k) \<longleftrightarrow> prefix p k"
proof
  assume "prefix p k"
  then show "prefix (encode_key p) (encode_key k)" by (auto simp: prefix_def encode_key_def)
next
  assume "prefix (encode_key p) (encode_key k)"
  then obtain z where "encode_key k = encode_key p @ z" by (auto simp: prefix_def)
  with assms show "prefix p k"
  proof (induction p arbitrary: k)
    case (Cons v p)
    then obtain w k' where k: "k = w # k'" by (cases k) auto
    have "Ok (v, encode_key p @ z) = decode_value (encode_key k)" using Cons.prems decode_value_encode [of v "encode_key p @ z"] by simp
    also have "\<dots> = Ok (w, encode_key k')" using Cons.prems(2) k by (simp add: decode_value_encode)
    finally have "v = w" "encode_key k' = encode_key p @ z" by simp_all
    then show ?case using Cons k by simp
  qed simp
qed

theorem key_encoding_preserves_prefixes_witness:
  "prefix (encode_key [VStr ''a'']) (encode_key [VStr ''a'', VInt 1]) \<and> \<not> prefix (encode_key [VStr ''a'']) (encode_key [VStr ''ab''])"
proof -
  have ok: "key_ok [VStr ''a'']" "key_ok [VStr ''a'', VInt 1]" "key_ok [VStr ''ab'']" by code_simp+
  have "prefix [VStr ''a''] [VStr ''a'', VInt 1]" "\<not> prefix [VStr ''a''] [VStr ''ab'']" by simp_all
  then show ?thesis
    using key_encoding_preserves_prefixes [OF ok(1,2)] key_encoding_preserves_prefixes [OF ok(1,3)] by blast
qed

lemma decode_entry_encode:
  assumes "key_ok k" "in_i64 w" "fits_u32 (length (encode_key k))"
  shows "decode_entry (be_u32 (of_nat (length (encode_key k))) @ encode_key k @ be_u64 (i64_bits w) @ rest) = Ok ((k, w), rest)"
  using assms by (simp add: decode_entry_def ok_or_def decode_key_encode)

definition entries_ok :: "(key \<times> int) list \<Rightarrow> bool" where
  "entries_ok es \<longleftrightarrow> fits_u64 (length es) \<and> (\<forall>(k, w) \<in> set es. key_ok k \<and> in_i64 w \<and> fits_u32 (length (encode_key k)))"

lemma decode_entries_encode:
  assumes "entries_ok es"
  shows "decode_entries (encode_entries es) = Ok es"
proof -
  let ?enc = "\<lambda>es. concat (map (\<lambda>(k, w). be_u32 (of_nat (length (encode_key k))) @ encode_key k @ be_u64 (i64_bits w)) es)"
  have "decode_n_entries (length es) (?enc es) = Ok es"
    if "\<forall>(k, w) \<in> set es. key_ok k \<and> in_i64 w \<and> fits_u32 (length (encode_key k))" for es
    using that by (induction es) (auto simp: decode_entry_encode)
  then show ?thesis using assms by (simp add: decode_entries_def encode_entries_def ok_or_def entries_ok_def)
qed

text \<open>
  C17. A snapshot of entries reads back as the same entries, in the same order, as long as their number
  fits the 64-bit count and each encoded key fits its 32-bit length.
\<close>

theorem entries_round_trip:
  assumes "entries_ok es"
  shows "decode_entries (encode_entries es) = Ok es"
  using assms by (rule decode_entries_encode)

theorem entries_round_trip_witness:
  "decode_entries (encode_entries [([VNull, VBool True], 3), ([VStr [CHR ''a'', CHR 0x00]], - 7)])
    = Ok [([VNull, VBool True], 3), ([VStr [CHR ''a'', CHR 0x00]], - 7)]"
proof -
  have "entries_ok [([VNull, VBool True], 3), ([VStr [CHR ''a'', CHR 0x00]], - 7)]" by code_simp
  then show ?thesis by (rule entries_round_trip)
qed

end
