(* ===== verification/Snapshot.thy ===== *)
theory Snapshot
  imports Codec Circuit_Claims
begin

text \<open>
  Checkpointing a circuit: \<open>snapshot\<close> and \<open>restore\<close> of the in-memory backend (\<open>schweep-state/src/mem.rs\<close>),
  of the operators (\<open>schweep-ops\<close>), of the result stores (\<open>result_store.rs\<close>) and of the whole circuit
  (\<open>schweep-circuit/src/circuit.rs\<close>). A snapshot restores into a circuit of the same shape, as the plan
  rebuilds it. A restore that fails part of the way leaves what it had already replaced.
\<close>

section \<open>Backends and stores\<close>

definition mem_snapshot :: "mem_backend \<Rightarrow> bytes" where
  "mem_snapshot m = encode_entries (mem_iter_all m)"

definition mem_restore :: "bytes \<Rightarrow> mem_backend \<Rightarrow> (state_error, unit) result \<times> mem_backend" where
  "mem_restore bs m = (case decode_entries bs of Inl e \<Rightarrow> (Err e, m) | Inr es \<Rightarrow> (Ok (), bt_collect es))"

fun state_error_text :: "state_error \<Rightarrow> string" where
  "state_error_text (StateWeightOverflow while_doing) = ''weight arithmetic overflowed i64 while '' @ while_doing"
| "state_error_text (Backend what) = ''state backend failure: '' @ what"

definition store_snapshot :: "result_store \<Rightarrow> bytes" where
  "store_snapshot st = encode_entries (rs_integral st)"

definition store_restore :: "bytes \<Rightarrow> result_store \<Rightarrow> (circuit_error, unit) result \<times> result_store" where
  "store_restore bs st = (case decode_entries bs of
      Inl e \<Rightarrow> (Err (SnapshotFailure (state_error_text e)), st)
    | Inr es \<Rightarrow> (Ok (), st\<lparr>rs_integral := bt_collect es\<rparr>))"

section \<open>Operators\<close>

definition split_prefixed :: "bytes \<Rightarrow> (op_error, bytes \<times> bytes) result" where
  "split_prefixed bs =
    bindR (ok_or (take_bytes 4 bs) CorruptJoinIndex) (\<lambda>(len_raw, r).
    ok_or (take_bytes (unat (u32_be len_raw)) r) CorruptJoinIndex)"

definition join_snapshot :: "join_op \<Rightarrow> bytes" where
  "join_snapshot op =
    (let l = mem_snapshot (jo_left_index op); r = mem_snapshot (jo_right_index op) in
     be_u32 (of_nat (length l)) @ l @ be_u32 (of_nat (length r)) @ r)"

definition join_restore :: "bytes \<Rightarrow> join_op \<Rightarrow> (op_error, unit) result \<times> join_op" where
  "join_restore bs op = (case bindR (split_prefixed bs) (\<lambda>(l, rest). bindR (split_prefixed rest) (\<lambda>(r, _). Ok (l, r))) of
      Inl e \<Rightarrow> (Err e, op)
    | Inr (l, r) \<Rightarrow> (case mem_restore l (jo_left_index op) of
        (Inl e, m) \<Rightarrow> (Err (OpState e), op\<lparr>jo_left_index := m\<rparr>)
      | (Inr _, m) \<Rightarrow> (case mem_restore r (jo_right_index op) of
          (Inl e, m') \<Rightarrow> (Err (OpState e), op\<lparr>jo_left_index := m, jo_right_index := m'\<rparr>)
        | (Inr _, m') \<Rightarrow> (Ok (), op\<lparr>jo_left_index := m, jo_right_index := m'\<rparr>))))"

definition distinct_restore :: "bytes \<Rightarrow> distinct_op \<Rightarrow> (op_error, unit) result \<times> distinct_op" where
  "distinct_restore bs op = (case mem_restore bs (di_state op) of (r, m) \<Rightarrow> (map_err OpState r, op\<lparr>di_state := m\<rparr>))"

definition aggregate_restore :: "bytes \<Rightarrow> aggregate_op \<Rightarrow> (op_error, unit) result \<times> aggregate_op" where
  "aggregate_restore bs op = (case mem_restore bs (ag_state op) of (r, m) \<Rightarrow> (map_err OpState r, op\<lparr>ag_state := m\<rparr>))"

text \<open>The stateless operators keep the trait's defaults: nothing to write, nothing to read.\<close>

fun op_snapshot :: "operator \<Rightarrow> bytes" where
  "op_snapshot (OpFilter op) = []"
| "op_snapshot (OpProject op) = []"
| "op_snapshot (OpJoin op) = join_snapshot op"
| "op_snapshot (OpAggregate op) = mem_snapshot (ag_state op)"
| "op_snapshot (OpDistinct op) = mem_snapshot (di_state op)"

fun op_restore :: "bytes \<Rightarrow> operator \<Rightarrow> (op_error, unit) result \<times> operator" where
  "op_restore bs (OpFilter op) = (Ok (), OpFilter op)"
| "op_restore bs (OpProject op) = (Ok (), OpProject op)"
| "op_restore bs (OpJoin op) = map_prod id OpJoin (join_restore bs op)"
| "op_restore bs (OpAggregate op) = map_prod id OpAggregate (aggregate_restore bs op)"
| "op_restore bs (OpDistinct op) = map_prod id OpDistinct (distinct_restore bs op)"

section \<open>Circuits\<close>

definition push_block :: "bytes \<Rightarrow> bytes" where
  "push_block block = be_u32 (of_nat (length block)) @ block"

definition take_block :: "bytes \<Rightarrow> (circuit_error, bytes \<times> bytes) result" where
  "take_block bs =
    bindR (ok_or (take_bytes 4 bs) CorruptSnapshot) (\<lambda>(raw, r).
    ok_or (take_bytes (unat (u32_be raw)) r) CorruptSnapshot)"

definition sink_snapshot :: "sink option \<Rightarrow> bytes" where
  "sink_snapshot s = (case s of
      Some s \<Rightarrow> push_block (store_snapshot (sk_result s)) @ push_block (store_snapshot (sk_errors s))
    | None \<Rightarrow> push_block [] @ push_block [])"

definition node_snapshot :: "node option \<Rightarrow> bytes" where
  "node_snapshot n = push_block (case n of Some (OperatorNode op _) \<Rightarrow> op_snapshot op | _ \<Rightarrow> [])"

definition snapshot :: "circuit \<Rightarrow> bytes" where
  "snapshot c = be_u64 (of_nat (ci_epoch c))
    @ be_u32 (of_nat (length (ci_emitted c))) @ concat (map (\<lambda>n. be_u64 (word_of_int n)) (ci_emitted c))
    @ be_u32 (of_nat (length (ci_sinks c))) @ concat (map sink_snapshot (ci_sinks c))
    @ concat (map node_snapshot (ci_nodes c))"

fun restore_counters :: "nat \<Rightarrow> bytes \<Rightarrow> (circuit_error, bytes) result \<times> int list" where
  "restore_counters 0 bs = (Ok bs, [])"
| "restore_counters (Suc n) bs = (case take_bytes 8 bs of
      None \<Rightarrow> (Err CorruptSnapshot, [])
    | Some (raw, rest) \<Rightarrow> map_prod id (\<lambda>cs. uint (u64_be raw) # cs) (restore_counters n rest))"

definition restore_sink :: "bytes \<Rightarrow> bytes \<Rightarrow> sink option \<Rightarrow> (circuit_error, unit) result \<times> sink option" where
  "restore_sink rb eb s = (case s of
      None \<Rightarrow> (Ok (), None)
    | Some s \<Rightarrow> (case store_restore rb (sk_result s) of
        (Inl e, st) \<Rightarrow> (Err e, Some (s\<lparr>sk_result := st\<rparr>))
      | (Inr _, st) \<Rightarrow> (case store_restore eb (sk_errors s) of
          (r, st') \<Rightarrow> (r, Some (s\<lparr>sk_result := st, sk_errors := st'\<rparr>)))))"

fun restore_sinks :: "bytes \<Rightarrow> sink option list \<Rightarrow> (circuit_error, bytes) result \<times> sink option list" where
  "restore_sinks bs [] = (Ok bs, [])"
| "restore_sinks bs (s # ss) =
    (case bindR (take_block bs) (\<lambda>(rb, r1). bindR (take_block r1) (\<lambda>(eb, r2). Ok (rb, eb, r2))) of
       Inl e \<Rightarrow> (Err e, s # ss)
     | Inr (rb, eb, rest) \<Rightarrow> (case restore_sink rb eb s of
         (Inl e, s') \<Rightarrow> (Err e, s' # ss)
       | (Inr _, s') \<Rightarrow> map_prod id (\<lambda>ss'. s' # ss') (restore_sinks rest ss)))"

definition restore_node :: "bytes \<Rightarrow> node option \<Rightarrow> (circuit_error, unit) result \<times> node option" where
  "restore_node block n = (case n of
      Some (OperatorNode op ins) \<Rightarrow> (case op_restore block op of (r, op') \<Rightarrow> (map_err CircuitOp r, Some (OperatorNode op' ins)))
    | _ \<Rightarrow> (Ok (), n))"

fun restore_nodes :: "bytes \<Rightarrow> node option list \<Rightarrow> (circuit_error, bytes) result \<times> node option list" where
  "restore_nodes bs [] = (Ok bs, [])"
| "restore_nodes bs (n # ns) = (case take_block bs of
      Inl e \<Rightarrow> (Err e, n # ns)
    | Inr (block, rest) \<Rightarrow> (case restore_node block n of
        (Inl e, n') \<Rightarrow> (Err e, n' # ns)
      | (Inr _, n') \<Rightarrow> map_prod id (\<lambda>ns'. n' # ns') (restore_nodes rest ns)))"

definition restore_stores :: "bytes \<Rightarrow> circuit \<Rightarrow> (circuit_error, unit) result \<times> circuit" where
  "restore_stores bs c = (case take_bytes 4 bs of
      None \<Rightarrow> (Err CorruptSnapshot, c)
    | Some (sink_raw, rest) \<Rightarrow>
        if unat (u32_be sink_raw) \<noteq> length (ci_sinks c) then (Err CorruptSnapshot, c)
        else (case restore_sinks rest (ci_sinks c) of
            (Inl e, ss) \<Rightarrow> (Err e, c\<lparr>ci_sinks := ss\<rparr>)
          | (Inr rest', ss) \<Rightarrow> (case restore_nodes rest' (ci_nodes c) of
              (r, ns) \<Rightarrow> (bindR r (\<lambda>_. Ok ()), c\<lparr>ci_sinks := ss, ci_nodes := ns\<rparr>))))"

definition restore :: "bytes \<Rightarrow> circuit \<Rightarrow> (circuit_error, unit) result \<times> circuit" where
  "restore bs c = (case take_bytes 8 bs of
      None \<Rightarrow> (Err CorruptSnapshot, c)
    | Some (epoch_raw, r1) \<Rightarrow> (let c1 = c\<lparr>ci_epoch := unat (u64_be epoch_raw)\<rparr> in
        case take_bytes 4 r1 of
          None \<Rightarrow> (Err CorruptSnapshot, c1)
        | Some (count_raw, r2) \<Rightarrow>
            if unat (u32_be count_raw) \<noteq> length (ci_nodes c1) then (Err CorruptSnapshot, c1)
            else (case restore_counters (unat (u32_be count_raw)) r2 of
                (Inl e, cs) \<Rightarrow> (Err e, c1\<lparr>ci_emitted := cs\<rparr>)
              | (Inr r3, cs) \<Rightarrow> restore_stores r3 (c1\<lparr>ci_emitted := cs\<rparr>))))"

section \<open>What a checkpoint needs of each part\<close>

text \<open>
  A part that can be checkpointed: its bytes, read into a part with the same configuration, give the part
  back, and they fit a 32-bit length. The lemma of the interface is the round trip through a block.
\<close>

locale snapshotted =
  fixes snap :: "'s \<Rightarrow> bytes" and restore_into :: "bytes \<Rightarrow> 's \<Rightarrow> ('e, unit) result \<times> 's"
    and same :: "'s \<Rightarrow> 's \<Rightarrow> bool" and fit :: "'s \<Rightarrow> bool"
  assumes snap_restore: "fit s \<Longrightarrow> same s0 s \<Longrightarrow> restore_into (snap s) s0 = (Ok (), s)"
    and snap_small: "fit s \<Longrightarrow> fits_u32 (length (snap s))"
begin

lemma snap_block: "fit s \<Longrightarrow> take_block (push_block (snap s) @ rest) = Ok (snap s, rest)"
  using snap_small [of s] by (simp add: take_block_def push_block_def ok_or_def)

lemma snap_prefixed:
  "fit s \<Longrightarrow> split_prefixed (be_u32 (of_nat (length (snap s))) @ snap s @ rest) = Ok (snap s, rest)"
  using snap_small [of s] by (simp add: split_prefixed_def ok_or_def)

end

definition mem_fits :: "mem_backend \<Rightarrow> bool" where
  "mem_fits m \<longleftrightarrow> bt_ok m \<and> entries_ok m \<and> fits_u32 (length (encode_entries m))"

interpretation bk: snapshotted mem_snapshot mem_restore "\<lambda>_ _. True" mem_fits
  by unfold_locales (auto simp: mem_fits_def mem_snapshot_def mem_restore_def mem_iter_all_def decode_entries_encode)

interpretation rs: snapshotted store_snapshot store_restore "\<lambda>a b. rs_schema a = rs_schema b" "\<lambda>st. mem_fits (rs_integral st)"
  by unfold_locales (auto simp: mem_fits_def store_snapshot_def store_restore_def decode_entries_encode)

fun op_fits :: "operator \<Rightarrow> bool" where
  "op_fits (OpJoin op) \<longleftrightarrow> mem_fits (jo_left_index op) \<and> mem_fits (jo_right_index op) \<and> fits_u32 (length (join_snapshot op))"
| "op_fits (OpAggregate op) \<longleftrightarrow> mem_fits (ag_state op)"
| "op_fits (OpDistinct op) \<longleftrightarrow> mem_fits (di_state op)"
| "op_fits _ \<longleftrightarrow> True"

lemma join_snap_restore:
  assumes "mem_fits (jo_left_index op)" "mem_fits (jo_right_index op)"
  shows "join_restore (join_snapshot op) op0 = (Ok (), op0\<lparr>jo_left_index := jo_left_index op, jo_right_index := jo_right_index op\<rparr>)"
  using assms bk.snap_prefixed [OF assms(2), of "[]"]
  by (simp add: join_restore_def join_snapshot_def Let_def bk.snap_prefixed bk.snap_restore)

lemma op_snap_restore:
  assumes "op_fits op" "op_config op0 = op_config op"
  shows "op_restore (op_snapshot op) op0 = (Ok (), op)"
proof (cases op)
  case (OpJoin j)
  then obtain j0 where j0: "op0 = OpJoin j0" using assms(2) by (cases op0) auto
  have "j0\<lparr>jo_left_index := jo_left_index j, jo_right_index := jo_right_index j\<rparr> = j"
    using assms(2) OpJoin j0 by (cases j; cases j0) simp
  then show ?thesis using OpJoin j0 assms(1) by (simp add: join_snap_restore)
next
  case (OpAggregate a)
  then obtain a0 where a0: "op0 = OpAggregate a0" using assms(2) by (cases op0) auto
  have "a0\<lparr>ag_state := ag_state a\<rparr> = a" using assms(2) OpAggregate a0 by (cases a; cases a0) simp
  then show ?thesis using OpAggregate a0 assms(1) by (simp add: aggregate_restore_def bk.snap_restore)
next
  case (OpDistinct d)
  then obtain d0 where d0: "op0 = OpDistinct d0" using assms(2) by (cases op0) auto
  have "d0\<lparr>di_state := di_state d\<rparr> = d" using assms(2) OpDistinct d0 by (cases d; cases d0) simp
  then show ?thesis using OpDistinct d0 assms(1) by (simp add: distinct_restore_def bk.snap_restore)
qed (use assms in \<open>cases op0; simp\<close>)+

interpretation ok: snapshotted op_snapshot op_restore "\<lambda>op0 op. op_config op0 = op_config op" op_fits
proof unfold_locales
  fix op :: operator
  assume "op_fits op"
  then show "fits_u32 (length (op_snapshot op))" by (cases op) (auto simp: fits_u32_def [of 0] dest: bk.snap_small)
qed (rule op_snap_restore)

section \<open>The whole circuit\<close>

definition sink_fits :: "sink option \<Rightarrow> bool" where
  "sink_fits s = (case s of None \<Rightarrow> True | Some s \<Rightarrow> mem_fits (rs_integral (sk_result s)) \<and> mem_fits (rs_integral (sk_errors s)))"

definition node_fits :: "node option \<Rightarrow> bool" where
  "node_fits n = (case n of Some (OperatorNode op _) \<Rightarrow> op_fits op | _ \<Rightarrow> True)"

definition snapshot_fits :: "circuit \<Rightarrow> bool" where
  "snapshot_fits c \<longleftrightarrow> fits_u64 (ci_epoch c) \<and> fits_u32 (length (ci_nodes c)) \<and> fits_u32 (length (ci_sinks c))
    \<and> (\<forall>s \<in> set (ci_sinks c). sink_fits s) \<and> (\<forall>n \<in> set (ci_nodes c). node_fits n)"

text \<open>Two sinks, or two nodes, that differ only in what a snapshot carries.\<close>

definition sink_like :: "sink option \<Rightarrow> sink option \<Rightarrow> bool" where
  "sink_like = rel_option (\<lambda>s0 s. sk_node s0 = sk_node s \<and> sk_ancestors s0 = sk_ancestors s
    \<and> rs_schema (sk_result s0) = rs_schema (sk_result s) \<and> rs_schema (sk_errors s0) = rs_schema (sk_errors s))"

definition node_like :: "node option \<Rightarrow> node option \<Rightarrow> bool" where
  "node_like n0 n \<longleftrightarrow> map_option node_config n0 = map_option node_config n"

lemma empty_block [simp]: "take_block (push_block [] @ rest) = Ok ([], rest)"
  by (simp add: take_block_def push_block_def ok_or_def take_bytes_def)

lemma restore_counters_encode:
  "\<forall>x \<in> set cs. 0 \<le> x \<and> x < 2 ^ 64 \<Longrightarrow>
    restore_counters (length cs) (concat (map (\<lambda>n. be_u64 (word_of_int n)) cs) @ rest) = (Ok rest, cs)"
  by (induction cs) (auto simp: unsigned_of_int take_bit_int_eq_self)

lemma restore_sinks_encode:
  assumes "list_all2 sink_like ss0 ss" "\<forall>s \<in> set ss. sink_fits s"
  shows "restore_sinks (concat (map sink_snapshot ss) @ rest) ss0 = (Ok rest, ss)"
  using assms
proof (induction ss0 ss rule: list_all2_induct)
  case (Cons s0 ss0 s ss)
  show ?case
  proof (cases s)
    case None
    then show ?thesis using Cons by (simp add: sink_like_def sink_snapshot_def restore_sink_def)
  next
    case (Some k)
    then obtain k0 where k0: "s0 = Some k0" and like: "sk_node k0 = sk_node k" "sk_ancestors k0 = sk_ancestors k"
        "rs_schema (sk_result k0) = rs_schema (sk_result k)" "rs_schema (sk_errors k0) = rs_schema (sk_errors k)"
      using Cons.hyps(1) by (auto simp: sink_like_def option_rel_Some2)
    have fit: "mem_fits (rs_integral (sk_result k))" "mem_fits (rs_integral (sk_errors k))"
      using Cons.prems Some by (simp_all add: sink_fits_def)
    have "k0\<lparr>sk_result := sk_result k, sk_errors := sk_errors k\<rparr> = k" using like by (cases k; cases k0) simp
    then have "restore_sink (store_snapshot (sk_result k)) (store_snapshot (sk_errors k)) s0 = (Ok (), s)"
      using k0 Some fit like by (simp add: restore_sink_def rs.snap_restore)
    then show ?thesis using Cons Some fit by (simp add: sink_snapshot_def rs.snap_block)
  qed
qed simp

lemma restore_nodes_encode:
  assumes "list_all2 node_like ns0 ns" "\<forall>n \<in> set ns. node_fits n"
  shows "restore_nodes (concat (map node_snapshot ns) @ rest) ns0 = (Ok rest, ns)"
  using assms
proof (induction ns0 ns rule: list_all2_induct)
  case (Cons n0 ns0 n ns)
  have "restore_node (case n of Some (OperatorNode op _) \<Rightarrow> op_snapshot op | _ \<Rightarrow> []) n0 = (Ok (), n)"
  proof (cases "\<exists>op ins. n = Some (OperatorNode op ins)")
    case True
    then obtain op ins where n: "n = Some (OperatorNode op ins)" by blast
    then obtain op0 where "n0 = Some (OperatorNode op0 ins)" "op_config op0 = op_config op"
      using Cons.hyps(1) by (cases n0; cases "the n0") (auto simp: node_like_def)
    then show ?thesis using n Cons.prems by (simp add: restore_node_def node_fits_def ok.snap_restore)
  next
    case False
    then have "n0 = n" using Cons.hyps(1) by (cases n; cases n0; cases "the n"; cases "the n0") (auto simp: node_like_def)
    then show ?thesis using False by (auto simp: restore_node_def split: option.splits node.splits)
  qed
  moreover have "take_block (node_snapshot n @ x) = Ok (case n of Some (OperatorNode op _) \<Rightarrow> op_snapshot op | _ \<Rightarrow> [], x)" for x
    using Cons.prems by (auto simp: node_snapshot_def node_fits_def ok.snap_block split: option.splits node.splits)
  ultimately show ?case using Cons by simp
qed simp

lemma restore_snapshot:
  assumes fits: "snapshot_fits c" and nodes: "list_all2 node_like (ci_nodes c0) (ci_nodes c)"
    and sinks: "list_all2 sink_like (ci_sinks c0) (ci_sinks c)"
    and emitted: "length (ci_emitted c) = length (ci_nodes c)" "\<forall>x \<in> set (ci_emitted c). 0 \<le> x \<and> x < 2 ^ 64"
  shows "restore (snapshot c) c0
    = (Ok (), c0\<lparr>ci_epoch := ci_epoch c, ci_emitted := ci_emitted c, ci_sinks := ci_sinks c, ci_nodes := ci_nodes c\<rparr>)"
proof -
  have len: "length (ci_nodes c0) = length (ci_nodes c)" "length (ci_sinks c0) = length (ci_sinks c)"
    using nodes sinks by (simp_all add: list_all2_lengthD)
  have small: "fits_u64 (ci_epoch c)" "fits_u32 (length (ci_nodes c))" "fits_u32 (length (ci_sinks c))"
    using fits by (simp_all add: snapshot_fits_def)
  have "restore_nodes (concat (map node_snapshot (ci_nodes c))) (ci_nodes c0) = (Ok [], ci_nodes c)"
    using restore_nodes_encode [OF nodes, of "[]"] fits by (simp add: snapshot_fits_def)
  moreover have "restore_sinks (concat (map sink_snapshot (ci_sinks c)) @ x) (ci_sinks c0) = (Ok x, ci_sinks c)" for x
    using restore_sinks_encode [OF sinks] fits by (simp add: snapshot_fits_def)
  ultimately show ?thesis
    using restore_counters_encode [OF emitted(2)] small len emitted(1)
    by (simp add: restore_def snapshot_def restore_stores_def Let_def)
qed

section \<open>Step counters do not matter\<close>

text \<open>A snapshot leaves out the diagnostic step counters; nothing a pass computes depends on them.\<close>

definition upto_steps :: "circuit \<Rightarrow> circuit \<Rightarrow> bool" where
  "upto_steps c c' \<longleftrightarrow> c\<lparr>ci_steps := []\<rparr> = c'\<lparr>ci_steps := []\<rparr>"

lemma upto_steps_fields:
  assumes "upto_steps c c'"
  shows "ci_nodes c = ci_nodes c'" "ci_sources c = ci_sources c'" "ci_sinks c = ci_sinks c'" "ci_epoch c = ci_epoch c'"
    "ci_emitted c = ci_emitted c'" "ci_admitted c = ci_admitted c'"
  using assms by (cases c; cases c'; simp add: upto_steps_def)+

lemma upto_steps_eq: "upto_steps c c' \<Longrightarrow> c' = c\<lparr>ci_steps := ci_steps c'\<rparr>"
  by (cases c; cases c') (simp add: upto_steps_def)

lemma upto_steps_self [simp]: "upto_steps c (c\<lparr>ci_steps := x\<rparr>)"
  by (simp add: upto_steps_def)

lemma upto_steps_update:
  assumes "upto_steps c c'"
  shows "upto_steps (count_emitted i b c) (count_emitted i b c')" "upto_steps (c\<lparr>ci_nodes := ns\<rparr>) (c'\<lparr>ci_nodes := ns\<rparr>)"
    "upto_steps (c\<lparr>ci_sinks := ss\<rparr>) (c'\<lparr>ci_sinks := ss\<rparr>)" "upto_steps (c\<lparr>ci_epoch := n\<rparr>) (c'\<lparr>ci_epoch := n\<rparr>)"
proof -
  obtain x where "c' = c\<lparr>ci_steps := x\<rparr>" using upto_steps_eq [OF assms] by blast
  then show "upto_steps (count_emitted i b c) (count_emitted i b c')" "upto_steps (c\<lparr>ci_nodes := ns\<rparr>) (c'\<lparr>ci_nodes := ns\<rparr>)"
    "upto_steps (c\<lparr>ci_sinks := ss\<rparr>) (c'\<lparr>ci_sinks := ss\<rparr>)" "upto_steps (c\<lparr>ci_epoch := n\<rparr>) (c'\<lparr>ci_epoch := n\<rparr>)"
    by (simp_all add: upto_steps_def count_emitted_def split: option.split)
qed

lemma loopM_rel:
  assumes "\<And>x s t. R s t \<Longrightarrow> rel_prod (=) R (f x s) (f x t)" "R s t"
  shows "rel_prod (=) R (loopM f xs s) (loopM f xs t)"
  using assms(2)
proof (induction xs arbitrary: s t)
  case (Cons x xs)
  obtain r s' t' where "f x s = (r, s')" "f x t = (r, t')" "R s' t'"
    using assms(1) [OF Cons.prems, of x] by (cases "f x s"; cases "f x t") auto
  then show ?case using Cons.IH by (cases r) auto
qed simp

lemma pass_node_upto:
  assumes "rel_prod upto_steps (=) st st'"
  shows "rel_prod (=) (rel_prod upto_steps (=)) (pass_node d only i st) (pass_node d only i st')"
proof -
  obtain c c' o' e where st: "st = (c, o', e)" "st' = (c', o', e)" and u: "upto_steps c c'"
    using assms by (cases st; cases st') auto
  note f = upto_steps_fields(1) [OF u]
  show ?thesis
  proof (cases "included only i")
    case True
    show ?thesis
    proof (cases "get_node (ci_nodes c') i")
      case (Some n)
      show ?thesis
      proof (cases n)
        case (SourceNode t a s)
        show ?thesis using u True Some SourceNode f
          by (cases "source_batch s (entries_for d t)") (simp_all add: st upto_steps_update)
      next
        case (OperatorNode op ins)
        show ?thesis
        proof (cases "mapR (input_batch o') ins")
          case (Inr bs)
          obtain r op' where "op_step op bs = (r, op')" by (cases "op_step op bs")
          then show ?thesis using u True Some OperatorNode Inr f
            by (cases r) (simp_all add: st Let_def upto_steps_update)
        qed (use u True Some OperatorNode f in \<open>simp add: st\<close>)
      qed
    qed (use u True f in \<open>simp add: st\<close>)
  qed (use u in \<open>simp add: st\<close>)
qed

lemma update_sink_upto:
  "upto_steps c c' \<Longrightarrow> rel_prod (=) upto_steps (update_sink i f c) (update_sink i f c')"
  using upto_steps_fields(3) [of c c'] by (auto simp: update_sink_def upto_steps_update split: option.split prod.split)

lemma check_declarations_upto:
  assumes "upto_steps c c'"
  shows "check_state_declarations c = check_state_declarations c'"
proof -
  obtain x where c': "c' = c\<lparr>ci_steps := x\<rparr>" using upto_steps_eq [OF assms] by blast
  have "state_budget c' = state_budget c" by (intro ext) (simp add: c' state_budget_def emitted_at_def split: state_bound.split)
  then have "check_declaration c' = check_declaration c"
    by (intro ext) (auto simp: c' check_declaration_def split: option.split node.split)
  then show ?thesis by (simp add: check_state_declarations_def c')
qed

lemma absorb_upto:
  assumes "upto_steps c c'"
  shows "rel_prod (=) upto_steps (absorb_results outs c) (absorb_results outs c')"
    "rel_prod (=) upto_steps (absorb_errors e c) (absorb_errors e c')"
  unfolding absorb_results_def absorb_errors_def upto_steps_fields(3) [OF assms]
  by (rule loopM_rel, rule update_sink_upto, assumption, rule assms)+

lemma pass_upto:
  assumes "upto_steps c c'"
  shows "rel_prod (=) upto_steps (pass d only c) (pass d only c')"
proof -
  have "rel_prod (=) (rel_prod upto_steps (=)) (loopM (pass_node d only) [0..<length (ci_nodes c')] (c, [], []))
      (loopM (pass_node d only) [0..<length (ci_nodes c')] (c', [], []))"
    by (rule loopM_rel [OF pass_node_upto]) (use assms in \<open>auto simp: rel_prod_conv\<close>)
  then obtain r c1 c1' outs errs where l: "loopM (pass_node d only) [0..<length (ci_nodes c)] (c, [], []) = (r, c1, outs, errs)"
      "loopM (pass_node d only) [0..<length (ci_nodes c')] (c', [], []) = (r, c1', outs, errs)" and u1: "upto_steps c1 c1'"
    using upto_steps_fields(1) [OF assms] by (auto simp: rel_prod_conv split: prod.splits)
  obtain r2 c2 c2' where a: "absorb_results outs c1 = (r2, c2)" "absorb_results outs c1' = (r2, c2')" and u2: "upto_steps c2 c2'"
    using absorb_upto(1) [OF u1, of outs] by (auto simp: rel_prod_conv split: prod.splits)
  have "rel_prod (=) upto_steps (loopM absorb_errors errs c2) (loopM absorb_errors errs c2')"
    by (rule loopM_rel [OF absorb_upto(2) u2])
  then show ?thesis
    unfolding pass_def l using check_declarations_upto [OF u1] u1 u2 a
    by (cases r; cases "check_state_declarations c1'"; cases r2) simp_all
qed

lemma seal_upto:
  assumes "upto_steps c c'"
  shows "rel_prod (=) upto_steps (seal_epochs ds c) (seal_epochs ds c')"
  unfolding seal_epochs_def
proof (rule loopM_rel [where R = upto_steps])
  show "upto_steps c c'" by (rule assms)
  fix d c c'
  assume "upto_steps c c'"
  from pass_upto [OF this, of d None] obtain r c1 c1' where "pass d None c = (r, c1)" "pass d None c' = (r, c1')" "upto_steps c1 c1'"
    by (auto simp: rel_prod_conv split: prod.splits)
  then show "rel_prod (=) upto_steps (case step d c of (Inl e, c') \<Rightarrow> (Err e, c') | (Inr _, c') \<Rightarrow> (Ok (), c'))
      (case step d c' of (Inl e, c') \<Rightarrow> (Err e, c') | (Inr _, c') \<Rightarrow> (Ok (), c'))"
    using upto_steps_fields(4) [of c1 c1'] by (cases r) (simp_all add: step_def upto_steps_update)
qed

section \<open>Recovery\<close>

lemma get_node_nth: "i < length ns \<Longrightarrow> get_node ns i = ns ! i"
  by (simp add: get_node_def nth_opt_def split: option.split)

lemma same_wiring_nodes:
  assumes "same_wiring c c'"
  shows "list_all2 node_like (ci_nodes c) (ci_nodes c')"
proof (rule list_all2_all_nthI)
  show len: "length (ci_nodes c) = length (ci_nodes c')" using assms by (simp add: same_wiring_def)
  fix i assume "i < length (ci_nodes c)"
  then show "node_like (ci_nodes c ! i) (ci_nodes c' ! i)"
    using assms len by (simp add: same_wiring_def node_like_def flip: get_node_nth)
qed

lemma same_wiring_sinks:
  assumes "same_wiring c c'" "reach c H E" "reach c' H' E'"
  shows "list_all2 sink_like (ci_sinks c) (ci_sinks c')"
proof (rule list_all2_all_nthI)
  have l2: "list_all2 (rel_option (\<lambda>s s'. sk_node s' = sk_node s \<and> sk_ancestors s' = sk_ancestors s)) (ci_sinks c) (ci_sinks c')"
    using assms(1) by (simp add: same_wiring_def)
  show len: "length (ci_sinks c) = length (ci_sinks c')" by (rule list_all2_lengthD [OF l2])
  fix k assume k: "k < length (ci_sinks c)"
  have rel: "rel_option (\<lambda>s s'. sk_node s' = sk_node s \<and> sk_ancestors s' = sk_ancestors s) (ci_sinks c ! k) (ci_sinks c' ! k)"
    by (rule list_all2_nthD [OF l2 k])
  show "sink_like (ci_sinks c ! k) (ci_sinks c' ! k)"
  proof (cases "ci_sinks c ! k")
    case None
    then show ?thesis using rel by (simp add: sink_like_def)
  next
    case (Some s)
    then obtain s' where s': "ci_sinks c' ! k = Some s'" "sk_node s' = sk_node s" "sk_ancestors s' = sk_ancestors s"
      using rel by (auto simp: option_rel_Some1)
    have at: "sink_at c k = Ok s" "sink_at c' k = Ok s'" using Some s' k len by (simp_all add: sink_at_def nth_opt_def)
    obtain n n' where n: "get_node (ci_nodes c) (sk_node s) = Some n" "rs_schema (sk_result s) = node_schema n"
      "get_node (ci_nodes c') (sk_node s) = Some n'" "rs_schema (sk_result s') = node_schema n'"
      using sink_stores(3) [OF assms(2) at(1)] sink_stores(3) [OF assms(3) at(2)] s'(2) by auto
    have "map_option node_config (get_node (ci_nodes c') (sk_node s)) = map_option node_config (get_node (ci_nodes c) (sk_node s))"
      using assms(1) by (simp add: same_wiring_def)
    then have "node_config n' = node_config n" using n by simp
    from node_config_eq(1) [OF this] n show ?thesis
      using Some s' sink_stores(2) [OF assms(2) at(1)] sink_stores(2) [OF assms(3) at(2)]
      by (simp add: sink_like_def store_holds_def)
  qed
qed

lemma reach_emitted:
  assumes "reach c H E"
  shows "length (ci_emitted c) = length (ci_nodes c)" "\<forall>x \<in> set (ci_emitted c). 0 \<le> x \<and> x < 2 ^ 64"
proof -
  have ok: "circuit_ok c H E" using reach_inv [OF assms] by (simp add: circuit_inv_def)
  then show len: "length (ci_emitted c) = length (ci_nodes c)" by (simp add: circuit_ok_def)
  have "\<forall>i < length (ci_emitted c). ci_emitted c ! i = min (int (length (H i))) usize_max" using ok len by (simp add: circuit_ok_def)
  then show "\<forall>x \<in> set (ci_emitted c). 0 \<le> x \<and> x < 2 ^ 64" by (auto simp: in_set_conv_nth usize_max_def)
qed

lemma seal_fixed:
  assumes "reach c H E" "seal_epochs ds c = (Ok (), c')"
  shows "ci_sources c' = ci_sources c \<and> ci_admitted c' = ci_admitted c"
  using assms
proof (induction ds arbitrary: c H E)
  case (Cons d ds)
  obtain e c1 where c1: "step d c = (Ok e, c1)" and rest: "seal_epochs ds c1 = (Ok (), c')"
    using Cons.prems(2) by (auto simp: seal_epochs_def split: prod.splits sum.splits)
  obtain c2 where c2: "pass d None c = (Ok (), c2)" "c1 = c2\<lparr>ci_epoch := ci_epoch c2 + 1\<rparr>"
    using c1 by (auto simp: step_def split: prod.splits sum.splits)
  have "circuit_ok c H E" using reach_inv [OF Cons.prems(1)] by (simp add: circuit_inv_def)
  from pass_Ok(2) [OF c2(1) this closed_subset_None] have "ci_sources c1 = ci_sources c \<and> ci_admitted c1 = ci_admitted c"
    using c2(2) by (simp add: same_shape_def)
  then show ?case using Cons.IH [OF reach_step [OF Cons.prems(1) c1] rest] by simp
qed (simp add: seal_epochs_def)

lemma restore_sealed:
  assumes "reach c0 H E" "seal_epochs ds c0 = (Ok (), c)" "snapshot_fits c"
  shows "\<exists>r. restore (snapshot c) c0 = (Ok (), r) \<and> upto_steps r c"
proof -
  obtain H' E' where c: "reach c H' E'" "same_wiring c0 c" using seal_reach [OF assms(1,2)] by blast
  let ?r = "c0\<lparr>ci_epoch := ci_epoch c, ci_emitted := ci_emitted c, ci_sinks := ci_sinks c, ci_nodes := ci_nodes c\<rparr>"
  have "upto_steps ?r c" using seal_fixed [OF assms(1,2)] by (cases c; cases c0) (simp add: upto_steps_def)
  then show ?thesis
    using restore_snapshot [OF assms(3) same_wiring_nodes [OF c(2)] same_wiring_sinks [OF c(2) assms(1) c(1)] reach_emitted [OF c(1)]]
    by blast
qed

section \<open>Claims\<close>

text \<open>
  C5. Recovery. Take a circuit, let it seal any number of epochs, and snapshot it. When the stores
  hold machine values (64-bit integers and weights, strings that are valid UTF-8) and every block of the snapshot fits its 32-bit
  length field, restoring it into the circuit as it was built succeeds and gives
  the sealed circuit, operator state, answer and error stores, ledger and epoch included; only the
  diagnostic step counters are not in a snapshot. From there on the restored circuit does what the
  original would: replaying any suffix of epochs gives the same outcome, failures included, and again the
  same circuit but for the step counters, so the same answer of every sink.
\<close>

theorem recovery_replays_suffix:
  assumes "reach c0 H E" "seal_epochs ds c0 = (Ok (), c)" "snapshot_fits c"
  shows "\<exists>r. restore (snapshot c) c0 = (Ok (), r) \<and> r\<lparr>ci_steps := ci_steps c\<rparr> = c
    \<and> (\<forall>ds' res c'. seal_epochs ds' c = (res, c') \<longrightarrow>
        (\<exists>r'. seal_epochs ds' r = (res, r') \<and> r'\<lparr>ci_steps := ci_steps c'\<rparr> = c'
          \<and> (\<forall>k. answer_of r' k = answer_of c' k)))"
proof -
  obtain r where r: "restore (snapshot c) c0 = (Ok (), r)" "upto_steps r c" using restore_sealed [OF assms] by blast
  have "\<exists>r'. seal_epochs ds' r = (res, r') \<and> r'\<lparr>ci_steps := ci_steps c'\<rparr> = c' \<and> (\<forall>k. answer_of r' k = answer_of c' k)"
    if "seal_epochs ds' c = (res, c')" for ds' res c'
  proof -
    have "rel_prod (=) upto_steps (seal_epochs ds' r) (res, c')" using seal_upto [OF r(2), of ds'] that by simp
    then obtain r' where r': "seal_epochs ds' r = (res, r')" "upto_steps r' c'" by (cases "seal_epochs ds' r") auto
    then show ?thesis
      using upto_steps_eq [OF r'(2)] upto_steps_fields [OF r'(2)] by (simp add: answer_of_def sink_at_def)
  qed
  then show ?thesis using r(1) upto_steps_eq [OF r(2)] by (intro exI [of _ r]) simp
qed

theorem recovery_replays_suffix_witness:
  "\<exists>r r'. restore (snapshot (snd (seal_epochs ex_epochs ex_primed))) ex_primed = (Ok (), r)
    \<and> ci_nodes r = ci_nodes (snd (seal_epochs ex_epochs ex_primed))
    \<and> seal_epochs ex_one_epoch r = (Ok (), r')
    \<and> answer_of r' 0 = Ok \<lparr>ca_schema = ex_t_schema, ca_entries = [([VInt 1], 1)]\<rparr>"
proof -
  let ?c = "snd (seal_epochs ex_epochs ex_primed)" and ?c' = "snd (seal_epochs ex_one_epoch (snd (seal_epochs ex_epochs ex_primed)))"
  have "snapshot_fits ?c" "fst (seal_epochs ex_one_epoch ?c) = Ok ()"
    and a: "answer_of ?c' 0 = Ok \<lparr>ca_schema = ex_t_schema, ca_entries = [([VInt 1], 1)]\<rparr>" by code_simp+
  then have fits: "snapshot_fits ?c" and s: "seal_epochs ex_one_epoch ?c = (Ok (), ?c')" by (simp_all add: prod_eq_iff)
  obtain r where r: "restore (snapshot ?c) ex_primed = (Ok (), r)" "r\<lparr>ci_steps := ci_steps ?c\<rparr> = ?c"
      "\<exists>r'. seal_epochs ex_one_epoch r = (Ok (), r') \<and> (\<forall>k. answer_of r' k = answer_of ?c' k)"
    using recovery_replays_suffix [OF ex_primed_reach ex_seals(1) fits] s by blast
  have "ci_nodes (r\<lparr>ci_steps := ci_steps ?c\<rparr>) = ci_nodes ?c" by (rule arg_cong [OF r(2)])
  then show ?thesis using r(1,3) a by auto
qed

end
