(* ===== verification/Log_Record.thy ===== *)
theory Log_Record
  imports Codec
begin

text \<open>
  The on-disk record format of the log (\<open>schweep-log/src/record.rs\<close>) with its errors (\<open>error.rs\<close>): the
  payload encoding, the frame of length, CRC and payload, and the reader that treats a short or
  failing frame as the torn tail of a log whose process died.
\<close>

section \<open>Records\<close>

datatype log_record =
    LAppend (la_source: string) (la_token: string) (la_table: string) (la_entries: entries)
  | LSealEpoch nat

datatype log_error =
    LogIo string
  | NotADirectory string
  | LogCorrupt string
  | LogUnknownTable string
  | LogZSet zset_error
  | TokenReused string string
  | LogEpochOutOfRange nat nat
  | EpochCompacted nat nat
  | NothingToCompact nat nat
  | InjectedFault string

definition put_u64 :: "nat \<Rightarrow> bytes" where
  "put_u64 n = be_u64 (of_nat n)"

definition put_i64 :: "int \<Rightarrow> bytes" where
  "put_i64 i = be_u64 (i64_bits i)"

definition put_str :: "string \<Rightarrow> bytes" where
  "put_str s = put_u64 (length s) @ str_bytes s"

fun put_value :: "sql_value \<Rightarrow> bytes" where
  "put_value VNull = [0]"
| "put_value (VBool b) = [1, if b then 1 else 0]"
| "put_value (VInt i) = 2 # put_i64 i"
| "put_value (VFloat x) = 3 # be_u64 x"
| "put_value (VStr s) = 4 # put_str s"

definition put_entry :: "row \<times> int \<Rightarrow> bytes" where
  "put_entry e = put_u64 (length (fst e)) @ concat (map put_value (fst e)) @ put_i64 (snd e)"

fun record_encode :: "log_record \<Rightarrow> bytes" where
  "record_encode (LAppend source token table es) =
    1 # put_str source @ put_str token @ put_str table @ put_u64 (length es) @ concat (map put_entry es)"
| "record_encode (LSealEpoch epoch) = 2 # put_u64 epoch"

section \<open>The reader\<close>

text \<open>A \<open>Reader\<close> is the part of the payload it has not consumed.\<close>

type_synonym 'a reader = "bytes \<Rightarrow> (log_error, 'a \<times> bytes) result"

definition short_payload :: log_error where
  "short_payload = LogCorrupt ''record payload is short''"

definition rd_take :: "nat \<Rightarrow> bytes reader" where
  "rd_take n bs = ok_or (take_bytes n bs) short_payload"

definition rd_u8 :: "u8 reader" where
  "rd_u8 bs = (case bs of [] \<Rightarrow> Err short_payload | b # rest \<Rightarrow> Ok (b, rest))"

definition rd_u64 :: "64 word reader" where
  "rd_u64 bs = bindR (rd_take 8 bs) (\<lambda>(raw, rest). Ok (u64_be raw, rest))"

definition rd_i64 :: "int reader" where
  "rd_i64 bs = bindR (rd_u64 bs) (\<lambda>(w, rest). Ok (bits_i64 w, rest))"

definition rd_string :: "string reader" where
  "rd_string bs = bindR (rd_u64 bs) (\<lambda>(len, r1). bindR (rd_take (unat len) r1) (\<lambda>(raw, r2).
    bindR (ok_or (from_utf8 raw) (LogCorrupt ''string is not UTF-8'')) (\<lambda>s. Ok (s, r2))))"

definition rd_value :: "sql_value reader" where
  "rd_value bs = bindR (rd_u8 bs) (\<lambda>(tag, rest).
    if tag = 0 then Ok (VNull, rest)
    else if tag = 1 then bindR (rd_u8 rest) (\<lambda>(b, r). Ok (VBool (b \<noteq> 0), r))
    else if tag = 2 then bindR (rd_i64 rest) (\<lambda>(i, r). Ok (VInt i, r))
    else if tag = 3 then bindR (rd_u64 rest) (\<lambda>(x, r). Ok (VFloat x, r))
    else if tag = 4 then bindR (rd_string rest) (\<lambda>(s, r). Ok (VStr s, r))
    else Err (LogCorrupt ''unknown value tag''))"

text \<open>\<open>for _ in 0..count\<close> over a reader.\<close>

fun rd_many :: "nat \<Rightarrow> 'a reader \<Rightarrow> 'a list reader" where
  "rd_many 0 rd bs = Ok ([], bs)"
| "rd_many (Suc n) rd bs = bindR (rd bs) (\<lambda>(x, r1). bindR (rd_many n rd r1) (\<lambda>(xs, r2). Ok (x # xs, r2)))"

definition rd_entry :: "(row \<times> int) reader" where
  "rd_entry bs = bindR (rd_u64 bs) (\<lambda>(width, r1). bindR (rd_many (unat width) rd_value r1) (\<lambda>(vs, r2).
    bindR (rd_i64 r2) (\<lambda>(w, r3). Ok ((vs, w), r3))))"

definition record_decode :: "bytes \<Rightarrow> (log_error, log_record) result" where
  "record_decode payload = bindR (rd_u8 payload) (\<lambda>(tag, r).
    if tag = 1 then
      bindR (rd_string r) (\<lambda>(source, r1).
      bindR (rd_string r1) (\<lambda>(token, r2).
      bindR (rd_string r2) (\<lambda>(table, r3).
      bindR (rd_u64 r3) (\<lambda>(count, r4).
      bindR (rd_many (unat count) rd_entry r4) (\<lambda>(es, _). Ok (LAppend source token table es))))))
    else if tag = 2 then bindR (rd_u64 r) (\<lambda>(epoch, _). Ok (LSealEpoch (unat epoch)))
    else Err (LogCorrupt ''unknown record tag''))"

section \<open>Checksums and frames\<close>

text \<open>FNV-1a over the payload.\<close>

definition content_hash :: "log_record \<Rightarrow> 64 word" where
  "content_hash r = foldl (\<lambda>h b. (h XOR ucast b) * 0x100000001B3) 0xcbf29ce484222325 (record_encode r)"

definition crc_bit :: "32 word \<Rightarrow> 32 word" where
  "crc_bit crc = drop_bit 1 crc XOR (if crc AND 1 \<noteq> 0 then 0xEDB88320 else 0)"

definition crc_byte :: "32 word \<Rightarrow> u8 \<Rightarrow> 32 word" where
  "crc_byte crc b = (crc_bit ^^ 8) (crc XOR ucast b)"

definition crc_new :: "32 word" where
  "crc_new = 0xFFFFFFFF"

definition crc_update :: "32 word \<Rightarrow> bytes \<Rightarrow> 32 word" where
  "crc_update crc bs = foldl crc_byte crc bs"

definition crc_finish :: "32 word \<Rightarrow> 32 word" where
  "crc_finish crc = NOT crc"

definition crc32 :: "bytes \<Rightarrow> 32 word" where
  "crc32 bs = crc_finish (crc_update crc_new bs)"

definition frame :: "bytes \<Rightarrow> bytes" where
  "frame payload = be_u32 (of_nat (length payload)) @ be_u32 (crc32 payload) @ payload"

text \<open>
  Reading one frame: \<open>None\<close> at the torn tail, otherwise the record, the bytes it took and the rest. The
  slice reader (\<open>read_framed\<close>) and the stream readers (\<open>read_one\<close> of \<open>log.rs\<close>, \<open>next_record\<close> of
  \<open>stream.rs\<close>) are the same function of the bytes that are left.
\<close>

definition read_framed :: "bytes \<Rightarrow> (log_error, (log_record \<times> nat \<times> bytes) option) result" where
  "read_framed bs = (case take_bytes 8 bs of
      None \<Rightarrow> Ok None
    | Some (header, r) \<Rightarrow>
        let len = unat (u32_be (take 4 header)); expected = u32_be (drop 4 header) in
        case take_bytes len r of
          None \<Rightarrow> Ok None
        | Some (payload, rest) \<Rightarrow>
            if crc32 payload \<noteq> expected then Ok None
            else bindR (record_decode payload) (\<lambda>rec. Ok (Some (rec, 8 + len, rest))))"

section \<open>What the types guarantee of a record\<close>

fun record_ok :: "log_record \<Rightarrow> bool" where
  "record_ok (LAppend source token table es) \<longleftrightarrow>
    str_ok source \<and> str_ok token \<and> str_ok table \<and> fits_u64 (length source) \<and> fits_u64 (length token) \<and> fits_u64 (length table)
    \<and> fits_u64 (length es)
    \<and> list_all (\<lambda>(r, w). in_i64 w \<and> fits_u64 (length r)
        \<and> list_all (\<lambda>v. value_ok v \<and> (case v of VStr s \<Rightarrow> fits_u64 (length s) | _ \<Rightarrow> True)) r) es"
| "record_ok (LSealEpoch epoch) \<longleftrightarrow> fits_u64 epoch"

text \<open>A record the log writes: its payload also fits the 32-bit length of its frame.\<close>

definition framed_ok :: "log_record \<Rightarrow> bool" where
  "framed_ok r \<longleftrightarrow> record_ok r \<and> fits_u32 (length (record_encode r))"

section \<open>Decoding inverts encoding\<close>

lemmas reader_defs = rd_take_def rd_u8_def rd_u64_def rd_i64_def rd_string_def ok_or_def

lemma rd_u8_cons [simp]: "rd_u8 (b # rest) = Ok (b, rest)"
  by (simp add: rd_u8_def)

lemma rd_u64_put [simp]: "fits_u64 n \<Longrightarrow> rd_u64 (put_u64 n @ rest) = Ok (of_nat n, rest)"
  by (simp add: rd_u64_def rd_take_def put_u64_def ok_or_def)

lemma rd_u64_bits [simp]: "rd_u64 (be_u64 w @ rest) = Ok (w, rest)"
  by (simp add: rd_u64_def rd_take_def ok_or_def)

lemma rd_i64_put [simp]: "in_i64 i \<Longrightarrow> rd_i64 (put_i64 i @ rest) = Ok (i, rest)"
  by (simp add: rd_i64_def put_i64_def)

lemma rd_string_put [simp]: "str_ok s \<Longrightarrow> fits_u64 (length s) \<Longrightarrow> rd_string (put_str s @ rest) = Ok (s, rest)"
  by (simp add: rd_string_def put_str_def rd_take_def ok_or_def)

definition cell_ok :: "sql_value \<Rightarrow> bool" where
  "cell_ok v \<longleftrightarrow> value_ok v \<and> (case v of VStr s \<Rightarrow> fits_u64 (length s) | _ \<Rightarrow> True)"

lemma rd_value_put [simp]: "cell_ok v \<Longrightarrow> rd_value (put_value v @ rest) = Ok (v, rest)"
  by (cases v) (simp_all add: rd_value_def cell_ok_def)

text \<open>A loop over a reader inverts the concatenation of what a writer of its items puts.\<close>

lemma rd_many_put:
  assumes "\<And>x rest. x \<in> set xs \<Longrightarrow> rd (put x @ rest) = Ok (x, rest)"
  shows "rd_many (length xs) rd (concat (map put xs) @ rest) = Ok (xs, rest)"
  using assms by (induction xs) simp_all

lemma rd_entry_put:
  assumes "in_i64 (snd e)" "fits_u64 (length (fst e))" "list_all cell_ok (fst e)"
  shows "rd_entry (put_entry e @ rest) = Ok (e, rest)"
proof -
  have "rd_many (length (fst e)) rd_value (concat (map put_value (fst e)) @ r) = Ok (fst e, r)" for r
    by (rule rd_many_put) (use assms(3) in \<open>simp add: list_all_iff\<close>)
  then show ?thesis using assms by (simp add: rd_entry_def put_entry_def)
qed

lemma record_decode_encode: "record_ok r \<Longrightarrow> record_decode (record_encode r) = Ok r"
proof (cases r)
  case (LAppend source token table es)
  assume ok: "record_ok r"
  have "rd_many (length es) rd_entry (concat (map put_entry es) @ rest) = Ok (es, rest)" for rest
    by (rule rd_many_put, rule rd_entry_put) (use ok LAppend in \<open>auto simp: list_all_iff cell_ok_def\<close>)
  from this [of "[]"] show ?thesis using ok LAppend by (simp add: record_decode_def)
next
  case (LSealEpoch epoch)
  assume "record_ok r"
  then show ?thesis using LSealEpoch rd_u64_put [of epoch "[]"] by (simp add: record_decode_def)
qed

section \<open>Whole frames and torn ones\<close>

definition framed :: "log_record \<Rightarrow> bytes" where
  "framed r = frame (record_encode r)"

lemma length_frame [simp]: "length (frame payload) = 8 + length payload"
  by (simp add: frame_def)

lemma framed_nonempty [simp]: "framed r \<noteq> []"
  by (simp add: framed_def frame_def flip: length_greater_0_conv)

lemma frame_header: "take_bytes 8 (frame payload @ rest) = Some (be_u32 (of_nat (length payload)) @ be_u32 (crc32 payload), payload @ rest)"
  by (simp add: frame_def take_bytes_def)

lemma read_framed_whole:
  assumes "framed_ok r"
  shows "read_framed (framed r @ rest) = Ok (Some (r, length (framed r), rest))"
  using assms
  by (simp add: read_framed_def framed_def frame_header framed_ok_def record_decode_encode)

text \<open>A frame cut anywhere before its end reads as the torn tail.\<close>

lemma read_framed_torn:
  assumes "framed_ok r" "n < length (framed r)"
  shows "read_framed (take n (framed r)) = Ok None"
proof (cases "n < 8")
  case True
  then show ?thesis by (simp add: read_framed_def take_bytes_def)
next
  case False
  let ?p = "record_encode r"
  let ?h = "be_u32 (of_nat (length ?p)) @ be_u32 (crc32 ?p)"
  have cut: "take n (framed r) = ?h @ take (n - 8) ?p" using False by (simp add: framed_def frame_def)
  have fit: "fits_u32 (length ?p)" using assms(1) by (simp add: framed_ok_def)
  have "take_bytes 8 (?h @ take (n - 8) ?p) = Some (?h, take (n - 8) ?p)" by (simp add: take_bytes_def)
  moreover have "take_bytes (length ?p) (take (n - 8) ?p) = None"
    using assms(2) False by (simp add: take_bytes_def framed_def)
  ultimately show ?thesis using fit by (simp add: read_framed_def cut)
qed

lemma read_framed_nil [simp]: "read_framed [] = Ok None"
  by (simp add: read_framed_def take_bytes_def)

lemma read_framed_shrinks: "read_framed bs = Ok (Some (r, n, rest)) \<Longrightarrow> length rest < length bs \<and> 8 \<le> n"
  by (auto simp: read_framed_def take_bytes_def Let_def bindR_eq_Ok split: option.splits if_splits intro!: diff_less)

end
