(* ===== verification/Text_Format.thy ===== *)
theory Text_Format
  imports Bytes "HOL-Library.Sublist"
begin

text \<open>
  The operations of Rust's strings that the text files of the durable layer are written and read with:
  number formatting and parsing, \<open>lines\<close>, \<open>split_once\<close>, \<open>rsplit_once\<close> and \<open>trim\<close>, with the round trips a
  reader of such a file rests on.
\<close>

section \<open>Numbers\<close>

definition radix_digit :: "int \<Rightarrow> char \<Rightarrow> int option" where
  "radix_digit radix c = (let n = int (of_char c) in
    let v = if 48 \<le> n \<and> n \<le> 57 then n - 48 else if 97 \<le> n \<and> n \<le> 122 then n - 87
            else if 65 \<le> n \<and> n \<le> 90 then n - 55 else radix in
    if v < radix then Some v else None)"

fun radix_value :: "int \<Rightarrow> int \<Rightarrow> string \<Rightarrow> int option" where
  "radix_value radix acc [] = Some acc"
| "radix_value radix acc (c # cs) = (case radix_digit radix c of None \<Rightarrow> None | Some d \<Rightarrow> radix_value radix (acc * radix + d) cs)"

text \<open>\<open>from_str_radix\<close> of an unsigned type: an optional plus sign, at least one digit, and no overflow.\<close>

definition parse_radix :: "int \<Rightarrow> nat \<Rightarrow> string \<Rightarrow> int option" where
  "parse_radix radix width s =
    (let ds = (case s of c # cs \<Rightarrow> if c = CHR ''+'' then cs else s | [] \<Rightarrow> []) in
     if ds = [] then None
     else case radix_value radix 0 ds of None \<Rightarrow> None | Some v \<Rightarrow> if v < 2 ^ width then Some v else None)"

definition parse_u64 :: "string \<Rightarrow> nat option" where
  "parse_u64 s = map_option nat (parse_radix 10 64 s)"

definition parse_hex_u32 :: "string \<Rightarrow> 32 word option" where
  "parse_hex_u32 s = map_option word_of_int (parse_radix 16 32 s)"

definition hex_digit :: "int \<Rightarrow> char" where
  "hex_digit d = char_of (nat (if d < 10 then 48 + d else 87 + d))"

fun hex_of :: "nat \<Rightarrow> int \<Rightarrow> string" where
  "hex_of 0 x = []"
| "hex_of (Suc n) x = hex_of n (x div 16) @ [hex_digit (x mod 16)]"

text \<open>\<open>{:08x}\<close> of a \<open>u32\<close> and \<open>{:08}\<close> of an unsigned integer.\<close>

definition show_hex8 :: "32 word \<Rightarrow> string" where
  "show_hex8 w = hex_of 8 (uint w)"

definition show_pad8 :: "nat \<Rightarrow> string" where
  "show_pad8 n = replicate (8 - length (show_nat n)) CHR ''0'' @ show_nat n"

lemma radix_value_append: "radix_value radix acc (xs @ ys) = Option.bind (radix_value radix acc xs) (\<lambda>a. radix_value radix a ys)"
  by (induction xs arbitrary: acc) (auto split: option.split)

lemma of_char_of_small: "n < 256 \<Longrightarrow> (of_char (char_of n) :: nat) = n"
  by simp

lemma radix_digit_decimal: "n < 10 \<Longrightarrow> radix_digit 10 (char_of (48 + n)) = Some (int n)"
  by (simp add: radix_digit_def)

lemma radix_value_show_nat: "radix_value 10 0 (show_nat n) = Some (int n)"
proof (induction n rule: less_induct)
  case (less n)
  show ?case
  proof (cases "n < 10")
    case True
    then show ?thesis by (simp add: show_nat.simps [of n] radix_digit_decimal)
  next
    case False
    have "int (n div 10) * 10 + int (n mod 10) = int n" by presburger
    then show ?thesis
      using False less.IH [of "n div 10"] radix_digit_decimal [of "n mod 10"]
      by (simp add: show_nat.simps [of n] radix_value_append)
  qed
qed

lemma show_nat_nonempty [simp]: "show_nat n \<noteq> []"
  by (simp add: show_nat.simps [of n])

definition dec_char :: "char \<Rightarrow> bool" where
  "dec_char c \<longleftrightarrow> (48 :: nat) \<le> of_char c \<and> of_char c \<le> (57 :: nat)"

definition hex_char :: "char \<Rightarrow> bool" where
  "hex_char c \<longleftrightarrow> dec_char c \<or> (97 :: nat) \<le> of_char c \<and> of_char c \<le> (102 :: nat)"

lemma show_nat_digits: "list_all dec_char (show_nat n)"
proof (induction n rule: less_induct)
  case (less n)
  then show ?case by (cases "n < 10") (simp_all add: show_nat.simps [of n] dec_char_def)
qed

lemma radix_value_zeros: "radix_value 10 0 (replicate k CHR ''0'' @ s) = radix_value 10 0 s"
  by (induction k) (simp_all add: radix_digit_def)

lemma not_plus_digit: "dec_char c \<Longrightarrow> c \<noteq> CHR ''+''" "hex_char c \<Longrightarrow> c \<noteq> CHR ''+''"
  by (auto simp: dec_char_def hex_char_def)

lemma parse_u64_digits:
  assumes "s \<noteq> []" "list_all dec_char s" "radix_value 10 0 s = Some (int n)" "fits_u64 n"
  shows "parse_u64 s = Some n"
proof (cases s)
  case Nil
  then show ?thesis using assms(1) by simp
next
  case (Cons c cs)
  then have "c \<noteq> CHR ''+''" using assms(2) not_plus_digit(1) [of c] by simp
  then show ?thesis using assms(3,4) by (simp add: Cons parse_u64_def parse_radix_def fits_u64_def)
qed

lemma parse_show_nat [simp]: "fits_u64 n \<Longrightarrow> parse_u64 (show_nat n) = Some n"
  by (rule parse_u64_digits) (simp_all add: show_nat_digits radix_value_show_nat)

lemma show_pad8_digits: "list_all dec_char (show_pad8 n)"
  using show_nat_digits [of n] by (auto simp: show_pad8_def list_all_iff dec_char_def)

lemma parse_show_pad8 [simp]: "fits_u64 n \<Longrightarrow> parse_u64 (show_pad8 n) = Some n"
  by (rule parse_u64_digits) (simp_all add: show_pad8_digits, simp_all add: show_pad8_def radix_value_zeros radix_value_show_nat)

lemma radix_value_hex:
  "radix_value 16 0 (hex_of n x) = Some (x mod 16 ^ n)"
proof (induction n arbitrary: x)
  case (Suc n)
  have "radix_digit 16 (hex_digit d) = Some d" if "0 \<le> d" "d < 16" for d
  proof (cases "d < 10")
    case True
    have "nat (48 + d) \<le> 57" "48 \<le> nat (48 + d)" using that True by linarith+
    then show ?thesis using True that by (simp add: radix_digit_def hex_digit_def Let_def)
  next
    case False
    have "nat (87 + d) \<le> 122" "97 \<le> nat (87 + d)" using that False by linarith+
    then show ?thesis using False that by (simp add: radix_digit_def hex_digit_def Let_def)
  qed
  then show ?case
    by (simp add: radix_value_append Suc.IH zmod_zmult2_eq algebra_simps)
qed simp

lemma hex_of_digits: "list_all hex_char (hex_of n x)"
proof (induction n arbitrary: x)
  case (Suc n)
  have "hex_char (hex_digit d)" if "0 \<le> d" "d < 16" for d
    using that by (auto simp: hex_digit_def hex_char_def dec_char_def)
  from this [of "x mod 16"] show ?case using Suc by simp
qed simp

lemma length_hex_of [simp]: "length (hex_of n x) = n"
  by (induction n arbitrary: x) simp_all

lemma parse_show_hex8 [simp]: "parse_hex_u32 (show_hex8 w) = Some w"
proof (cases "hex_of 8 (uint w)")
  case Nil
  then have "length (hex_of 8 (uint w)) = 0" by (simp only: list.size)
  then show ?thesis by simp
next
  case (Cons c cs)
  then have "c \<noteq> CHR ''+''" using hex_of_digits [of 8 "uint w"] not_plus_digit(2) [of c] by simp
  moreover have "uint w mod 16 ^ 8 = uint w" "uint w < 2 ^ 32" using uint_lt2p [of w] by simp_all
  ultimately show ?thesis
    using radix_value_hex [of 8 "uint w"]
    by (simp add: show_hex8_def Cons parse_hex_u32_def parse_radix_def)
qed

section \<open>Splitting\<close>

definition strip_cr :: "string \<Rightarrow> string" where
  "strip_cr s = (if s \<noteq> [] \<and> last s = CHR 0x0D then butlast s else s)"

text \<open>\<open>str::lines\<close>: a line ends at a line feed, whose carriage return goes with it.\<close>

function lines_of :: "string \<Rightarrow> string list" where
  "lines_of s = (if s = [] then []
    else let l = takeWhile (\<lambda>c. c \<noteq> CHR 0x0A) s; r = dropWhile (\<lambda>c. c \<noteq> CHR 0x0A) s in
      case r of [] \<Rightarrow> [l] | _ # rest \<Rightarrow> strip_cr l # lines_of rest)"
  by pat_completeness auto
termination
proof (relation "measure length", simp)
  fix s :: string and l r c rest
  assume "s \<noteq> []" "r = dropWhile (\<lambda>c. c \<noteq> CHR 0x0A) s" "r = c # rest"
  then have "length (c # rest) \<le> length s" using length_dropWhile_le [of "\<lambda>c. c \<noteq> CHR 0x0A" s] by simp
  then show "(rest, s) \<in> measure length" by simp
qed

declare lines_of.simps [simp del]

fun split_once :: "char \<Rightarrow> string \<Rightarrow> (string \<times> string) option" where
  "split_once c [] = None"
| "split_once c (d # s) = (if d = c then Some ([], s) else map_option (\<lambda>(a, b). (d # a, b)) (split_once c s))"

text \<open>The last occurrence of a pattern.\<close>

fun rsplit_once :: "string \<Rightarrow> string \<Rightarrow> (string \<times> string) option" where
  "rsplit_once pat [] = (if pat = [] then Some ([], []) else None)"
| "rsplit_once pat (c # s) = (case rsplit_once pat s of
      Some (a, b) \<Rightarrow> Some (c # a, b)
    | None \<Rightarrow> if prefix pat (c # s) then Some ([], drop (length pat) (c # s)) else None)"

text \<open>The UTF-8 forms of the characters with the property \<open>White_Space\<close>.\<close>

definition whitespace :: "string list" where
  "whitespace = [[CHR 0x20], [CHR 0x09], [CHR 0x0A], [CHR 0x0B], [CHR 0x0C], [CHR 0x0D],
    [CHR 0xC2, CHR 0x85], [CHR 0xC2, CHR 0xA0], [CHR 0xE1, CHR 0x9A, CHR 0x80]]
    @ map (\<lambda>c. [CHR 0xE2, CHR 0x80, c]) [CHR 0x80, CHR 0x81, CHR 0x82, CHR 0x83, CHR 0x84, CHR 0x85,
        CHR 0x86, CHR 0x87, CHR 0x88, CHR 0x89, CHR 0x8A, CHR 0xA8, CHR 0xA9, CHR 0xAF]
    @ [[CHR 0xE2, CHR 0x81, CHR 0x9F], [CHR 0xE3, CHR 0x80, CHR 0x80]]"

function strip_any :: "string list \<Rightarrow> string \<Rightarrow> string" where
  "strip_any ws s = (case find (\<lambda>w. w \<noteq> [] \<and> prefix w s) ws of None \<Rightarrow> s | Some w \<Rightarrow> strip_any ws (drop (length w) s))"
  by pat_completeness auto
termination
  by (relation "measure (\<lambda>(ws, s). length s)") (auto simp: find_Some_iff prefix_def)

declare strip_any.simps [simp del]

definition trim :: "string \<Rightarrow> string" where
  "trim s = rev (strip_any (map rev whitespace) (rev (strip_any whitespace s)))"

lemma lines_of_cons:
  assumes "CHR 0x0A \<notin> set l" "l = [] \<or> last l \<noteq> CHR 0x0D"
  shows "lines_of (l @ CHR 0x0A # rest) = l # lines_of rest"
proof -
  have "takeWhile (\<lambda>c. c \<noteq> CHR 0x0A) (l @ CHR 0x0A # rest) = l" using assms(1) by (subst takeWhile_append2) auto
  moreover have "dropWhile (\<lambda>c. c \<noteq> CHR 0x0A) (l @ CHR 0x0A # rest) = CHR 0x0A # rest" using assms(1) by (subst dropWhile_append2) auto
  ultimately show ?thesis using assms(2) by (subst lines_of.simps) (auto simp: strip_cr_def)
qed

lemma lines_of_nil [simp]: "lines_of [] = []"
  by (simp add: lines_of.simps)

lemma split_once_at: "c \<notin> set a \<Longrightarrow> split_once c (a @ c # b) = Some (a, b)"
  by (induction a) auto

lemma rsplit_once_after:
  assumes "rsplit_once pat (pat @ b) = Some ([], b)"
  shows "rsplit_once pat (a @ pat @ b) = Some (a, b)"
  using assms by (induction a) simp_all

text \<open>The pattern is not found in a text that misses one of its characters.\<close>

lemma rsplit_once_None: "c \<in> set pat \<Longrightarrow> c \<notin> set s \<Longrightarrow> rsplit_once pat s = None"
proof (induction s)
  case (Cons a s)
  then have "\<not> prefix pat (a # s)" using set_mono_prefix [of pat "a # s"] by auto
  then show ?case using Cons by simp
qed auto

lemma strip_any_None: "(\<And>w. w \<in> set ws \<Longrightarrow> w \<noteq> [] \<Longrightarrow> \<not> prefix w s) \<Longrightarrow> strip_any ws s = s"
  by (subst strip_any.simps) (auto split: option.split simp: find_Some_iff dest: nth_mem)

end
