(* ===== verification/Log_Fault.thy ===== *)
theory Log_Fault
  imports Ordered_Map Text_Format
begin

text \<open>
  The fault seams of the durable layer (\<open>schweep-log/src/fault.rs\<close>): a named instant between two durable
  operations, and the injector that fails the planned occurrence of one of them. A process that fails at
  a seam is a process that died there, so the seams are the crash points of the model.
\<close>

datatype seam =
    AckBeforeValidate
  | AckBeforeAppend
  | AckAfterAppendBeforeFsync
  | AckAfterFsyncBeforeIndex
  | AckAfterFsyncBeforeAck
  | SealBeforeRecord
  | SealAfterRecordBeforeFsync
  | SealAfterFsyncBeforeStep
  | SealAfterStepBeforeCounter
  | CheckpointBeforeStateFlush
  | CheckpointAfterStateFlushBeforeFsync
  | CheckpointAfterFsyncBeforeManifest
  | CheckpointAfterManifestBeforePublish
  | CheckpointAfterPublishBeforeCurrent
  | CheckpointAfterCurrentBeforeTrim
  | CheckpointAfterTrimBeforeCleanup
  | CompactBeforeSnapshot
  | CompactAfterWriteBeforeFsync
  | CompactAfterFsyncBeforeManifest
  | CompactAfterManifestBeforePublish
  | CompactAfterPublishBeforeSegment
  | CompactAfterSegmentBeforePointer
  | CompactAfterPointerBeforeTrim
  | CompactAfterTrimBeforeCleanup
  | RecoveryAfterCheckpointBeforeReplay
  | RecoveryMidReplay

definition seam_all :: "seam list" where
  "seam_all = [AckBeforeValidate, AckBeforeAppend, AckAfterAppendBeforeFsync, AckAfterFsyncBeforeIndex, AckAfterFsyncBeforeAck, SealBeforeRecord, SealAfterRecordBeforeFsync, SealAfterFsyncBeforeStep, SealAfterStepBeforeCounter, CheckpointBeforeStateFlush, CheckpointAfterStateFlushBeforeFsync, CheckpointAfterFsyncBeforeManifest, CheckpointAfterManifestBeforePublish, CheckpointAfterPublishBeforeCurrent, CheckpointAfterCurrentBeforeTrim, CheckpointAfterTrimBeforeCleanup, CompactBeforeSnapshot, CompactAfterWriteBeforeFsync, CompactAfterFsyncBeforeManifest, CompactAfterManifestBeforePublish, CompactAfterPublishBeforeSegment, CompactAfterSegmentBeforePointer, CompactAfterPointerBeforeTrim, CompactAfterTrimBeforeCleanup, RecoveryAfterCheckpointBeforeReplay, RecoveryMidReplay]"

fun seam_name :: "seam \<Rightarrow> string" where
  "seam_name AckBeforeValidate = ''AckBeforeValidate''"
| "seam_name AckBeforeAppend = ''AckBeforeAppend''"
| "seam_name AckAfterAppendBeforeFsync = ''AckAfterAppendBeforeFsync''"
| "seam_name AckAfterFsyncBeforeIndex = ''AckAfterFsyncBeforeIndex''"
| "seam_name AckAfterFsyncBeforeAck = ''AckAfterFsyncBeforeAck''"
| "seam_name SealBeforeRecord = ''SealBeforeRecord''"
| "seam_name SealAfterRecordBeforeFsync = ''SealAfterRecordBeforeFsync''"
| "seam_name SealAfterFsyncBeforeStep = ''SealAfterFsyncBeforeStep''"
| "seam_name SealAfterStepBeforeCounter = ''SealAfterStepBeforeCounter''"
| "seam_name CheckpointBeforeStateFlush = ''CheckpointBeforeStateFlush''"
| "seam_name CheckpointAfterStateFlushBeforeFsync = ''CheckpointAfterStateFlushBeforeFsync''"
| "seam_name CheckpointAfterFsyncBeforeManifest = ''CheckpointAfterFsyncBeforeManifest''"
| "seam_name CheckpointAfterManifestBeforePublish = ''CheckpointAfterManifestBeforePublish''"
| "seam_name CheckpointAfterPublishBeforeCurrent = ''CheckpointAfterPublishBeforeCurrent''"
| "seam_name CheckpointAfterCurrentBeforeTrim = ''CheckpointAfterCurrentBeforeTrim''"
| "seam_name CheckpointAfterTrimBeforeCleanup = ''CheckpointAfterTrimBeforeCleanup''"
| "seam_name CompactBeforeSnapshot = ''CompactBeforeSnapshot''"
| "seam_name CompactAfterWriteBeforeFsync = ''CompactAfterWriteBeforeFsync''"
| "seam_name CompactAfterFsyncBeforeManifest = ''CompactAfterFsyncBeforeManifest''"
| "seam_name CompactAfterManifestBeforePublish = ''CompactAfterManifestBeforePublish''"
| "seam_name CompactAfterPublishBeforeSegment = ''CompactAfterPublishBeforeSegment''"
| "seam_name CompactAfterSegmentBeforePointer = ''CompactAfterSegmentBeforePointer''"
| "seam_name CompactAfterPointerBeforeTrim = ''CompactAfterPointerBeforeTrim''"
| "seam_name CompactAfterTrimBeforeCleanup = ''CompactAfterTrimBeforeCleanup''"
| "seam_name RecoveryAfterCheckpointBeforeReplay = ''RecoveryAfterCheckpointBeforeReplay''"
| "seam_name RecoveryMidReplay = ''RecoveryMidReplay''"

fun seam_rank :: "seam \<Rightarrow> nat" where
  "seam_rank AckBeforeValidate = 0"
| "seam_rank AckBeforeAppend = 1"
| "seam_rank AckAfterAppendBeforeFsync = 2"
| "seam_rank AckAfterFsyncBeforeIndex = 3"
| "seam_rank AckAfterFsyncBeforeAck = 4"
| "seam_rank SealBeforeRecord = 5"
| "seam_rank SealAfterRecordBeforeFsync = 6"
| "seam_rank SealAfterFsyncBeforeStep = 7"
| "seam_rank SealAfterStepBeforeCounter = 8"
| "seam_rank CheckpointBeforeStateFlush = 9"
| "seam_rank CheckpointAfterStateFlushBeforeFsync = 10"
| "seam_rank CheckpointAfterFsyncBeforeManifest = 11"
| "seam_rank CheckpointAfterManifestBeforePublish = 12"
| "seam_rank CheckpointAfterPublishBeforeCurrent = 13"
| "seam_rank CheckpointAfterCurrentBeforeTrim = 14"
| "seam_rank CheckpointAfterTrimBeforeCleanup = 15"
| "seam_rank CompactBeforeSnapshot = 16"
| "seam_rank CompactAfterWriteBeforeFsync = 17"
| "seam_rank CompactAfterFsyncBeforeManifest = 18"
| "seam_rank CompactAfterManifestBeforePublish = 19"
| "seam_rank CompactAfterPublishBeforeSegment = 20"
| "seam_rank CompactAfterSegmentBeforePointer = 21"
| "seam_rank CompactAfterPointerBeforeTrim = 22"
| "seam_rank CompactAfterTrimBeforeCleanup = 23"
| "seam_rank RecoveryAfterCheckpointBeforeReplay = 24"
| "seam_rank RecoveryMidReplay = 25"

lemma seam_all_rank: "seam_all ! seam_rank s = s" "seam_rank s < length seam_all"
  by (cases s; simp add: seam_all_def)+

lemma seam_rank_inject [simp]: "seam_rank a = seam_rank b \<longleftrightarrow> a = b"
  by (metis seam_all_rank(1))

text \<open>The derived order of the enumeration, by position.\<close>

instantiation seam :: linorder
begin
definition less_eq_seam :: "seam \<Rightarrow> seam \<Rightarrow> bool" where
  "a \<le> b \<longleftrightarrow> seam_rank a \<le> seam_rank b"
definition less_seam :: "seam \<Rightarrow> seam \<Rightarrow> bool" where
  "a < b \<longleftrightarrow> seam_rank a < seam_rank b"
instance
  by standard (auto simp: less_eq_seam_def less_seam_def)
end

record fault_plan =
  fp_seam :: seam
  fp_occurrence :: nat

record fault_injector =
  fi_plan :: "fault_plan option"
  fi_seen :: "(seam, nat) btree"
  fi_fired :: "seam option"
  fi_reached :: "seam set"

definition inert :: fault_injector where
  "inert = \<lparr>fi_plan = None, fi_seen = [], fi_fired = None, fi_reached = {}\<rparr>"

definition planned :: "fault_plan \<Rightarrow> fault_injector" where
  "planned plan = inert\<lparr>fi_plan := Some plan\<rparr>"

definition reached :: "seam \<Rightarrow> fault_injector \<Rightarrow> bool \<times> fault_injector" where
  "reached s fi =
    (let count = bt_get_or 0 (fi_seen fi) s + 1;
         fi' = fi\<lparr>fi_reached := insert s (fi_reached fi), fi_seen := bt_insert s count (fi_seen fi)\<rparr> in
     case fi_plan fi of
       Some plan \<Rightarrow> if fp_seam plan = s \<and> fp_occurrence plan = count then (True, fi'\<lparr>fi_fired := Some s\<rparr>) else (False, fi')
     | None \<Rightarrow> (False, fi'))"

section \<open>What the injector promises\<close>

lemma reached_keeps_plan [simp]: "fi_plan (snd (reached s fi)) = fi_plan fi"
  by (simp add: reached_def Let_def split: option.split)

lemma reached_unplanned: "fi_plan fi = None \<Longrightarrow> fst (reached s fi) = False"
  by (simp add: reached_def Let_def)

lemma seam_all_complete: "s \<in> set seam_all"
  using seam_all_rank [of s] nth_mem by metis

text \<open>Distinct seams have distinct names, so the name in an error identifies where the process stopped.\<close>

lemma seam_name_inject: "seam_name a = seam_name b \<longleftrightarrow> a = b"
proof -
  have "distinct (map seam_name seam_all)" by (simp add: seam_all_def)
  then show ?thesis
    using seam_all_rank [of a] seam_all_rank [of b] by (metis distinct_conv_nth length_map nth_map)
qed

end
