(* ===== verification/Log_Pointer.thy ===== *)
theory Log_Pointer
  imports Log_Record Log_Fault
begin

text \<open>
  The two small files beside a segment: the \<open>LOG\<close> pointer that names the authoritative segment, snapshot
  and epoch (\<open>Pointer\<close> of \<open>schweep-log/src/log.rs\<close>), and the dedup ledger that carries acknowledged tokens
  across a compaction (\<open>dedup.rs\<close>). Both read back what was written, and both detect a damaged file by
  its CRC.
\<close>

section \<open>The pointer\<close>

record pointer =
  pt_segment :: string
  pt_snapshot :: "string option"
  pt_retained_from :: nat

definition nl :: string where
  "nl = [CHR 0x0A]"

definition pointer_body :: "pointer \<Rightarrow> string" where
  "pointer_body p = ''schweep-log pointer v1'' @ nl @ ''segment='' @ pt_segment p @ nl
    @ ''snapshot='' @ (case pt_snapshot p of Some s \<Rightarrow> s | None \<Rightarrow> ''-'') @ nl
    @ ''retained_from='' @ show_nat (pt_retained_from p) @ nl"

definition pointer_encode :: "pointer \<Rightarrow> bytes" where
  "pointer_encode p = str_bytes (pointer_body p @ ''crc='' @ show_hex8 (crc32 (str_bytes (pointer_body p))) @ nl)"

text \<open>One line of the body, over the fields read so far.\<close>

type_synonym pointer_fields = "string option \<times> string option \<times> nat"

definition pointer_line :: "pointer_fields \<Rightarrow> string \<Rightarrow> (log_error, pointer_fields) result" where
  "pointer_line got line = (case got of (segment, snapshot, retained) \<Rightarrow>
    (case split_once CHR ''='' line of
       None \<Rightarrow> Ok got
     | Some (k, v) \<Rightarrow>
         if k = ''segment'' then Ok (Some v, snapshot, retained)
         else if k = ''snapshot'' \<and> v = ''-'' then Ok (segment, None, retained)
         else if k = ''snapshot'' then Ok (segment, Some v, retained)
         else if k = ''retained_from'' then
           bindR (ok_or (parse_u64 v) (LogCorrupt ''pointer epoch is not a number'')) (\<lambda>n. Ok (segment, snapshot, n))
         else Ok got))"

definition pointer_decode :: "bytes \<Rightarrow> (log_error, pointer) result" where
  "pointer_decode bs =
    bindR (ok_or (from_utf8 bs) (LogCorrupt ''pointer is not UTF-8'')) (\<lambda>txt.
    bindR (ok_or (rsplit_once ''crc='' txt) (LogCorrupt ''pointer has no crc'')) (\<lambda>(body, crc_line).
    bindR (ok_or (parse_hex_u32 (trim crc_line)) (LogCorrupt ''pointer crc is not hex'')) (\<lambda>expected.
    if crc32 (str_bytes body) \<noteq> expected then Err (LogCorrupt ''pointer failed its CRC'')
    else bindR (foldR pointer_line (None, None, 0) (lines_of body)) (\<lambda>(segment, snapshot, retained).
      bindR (ok_or segment (LogCorrupt ''pointer names no segment'')) (\<lambda>seg.
        Ok \<lparr>pt_segment = seg, pt_snapshot = snapshot, pt_retained_from = retained\<rparr>)))))"

section \<open>The dedup ledger\<close>

definition put_token :: "string \<times> 64 word \<Rightarrow> bytes" where
  "put_token t = put_str (fst t) @ be_u64 (snd t)"

definition dedup_body :: "(string, 64 word) btree \<Rightarrow> bytes" where
  "dedup_body tokens = put_u64 (length tokens) @ concat (map put_token tokens)"

definition dedup_encode :: "(string, 64 word) btree \<Rightarrow> bytes" where
  "dedup_encode tokens = be_u32 (crc32 (dedup_body tokens)) @ dedup_body tokens"

definition ledger_short :: log_error where
  "ledger_short = LogCorrupt ''dedup ledger is short''"

definition take_u64 :: "64 word reader" where
  "take_u64 bs = bindR (ok_or (take_bytes 8 bs) ledger_short) (\<lambda>(raw, rest). Ok (u64_be raw, rest))"

definition rd_token :: "(string \<times> 64 word) reader" where
  "rd_token bs = bindR (take_u64 bs) (\<lambda>(len, r1).
    bindR (ok_or (take_bytes (unat len) r1) ledger_short) (\<lambda>(raw, r2).
    bindR (ok_or (from_utf8 raw) (LogCorrupt ''dedup token is not UTF-8'')) (\<lambda>token.
    bindR (take_u64 r2) (\<lambda>(hash, r3). Ok ((token, hash), r3)))))"

definition dedup_decode :: "bytes \<Rightarrow> (log_error, (string, 64 word) btree) result" where
  "dedup_decode bs =
    bindR (ok_or (take_bytes 4 bs) ledger_short) (\<lambda>(stored, body).
    if crc32 body \<noteq> u32_be stored then Err (LogCorrupt ''dedup ledger failed its CRC'')
    else bindR (take_u64 body) (\<lambda>(count, r).
      bindR (rd_many (unat count) rd_token r) (\<lambda>(ts, _).
        Ok (bt_collect ts))))"

section \<open>Round trips\<close>

lemma utf8_valid_append: "utf8_valid xs \<Longrightarrow> utf8_valid ys \<Longrightarrow> utf8_valid (xs @ ys)"
proof (induction xs rule: utf8_valid.induct)
  case (2 a rest)
  note first = utf8_valid.simps(2) [of a]
  consider "a < 128" | "\<not> a < 128" "194 \<le> a \<and> a \<le> 223" | "\<not> a < 128" "\<not> (194 \<le> a \<and> a \<le> 223)" "224 \<le> a \<and> a \<le> 239"
    | "\<not> a < 128" "\<not> (194 \<le> a \<and> a \<le> 223)" "\<not> (224 \<le> a \<and> a \<le> 239)" "240 \<le> a \<and> a \<le> 244"
    using "2.prems"(1) by (simp only: first split: if_splits) blast+
  then show ?case
  proof cases
    case 1
    then show ?thesis using "2.IH"(1) "2.prems" by (simp add: first del: utf8_valid.simps(2))
  next
    case 2
    then obtain b r where "rest = b # r" using "2.prems"(1) by (auto simp: first simp del: utf8_valid.simps(2) split: list.splits)
    then show ?thesis using "2.IH"(2) [OF 2] "2.prems" 2 by (simp add: first del: utf8_valid.simps(2))
  next
    case 3
    then obtain b c r where "rest = b # c # r" using "2.prems"(1) by (auto simp: first simp del: utf8_valid.simps(2) split: list.splits)
    then show ?thesis using "2.IH"(3) [OF 3] "2.prems" 3 by (auto simp: first simp del: utf8_valid.simps(2))
  next
    case 4
    then obtain b c d r where "rest = b # c # d # r" using "2.prems"(1) by (auto simp: first simp del: utf8_valid.simps(2) split: list.splits)
    then show ?thesis using "2.IH"(4) [OF 4] "2.prems" 4 by (auto simp: first simp del: utf8_valid.simps(2))
  qed
qed simp

lemma str_ok_append: "str_ok s \<Longrightarrow> str_ok t \<Longrightarrow> str_ok (s @ t)"
  by (simp add: str_ok_def str_bytes_def utf8_valid_append)


lemma str_ok_ascii: "list_all (\<lambda>c. of_char c < (128 :: nat)) s \<Longrightarrow> str_ok s"
proof (induction s)
  case (Cons c s)
  have "(of_char c :: u8) < 128" using Cons.prems by (simp add: word_less_nat_alt unat_of_char)
  then show ?case using Cons by (simp add: str_ok_def str_bytes_def)
qed (simp add: str_ok_def str_bytes_def)

definition name_ok :: "string \<Rightarrow> bool" where
  "name_ok s \<longleftrightarrow> str_ok s \<and> CHR 0x0A \<notin> set s \<and> (s = [] \<or> last s \<noteq> CHR 0x0D)"

definition pointer_ok :: "pointer \<Rightarrow> bool" where
  "pointer_ok p \<longleftrightarrow> name_ok (pt_segment p) \<and> fits_u64 (pt_retained_from p)
    \<and> (case pt_snapshot p of None \<Rightarrow> True | Some s \<Rightarrow> name_ok s \<and> s \<noteq> ''-'')"

lemma whitespace_ends:
  "w \<in> set whitespace \<Longrightarrow> \<not> hex_char (hd w)" "w \<in> set (map rev whitespace) \<Longrightarrow> \<not> hex_char (hd w)"
  by (auto simp: whitespace_def hex_char_def dec_char_def)

lemma strip_any_start:
  assumes "\<And>w. w \<in> set ws \<Longrightarrow> \<not> P (hd w)" "s \<noteq> []" "P (hd s)"
  shows "strip_any ws s = s"
proof (rule strip_any_None)
  fix w assume "w \<in> set ws" "w \<noteq> []"
  moreover have "hd w = hd s" if "prefix w s" using that \<open>w \<noteq> []\<close> by (auto simp: prefix_def)
  ultimately show "\<not> prefix w s" using assms(1) [of w] assms(3) by metis
qed

lemma strip_newline: "strip_any (map rev whitespace) (CHR 0x0A # s) = strip_any (map rev whitespace) s"
  by (subst strip_any.simps) (simp add: whitespace_def)

lemma trim_hex:
  assumes "list_all hex_char s" "s \<noteq> []"
  shows "trim (s @ nl) = s"
proof -
  have "hex_char (hd s)" "hex_char (hd (rev s))" using assms by (auto simp: list_all_iff hd_rev)
  then have "strip_any whitespace (s @ nl) = s @ nl" "strip_any (map rev whitespace) (rev s) = rev s"
    using assms(2) by (auto intro!: strip_any_start [where P = hex_char] simp: whitespace_ends)
  then show ?thesis by (simp add: trim_def nl_def strip_newline)
qed

lemma hex8_nonempty: "show_hex8 w \<noteq> []"
  by (simp add: show_hex8_def flip: length_greater_0_conv)

lemma hex8_split: "rsplit_once ''crc='' (body @ ''crc='' @ show_hex8 w @ nl) = Some (body, show_hex8 w @ nl)"
proof -
  have "CHR ''='' \<notin> set (show_hex8 w @ nl)"
    using hex_of_digits [of 8 "uint w"] by (auto simp: show_hex8_def nl_def list_all_iff hex_char_def dec_char_def)
  then have "rsplit_once ''crc='' (show_hex8 w @ nl) = None" by (intro rsplit_once_None [of "CHR ''=''"]) simp_all
  then show ?thesis by (intro rsplit_once_after) simp
qed

lemma name_line: "name_ok s \<Longrightarrow> k \<noteq> [] \<Longrightarrow> last k \<noteq> CHR 0x0D \<Longrightarrow> CHR 0x0A \<notin> set k
    \<Longrightarrow> lines_of (k @ s @ nl @ rest) = (k @ s) # lines_of rest"
  using lines_of_cons [of "k @ s" rest] by (cases "s = []") (auto simp: name_ok_def nl_def)

lemma name_ok_number: "name_ok (show_nat n)"
proof -
  have "list_all (\<lambda>c. of_char c < (128 :: nat) \<and> c \<noteq> CHR 0x0A \<and> c \<noteq> CHR 0x0D) (show_nat n)"
    using show_nat_digits [of n] by (auto simp: list_all_iff dec_char_def)
  then show ?thesis using str_ok_ascii [of "show_nat n"] by (auto simp: name_ok_def list_all_iff)
qed

lemma pointer_lines:
  assumes "pointer_ok p"
  shows "lines_of (pointer_body p) = [''schweep-log pointer v1'', ''segment='' @ pt_segment p,
    ''snapshot='' @ (case pt_snapshot p of Some s \<Rightarrow> s | None \<Rightarrow> ''-''), ''retained_from='' @ show_nat (pt_retained_from p)]"
proof -
  have snap: "name_ok (case pt_snapshot p of Some s \<Rightarrow> s | None \<Rightarrow> ''-'')"
    using assms str_ok_ascii [of "''-''"] by (auto simp: pointer_ok_def name_ok_def split: option.splits)
  have "lines_of (pointer_body p) = lines_of (''schweep-log pointer v1'' @ [] @ nl @ drop 23 (pointer_body p))"
    by (simp add: pointer_body_def nl_def)
  also have "\<dots> = ''schweep-log pointer v1'' # lines_of (drop 23 (pointer_body p))"
    by (subst name_line) (simp_all add: name_ok_def str_ok_def str_bytes_def)
  also have "drop 23 (pointer_body p) = ''segment='' @ pt_segment p @ nl
    @ ''snapshot='' @ (case pt_snapshot p of Some s \<Rightarrow> s | None \<Rightarrow> ''-'') @ nl
    @ ''retained_from='' @ show_nat (pt_retained_from p) @ nl @ []"
    by (simp add: pointer_body_def nl_def)
  finally show ?thesis
    using assms snap name_ok_number [of "pt_retained_from p"]
    by (simp add: name_line pointer_ok_def del: append_assoc append.simps append_Nil2)
qed

lemma str_ok_pointer:
  assumes "pointer_ok p"
  shows "str_ok (pointer_body p @ ''crc='' @ show_hex8 w @ nl)"
proof -
  have hex: "str_ok (show_hex8 w)"
    by (rule str_ok_ascii) (use hex_of_digits [of 8 "uint w"] in \<open>auto simp: list_all_iff show_hex8_def hex_char_def dec_char_def\<close>)
  have "str_ok (case pt_snapshot p of Some s \<Rightarrow> s | None \<Rightarrow> ''-'')"
    using assms str_ok_ascii [of "''-''"] by (auto simp: pointer_ok_def name_ok_def split: option.splits)
  moreover have "str_ok (pt_segment p)" using assms by (simp add: pointer_ok_def name_ok_def)
  moreover have "str_ok (show_nat n)" for n using name_ok_number [of n] by (simp add: name_ok_def)
  ultimately show ?thesis
    unfolding pointer_body_def by (intro str_ok_append hex) (simp_all add: str_ok_ascii nl_def)
qed

lemma split_pointer_lines:
  "split_once CHR ''='' ''schweep-log pointer v1'' = None"
  "split_once CHR ''='' (''segment='' @ a) = Some (''segment'', a)"
  "split_once CHR ''='' (''snapshot='' @ a) = Some (''snapshot'', a)"
  "split_once CHR ''='' (''retained_from='' @ a) = Some (''retained_from'', a)"
  by simp_all

lemma pointer_fields_read:
  assumes "pointer_ok p"
  shows "foldR pointer_line (None, None, 0) (lines_of (pointer_body p)) = Ok (Some (pt_segment p), pt_snapshot p, pt_retained_from p)"
  using assms
  by (cases "pt_snapshot p")
    (simp_all add: pointer_lines pointer_line_def split_pointer_lines pointer_ok_def del: append.simps split_once.simps)

lemma pointer_decode_encode: "pointer_ok p \<Longrightarrow> pointer_decode (pointer_encode p) = Ok p"
  using hex_of_digits [of 8 "uint (crc32 (str_bytes (pointer_body p)))"] hex8_nonempty
  by (simp add: pointer_decode_def pointer_encode_def str_ok_pointer hex8_split trim_hex pointer_fields_read
      show_hex8_def [symmetric] del: append.simps)

definition ledger_ok :: "(string, 64 word) btree \<Rightarrow> bool" where
  "ledger_ok m \<longleftrightarrow> bt_ok m \<and> fits_u64 (length m) \<and> list_all (\<lambda>(t, h). str_ok t \<and> fits_u64 (length t)) m"

lemma rd_token_put: "str_ok (fst t) \<Longrightarrow> fits_u64 (length (fst t)) \<Longrightarrow> rd_token (put_token t @ rest) = Ok (t, rest)"
  by (cases t) (simp add: rd_token_def put_token_def take_u64_def put_str_def put_u64_def)

lemma dedup_decode_encode:
  assumes "ledger_ok m"
  shows "dedup_decode (dedup_encode m) = Ok m"
proof -
  have "rd_many (length m) rd_token (concat (map put_token m) @ []) = Ok (m, [])"
    by (rule rd_many_put, rule rd_token_put) (use assms in \<open>auto simp: ledger_ok_def list_all_iff\<close>)
  then show ?thesis
    using assms by (simp add: dedup_decode_def dedup_encode_def dedup_body_def put_u64_def take_u64_def ledger_ok_def)
qed

end
