(* ===== verification/Log.thy ===== *)
theory Log
  imports Log_Pointer
begin

text \<open>
  The durable input log (\<open>schweep-log/src/log.rs\<close>) and its epoch-at-a-time reader (\<open>stream.rs\<close>): opening
  and replaying a segment, appending a batch with its dedup token, sealing an epoch, reading one back,
  and the log's side of compaction. A disk is a map from the paths under the log's directory to file
  contents; every write the code completes is on it, a rename replaces the target, and a crash is the
  loss of the in-memory log at a seam. Flushing (\<open>SyncPolicy\<close>) does not change what the disk holds.
\<close>

section \<open>State\<close>

datatype sync_policy = SyncFull | SyncDeferred

datatype ack = Appended | DroppedAsReplay

record batch =
  ba_source :: string
  ba_token :: string
  ba_table :: string
  ba_entries :: entries

record epoch_span =
  es_start :: nat
  es_end :: nat

record log_state =
  lg_sync :: sync_policy
  lg_catalog :: "(string, schema) btree"
  lg_dedup :: "(string, 64 word) btree"
  lg_pending :: "batch list"
  lg_sealed :: "epoch_span list"
  lg_segment_len :: nat
  lg_epoch_start :: nat
  lg_segment :: string
  lg_retained_from :: nat
  lg_snapshot :: "string option"

type_synonym disk = "string \<rightharpoonup> bytes"

text \<open>What an operation on an open log gives: its result, the log, the disk and the injector.\<close>

type_synonym 'a logged = "(log_error, 'a) result \<times> log_state \<times> disk \<times> fault_injector"

text \<open>\<open>if faults.reached(seam) { return Err(InjectedFault(seam.name())) }\<close>\<close>

definition at_seam :: "seam \<Rightarrow> log_state \<Rightarrow> disk \<Rightarrow> fault_injector \<Rightarrow> (fault_injector \<Rightarrow> 'a logged) \<Rightarrow> 'a logged" where
  "at_seam s l d fi k = (case reached s fi of (hit, fi') \<Rightarrow>
    if hit then (Err (InjectedFault (seam_name s)), l, d, fi') else k fi')"

definition span_len_bytes :: "epoch_span \<Rightarrow> nat" where
  "span_len_bytes s = es_end s - es_start s"

definition batch_record :: "batch \<Rightarrow> log_record" where
  "batch_record b = LAppend (ba_source b) (ba_token b) (ba_table b) (ba_entries b)"

definition default_segment :: string where
  "default_segment = ''segment-00000001.log''"

definition enoent :: log_error where
  "enoent = LogIo ''No such file or directory (os error 2)''"

section \<open>Opening\<close>

definition read_pointer :: "disk \<Rightarrow> pointer option" where
  "read_pointer d = (case d ''LOG'' of None \<Rightarrow> None
    | Some bs \<Rightarrow> (case pointer_decode bs of Inr p \<Rightarrow> Some p | Inl _ \<Rightarrow> None))"

definition write_pointer :: "disk \<Rightarrow> pointer \<Rightarrow> disk" where
  "write_pointer d p = (let temp = d(''LOG.partial'' \<mapsto> pointer_encode p) in
    (temp(''LOG.partial'' := None))(''LOG'' := temp ''LOG.partial''))"

definition manifest_path :: "string \<Rightarrow> string" where
  "manifest_path snapshot = snapshot @ ''/MANIFEST''"

definition ledger_path :: "string \<Rightarrow> string" where
  "ledger_path snapshot = snapshot @ ''/DEDUP''"

text \<open>The segment, the snapshot and the epoch they meet at: an unusable pointer is an absent one.\<close>

definition locate :: "disk \<Rightarrow> string \<times> string option \<times> nat" where
  "locate d = (case read_pointer d of
      None \<Rightarrow> (default_segment, None, 0)
    | Some p \<Rightarrow>
        if d (pt_segment p) \<noteq> None
           \<and> (case pt_snapshot p of None \<Rightarrow> True | Some s \<Rightarrow> d (manifest_path s) \<noteq> None)
        then (pt_segment p, pt_snapshot p, pt_retained_from p)
        else (default_segment, None, 0))"

definition seed_dedup :: "disk \<Rightarrow> string option \<Rightarrow> (log_error, (string, 64 word) btree) result" where
  "seed_dedup d snapshot = (case snapshot of
      None \<Rightarrow> Ok []
    | Some s \<Rightarrow> (case d (ledger_path s) of
        Some bs \<Rightarrow> dedup_decode bs
      | None \<Rightarrow> Err (LogCorrupt ''snapshot has no dedup ledger'')))"

text \<open>One record of the scan: the log under construction carries \<open>at\<close> in \<open>lg_segment_len\<close>.\<close>

definition replay_record :: "log_state \<Rightarrow> log_record \<Rightarrow> nat \<Rightarrow> log_state" where
  "replay_record l r consumed = (case r of
      LAppend source token table es \<Rightarrow>
        l\<lparr>lg_dedup := bt_insert token (content_hash (LAppend source token table es)) (lg_dedup l),
          lg_pending := lg_pending l @ [\<lparr>ba_source = source, ba_token = token, ba_table = table, ba_entries = es\<rparr>],
          lg_segment_len := lg_segment_len l + consumed\<rparr>
    | LSealEpoch _ \<Rightarrow>
        l\<lparr>lg_sealed := lg_sealed l @ [\<lparr>es_start = lg_epoch_start l, es_end = lg_segment_len l\<rparr>],
          lg_epoch_start := lg_segment_len l + consumed,
          lg_pending := [],
          lg_segment_len := lg_segment_len l + consumed\<rparr>)"

function replay_from_disk ::
  "nat \<Rightarrow> bytes \<Rightarrow> log_state \<Rightarrow> fault_injector \<Rightarrow> (log_error, log_state) result \<times> fault_injector" where
  "replay_from_disk replayed bs l fi = (case read_framed bs of
      Inl e \<Rightarrow> (Err e, fi)
    | Inr None \<Rightarrow> (Ok l, fi)
    | Inr (Some (r, consumed, rest)) \<Rightarrow>
        (case (if (replayed + 1) mod 4 = 0 then reached RecoveryMidReplay fi else (False, fi)) of (hit, fi') \<Rightarrow>
          if hit then (Err (InjectedFault (seam_name RecoveryMidReplay)), fi')
          else replay_from_disk (replayed + 1) rest (replay_record l r consumed) fi'))"
  by pat_completeness auto
termination
  by (relation "measure (\<lambda>(n, bs, l, fi). length bs)") (auto dest: read_framed_shrinks)

declare replay_from_disk.simps [simp del]

definition fresh_log :: "sync_policy \<Rightarrow> (string, schema) btree \<Rightarrow> string \<Rightarrow> nat \<Rightarrow> string option \<Rightarrow> (string, 64 word) btree \<Rightarrow> log_state" where
  "fresh_log sync catalog segment retained snapshot dedup =
    \<lparr>lg_sync = sync, lg_catalog = catalog, lg_dedup = dedup, lg_pending = [], lg_sealed = [],
      lg_segment_len = 0, lg_epoch_start = 0, lg_segment = segment, lg_retained_from = retained, lg_snapshot = snapshot\<rparr>"

text \<open>The path of the directory itself is the empty path: a file there is not a directory.\<close>

definition log_open ::
  "string \<Rightarrow> (string, schema) btree \<Rightarrow> sync_policy \<Rightarrow> disk \<Rightarrow> fault_injector
    \<Rightarrow> (log_error, log_state) result \<times> fault_injector" where
  "log_open dir catalog sync d fi =
    (if d [] \<noteq> None then (Err (NotADirectory dir), fi)
     else case locate d of (segment, snapshot, retained) \<Rightarrow>
       (case seed_dedup d snapshot of
          Inl e \<Rightarrow> (Err e, fi)
        | Inr dedup \<Rightarrow>
            let l = fresh_log sync catalog segment retained snapshot dedup in
            (case d segment of None \<Rightarrow> (Ok l, fi) | Some bs \<Rightarrow> replay_from_disk 0 bs l fi)))"

section \<open>Reading\<close>

definition log_sealed_epoch :: "log_state \<Rightarrow> nat" where
  "log_sealed_epoch l = lg_retained_from l + length (lg_sealed l)"

definition dedup_len :: "log_state \<Rightarrow> nat" where
  "dedup_len l = length (lg_dedup l)"

function read_batches :: "bytes \<Rightarrow> batch list \<Rightarrow> (log_error, batch list) result" where
  "read_batches bs acc = (case read_framed bs of
      Inl e \<Rightarrow> Err e
    | Inr None \<Rightarrow> Ok acc
    | Inr (Some (LAppend source token table es, consumed, rest)) \<Rightarrow>
        read_batches rest (acc @ [\<lparr>ba_source = source, ba_token = token, ba_table = table, ba_entries = es\<rparr>])
    | Inr (Some (LSealEpoch _, consumed, rest)) \<Rightarrow> Err (LogCorrupt ''a seal record inside an epoch's span''))"
  by pat_completeness auto
termination
  by (relation "measure (\<lambda>(bs, acc). length bs)") (auto dest: read_framed_shrinks)

declare read_batches.simps [simp del]

definition read_span :: "disk \<Rightarrow> log_state \<Rightarrow> epoch_span \<Rightarrow> (log_error, batch list) result" where
  "read_span d l span =
    (if span_len_bytes span = 0 then Ok []
     else case d (lg_segment l) of None \<Rightarrow> Err enoent
       | Some file \<Rightarrow> read_batches (take (span_len_bytes span) (drop (es_start span) file)) [])"

definition log_epoch :: "disk \<Rightarrow> log_state \<Rightarrow> nat \<Rightarrow> (log_error, batch list) result" where
  "log_epoch d l e =
    (if e \<noteq> 0 \<and> e \<le> lg_retained_from l then Err (EpochCompacted e (lg_retained_from l))
     else if e = 0 \<or> log_sealed_epoch l < e then Err (LogEpochOutOfRange e (log_sealed_epoch l))
     else bindR (ok_or (nth_opt (lg_sealed l) (e - lg_retained_from l - 1)) (LogEpochOutOfRange e (log_sealed_epoch l)))
       (read_span d l))"

section \<open>Appending and sealing\<close>

definition validate_row :: "schema \<Rightarrow> row \<Rightarrow> (zset_error, unit) result" where
  "validate_row sc r =
    (if length r \<noteq> schema_len sc then Err (ArityMismatch (schema_len sc) (length r))
     else bindR (mapR (\<lambda>(i, v). check_value sc i v) (List.enumerate 0 r)) (\<lambda>_. Ok ()))"

definition validate_batch :: "(string, schema) btree \<Rightarrow> string \<Rightarrow> entries \<Rightarrow> (log_error, unit) result" where
  "validate_batch catalog table es =
    bindR (ok_or (bt_get catalog table) (LogUnknownTable table)) (\<lambda>sc.
      bindR (map_err LogZSet (mapR (\<lambda>(r, _). validate_row sc r) es)) (\<lambda>_. Ok ()))"

text \<open>\<open>O_APPEND | O_CREAT\<close> and one \<open>write_all\<close>.\<close>

definition append_file :: "disk \<Rightarrow> string \<Rightarrow> bytes \<Rightarrow> disk" where
  "append_file d f bs = d(f \<mapsto> (case d f of None \<Rightarrow> bs | Some old \<Rightarrow> old @ bs))"

definition log_append ::
  "string \<Rightarrow> string \<Rightarrow> entries \<Rightarrow> string \<Rightarrow> log_state \<Rightarrow> disk \<Rightarrow> fault_injector \<Rightarrow> ack logged" where
  "log_append source table es token l d fi =
    at_seam AckBeforeValidate l d fi (\<lambda>fi.
      case validate_batch (lg_catalog l) table es of
        Inl e \<Rightarrow> (Err e, l, d, fi)
      | Inr _ \<Rightarrow>
          let record = LAppend source token table es; hash = content_hash record in
          (case bt_get (lg_dedup l) token of
             Some known \<Rightarrow> (if known = hash then Ok DroppedAsReplay else Err (TokenReused source token), l, d, fi)
           | None \<Rightarrow>
               at_seam AckBeforeAppend l d fi (\<lambda>fi.
               let d' = append_file d (lg_segment l) (framed record) in
               at_seam AckAfterAppendBeforeFsync l d' fi (\<lambda>fi.
               at_seam AckAfterFsyncBeforeIndex l d' fi (\<lambda>fi.
               let l' = l\<lparr>lg_segment_len := lg_segment_len l + length (framed record),
                          lg_dedup := bt_insert token hash (lg_dedup l),
                          lg_pending := lg_pending l @ [\<lparr>ba_source = source, ba_token = token, ba_table = table, ba_entries = es\<rparr>]\<rparr> in
               at_seam AckAfterFsyncBeforeAck l' d' fi (\<lambda>fi. (Ok Appended, l', d', fi)))))))"

definition log_seal :: "log_state \<Rightarrow> disk \<Rightarrow> fault_injector \<Rightarrow> nat logged" where
  "log_seal l d fi =
    at_seam SealBeforeRecord l d fi (\<lambda>fi.
    let e = log_sealed_epoch l + 1; seal = framed (LSealEpoch e); d' = append_file d (lg_segment l) seal in
    at_seam SealAfterRecordBeforeFsync l d' fi (\<lambda>fi.
    let len = lg_segment_len l + length seal;
        l' = l\<lparr>lg_sealed := lg_sealed l @ [\<lparr>es_start = lg_epoch_start l, es_end = lg_segment_len l\<rparr>],
               lg_segment_len := len, lg_epoch_start := len, lg_pending := []\<rparr> in
    (Ok e, l', d', fi)))"

section \<open>Compaction, the log's side\<close>

text \<open>\<open>Path::file_stem\<close>: the name up to its last dot, when that leaves anything.\<close>

definition file_stem :: "string \<Rightarrow> string" where
  "file_stem f = (case rsplit_once ''.'' f of Some (stem, _) \<Rightarrow> if stem = [] then f else stem | None \<Rightarrow> f)"

definition segment_name :: "nat \<Rightarrow> string" where
  "segment_name n = ''segment-'' @ show_pad8 n @ ''.log''"

definition next_segment_name :: "log_state \<Rightarrow> string" where
  "next_segment_name l =
    (let stem = file_stem (lg_segment l);
         digits = (case rsplit_once ''-'' stem of Some (_, ds) \<Rightarrow> ds | None \<Rightarrow> stem);
         current = (case parse_u64 digits of Some n \<Rightarrow> n | None \<Rightarrow> 1) in
     segment_name (current + 1))"

text \<open>
  The loop over the retained epochs: the bytes written so far, the spans of the new segment and where
  the next epoch starts in it. A failing read stops it with what was written.
\<close>

fun copy_epochs ::
  "disk \<Rightarrow> log_state \<Rightarrow> nat list \<Rightarrow> bytes \<times> epoch_span list \<times> nat \<Rightarrow> (log_error, epoch_span list \<times> nat) result \<times> bytes" where
  "copy_epochs d l [] (out, rebuilt, start) = (Ok (rebuilt, start), out)"
| "copy_epochs d l (e # es) (out, rebuilt, start) = (case log_epoch d l e of
      Inl err \<Rightarrow> (Err err, out)
    | Inr bs \<Rightarrow>
        let out1 = out @ concat (map (\<lambda>b. framed (batch_record b)) bs);
            out2 = out1 @ framed (LSealEpoch e) in
        copy_epochs d l es (out2, rebuilt @ [\<lparr>es_start = start, es_end = length out1\<rparr>], length out2))"

text \<open>The snapshot's path is given by its file name, \<open>None\<close> when it has none.\<close>

definition log_compact :: "nat \<Rightarrow> string option \<Rightarrow> log_state \<Rightarrow> disk \<Rightarrow> fault_injector \<Rightarrow> unit logged" where
  "log_compact anchor snapshot l d fi =
    (if anchor \<le> lg_retained_from l then (Err (NothingToCompact anchor (lg_retained_from l)), l, d, fi)
     else if log_sealed_epoch l < anchor then (Err (LogEpochOutOfRange anchor (log_sealed_epoch l)), l, d, fi)
     else case snapshot of
       None \<Rightarrow> (Err (LogCorrupt ''snapshot path has no name''), l, d, fi)
     | Some name \<Rightarrow>
         let nxt = next_segment_name l; partial = nxt @ ''.partial'' in
         (case copy_epochs d l [anchor + 1 ..< log_sealed_epoch l + 1] ([], [], 0) of
            (Inl err, out) \<Rightarrow> (Err err, l, d(partial \<mapsto> out), fi)
          | (Inr (rebuilt, start), out) \<Rightarrow>
              let whole = out @ concat (map (\<lambda>b. framed (batch_record b)) (lg_pending l));
                  d1 = (d(partial := None))(nxt \<mapsto> whole) in
              at_seam CompactAfterSegmentBeforePointer l d1 fi (\<lambda>fi.
              let d2 = write_pointer d1 \<lparr>pt_segment = nxt, pt_snapshot = Some name, pt_retained_from = anchor\<rparr> in
              at_seam CompactAfterPointerBeforeTrim l d2 fi (\<lambda>fi.
              let d3 = (if lg_segment l \<noteq> nxt then d2(lg_segment l := None) else d2);
                  l' = l\<lparr>lg_segment := nxt, lg_sealed := rebuilt, lg_segment_len := length whole,
                         lg_epoch_start := start, lg_retained_from := anchor, lg_snapshot := Some name\<rparr> in
              (Ok (), l', d3, fi)))))"

section \<open>One epoch at a time\<close>

record sealed_epoch_batches =
  se_epoch :: nat
  se_batches :: "batch list"

record epochs_reader =
  er_rest :: bytes
  er_pending :: "batch list"
  er_done :: bool

definition epochs_open :: "disk \<Rightarrow> string \<Rightarrow> (log_error, epochs_reader) result" where
  "epochs_open d segment = (case d segment of None \<Rightarrow> Err enoent
    | Some bs \<Rightarrow> Ok \<lparr>er_rest = bs, er_pending = [], er_done = False\<rparr>)"

text \<open>The loop of \<open>next\<close>, over the bytes left and the batches read since the last seal.\<close>

function epochs_loop :: "bytes \<Rightarrow> batch list \<Rightarrow> (log_error, sealed_epoch_batches) result option \<times> epochs_reader" where
  "epochs_loop bs acc = (case read_framed bs of
      Inl e \<Rightarrow> (Some (Err e), \<lparr>er_rest = bs, er_pending = acc, er_done = True\<rparr>)
    | Inr None \<Rightarrow> (None, \<lparr>er_rest = bs, er_pending = acc, er_done = True\<rparr>)
    | Inr (Some (LAppend source token table es, consumed, rest)) \<Rightarrow>
        epochs_loop rest (acc @ [\<lparr>ba_source = source, ba_token = token, ba_table = table, ba_entries = es\<rparr>])
    | Inr (Some (LSealEpoch e, consumed, rest)) \<Rightarrow>
        (Some (Ok \<lparr>se_epoch = e, se_batches = acc\<rparr>), \<lparr>er_rest = rest, er_pending = [], er_done = False\<rparr>))"
  by pat_completeness auto
termination
  by (relation "measure (\<lambda>(bs, acc). length bs)") (auto dest: read_framed_shrinks)

declare epochs_loop.simps [simp del]

definition epochs_next :: "epochs_reader \<Rightarrow> (log_error, sealed_epoch_batches) result option \<times> epochs_reader" where
  "epochs_next er = (if er_done er then (None, er) else epochs_loop (er_rest er) (er_pending er))"

lemma epochs_loop_shrinks:
  "epochs_loop bs acc = (Some (Ok x), er) \<Longrightarrow> length (er_rest er) < length bs \<and> \<not> er_done er"
proof (induction bs acc rule: epochs_loop.induct)
  case (1 bs acc)
  show ?case
  proof (cases "read_framed bs")
    case (Inr found)
    then show ?thesis
      using 1 read_framed_shrinks [of bs]
      by (fastforce simp: epochs_loop.simps [of bs] split: option.splits log_record.splits)
  qed (use 1 in \<open>simp add: epochs_loop.simps [of bs]\<close>)
qed

text \<open>Running the iterator to its end: the epochs it yields, and the error that ended it if one did.\<close>

function epochs_collect :: "epochs_reader \<Rightarrow> sealed_epoch_batches list \<times> log_error option" where
  "epochs_collect er = (case epochs_next er of
      (None, _) \<Rightarrow> ([], None)
    | (Some (Inl e), _) \<Rightarrow> ([], Some e)
    | (Some (Inr x), er') \<Rightarrow> (case epochs_collect er' of (xs, e) \<Rightarrow> (x # xs, e)))"
  by pat_completeness auto
termination
  by (relation "measure (\<lambda>er. length (er_rest er))") (auto simp: epochs_next_def dest: epochs_loop_shrinks [OF sym] split: if_splits)

declare epochs_collect.simps [simp del]

end
