(* ===== verification/Log_Props.thy ===== *)
theory Log_Props
  imports Log
begin

text \<open>
  What a segment holds as a list of records, and what the scan of one makes of it: the dedup index, the
  epochs with the byte ranges their batches occupy, and the batches not yet sealed. The operations of an
  open log keep its memory equal to that scan.
\<close>

section \<open>The history a list of records tells\<close>

definition segment_bytes :: "log_record list \<Rightarrow> bytes" where
  "segment_bytes rs = concat (map framed rs)"

definition record_batch :: "log_record \<Rightarrow> batch" where
  "record_batch r = \<lparr>ba_source = la_source r, ba_token = la_token r, ba_table = la_table r, ba_entries = la_entries r\<rparr>"

definition is_append :: "log_record \<Rightarrow> bool" where
  "is_append r \<longleftrightarrow> (case r of LAppend _ _ _ _ \<Rightarrow> True | LSealEpoch _ \<Rightarrow> False)"

text \<open>The sealed groups of batches, and the batches after the last seal.\<close>

definition history_step :: "batch list list \<times> batch list \<Rightarrow> log_record \<Rightarrow> batch list list \<times> batch list" where
  "history_step h r = (if is_append r then (fst h, snd h @ [record_batch r]) else (fst h @ [snd h], []))"

definition history :: "log_record list \<Rightarrow> batch list list \<times> batch list" where
  "history rs = foldl history_step ([], []) rs"

definition tokens_of :: "log_record list \<Rightarrow> string list" where
  "tokens_of rs = map la_token (filter is_append rs)"

definition seals_of :: "log_record list \<Rightarrow> nat list" where
  "seals_of rs = concat (map (\<lambda>r. case r of LSealEpoch e \<Rightarrow> [e] | _ \<Rightarrow> []) rs)"

definition index_tokens :: "(string, 64 word) btree \<Rightarrow> log_record list \<Rightarrow> (string, 64 word) btree" where
  "index_tokens m rs = foldl (\<lambda>m r. if is_append r then bt_insert (la_token r) (content_hash r) m else m) m rs"

definition replay_all :: "log_state \<Rightarrow> log_record list \<Rightarrow> log_state" where
  "replay_all l rs = foldl (\<lambda>l r. replay_record l r (length (framed r))) l rs"

lemma segment_bytes_simps [simp]:
  "segment_bytes [] = []" "segment_bytes (r # rs) = framed r @ segment_bytes rs"
  "segment_bytes (rs @ ts) = segment_bytes rs @ segment_bytes ts"
  by (simp_all add: segment_bytes_def)

lemma replay_all_simps [simp]:
  "replay_all l [] = l" "replay_all l (r # rs) = replay_all (replay_record l r (length (framed r))) rs"
  "replay_all l (rs @ ts) = replay_all (replay_all l rs) ts"
  by (simp_all add: replay_all_def)

lemma is_append_simps [simp]: "is_append (LAppend s t b es)" "\<not> is_append (LSealEpoch e)"
  by (simp_all add: is_append_def)

lemma tokens_of_simps [simp]:
  "tokens_of [] = []" "tokens_of (rs @ ts) = tokens_of rs @ tokens_of ts"
  "tokens_of (LAppend s t b es # rs) = t # tokens_of rs" "tokens_of (LSealEpoch e # rs) = tokens_of rs"
  by (simp_all add: tokens_of_def)

lemma seals_of_simps [simp]:
  "seals_of [] = []" "seals_of (rs @ ts) = seals_of rs @ seals_of ts"
  "seals_of (LAppend s t b es # rs) = seals_of rs" "seals_of (LSealEpoch e # rs) = e # seals_of rs"
  by (simp_all add: seals_of_def)

lemma history_simps [simp]:
  "history [] = ([], [])"
  "history (rs @ [LAppend s t b es]) =
    (fst (history rs), snd (history rs) @ [\<lparr>ba_source = s, ba_token = t, ba_table = b, ba_entries = es\<rparr>])"
  "history (rs @ [LSealEpoch e]) = (fst (history rs) @ [snd (history rs)], [])"
  by (simp_all add: history_def history_step_def record_batch_def)

lemma index_tokens_simps [simp]:
  "index_tokens m [] = m" "index_tokens m (rs @ ts) = index_tokens (index_tokens m rs) ts"
  "index_tokens m (LAppend s t b es # rs) = index_tokens (bt_insert t (content_hash (LAppend s t b es)) m) rs"
  "index_tokens m (LSealEpoch e # rs) = index_tokens m rs"
  by (simp_all add: index_tokens_def)

lemma batch_record_of_append: "is_append r \<Longrightarrow> batch_record (record_batch r) = r"
  by (cases r) (simp_all add: batch_record_def record_batch_def)

section \<open>The scan\<close>

lemma replay_from_disk_records:
  assumes "list_all framed_ok rs" "read_framed tail = Ok None"
  shows "fst (replay_from_disk n (segment_bytes rs @ tail) l fi)
    \<in> {Ok (replay_all l rs), Err (InjectedFault (seam_name RecoveryMidReplay))}"
  using assms(1)
proof (induction rs arbitrary: n l fi)
  case Nil
  then show ?case using assms(2) by (simp add: replay_from_disk.simps)
next
  case (Cons r rs)
  then show ?case
    by (auto simp: replay_from_disk.simps [of _ "framed r @ _"] read_framed_whole split: prod.split)
qed

lemma replay_from_disk_unplanned:
  assumes "list_all framed_ok rs" "read_framed tail = Ok None" "fi_plan fi = None"
  shows "fst (replay_from_disk n (segment_bytes rs @ tail) l fi) = Ok (replay_all l rs)"
  using assms(1,3)
proof (induction rs arbitrary: n l fi)
  case Nil
  then show ?case using assms(2) by (simp add: replay_from_disk.simps)
next
  case (Cons r rs)
  obtain fi' where "reached RecoveryMidReplay fi = (False, fi')" "fi_plan fi' = None"
    using reached_unplanned [OF Cons.prems(2)] reached_keeps_plan [of RecoveryMidReplay fi] Cons.prems(2)
    by (metis prod.collapse)
  then show ?case
    using Cons by (simp add: replay_from_disk.simps [of _ "framed r @ _"] read_framed_whole)
qed

section \<open>What the scan builds\<close>

lemma replay_all_static [simp]:
  "lg_sync (replay_all l rs) = lg_sync l" "lg_catalog (replay_all l rs) = lg_catalog l"
  "lg_segment (replay_all l rs) = lg_segment l" "lg_retained_from (replay_all l rs) = lg_retained_from l"
  "lg_snapshot (replay_all l rs) = lg_snapshot l"
  by (induction rs rule: rev_induct) (auto simp: replay_record_def split: log_record.split)

lemma replay_all_dedup [simp]: "lg_dedup (replay_all l rs) = index_tokens (lg_dedup l) rs"
  by (induction rs rule: rev_induct) (auto simp: replay_record_def split: log_record.split)

definition batches_bytes :: "batch list \<Rightarrow> bytes" where
  "batches_bytes bs = concat (map (\<lambda>b. framed (batch_record b)) bs)"

definition span_bytes :: "bytes \<Rightarrow> epoch_span \<Rightarrow> bytes" where
  "span_bytes file s = take (span_len_bytes s) (drop (es_start s) file)"

text \<open>The memory of a log that has scanned \<open>rs\<close> from the start of a segment.\<close>

definition scanned :: "log_state \<Rightarrow> log_record list \<Rightarrow> bool" where
  "scanned l rs \<longleftrightarrow> lg_pending l = snd (history rs) \<and> lg_segment_len l = length (segment_bytes rs)
    \<and> lg_epoch_start l \<le> lg_segment_len l \<and> drop (lg_epoch_start l) (segment_bytes rs) = batches_bytes (lg_pending l)
    \<and> list_all2 (\<lambda>s bs. es_start s \<le> es_end s \<and> es_end s \<le> lg_segment_len l \<and> span_bytes (segment_bytes rs) s = batches_bytes bs)
        (lg_sealed l) (fst (history rs))"

lemma span_bytes_append: "es_end s \<le> length file \<Longrightarrow> es_start s \<le> es_end s \<Longrightarrow> span_bytes (file @ extra) s = span_bytes file s"
  by (simp add: span_bytes_def span_len_bytes_def)

lemma scanned_len: "scanned l rs \<Longrightarrow> lg_segment_len l = length (segment_bytes rs)"
  by (simp add: scanned_def)

lemma scanned_step:
  assumes "scanned l rs"
  shows "scanned (replay_record l r (length (framed r))) (rs @ [r])"
proof -
  have spans: "list_all2 (\<lambda>s bs. es_start s \<le> es_end s \<and> es_end s \<le> lg_segment_len l + length (framed r)
      \<and> span_bytes (segment_bytes rs @ framed r) s = batches_bytes bs) (lg_sealed l) (fst (history rs))"
    using assms unfolding scanned_def by (auto elim!: list_all2_mono simp: span_bytes_append)
  show ?thesis
  proof (cases r)
    case (LAppend s t b es)
    then show ?thesis
      using assms spans by (simp add: scanned_def replay_record_def batches_bytes_def batch_record_def)
  next
    case (LSealEpoch e)
    have "span_bytes (segment_bytes rs @ framed r) \<lparr>es_start = lg_epoch_start l, es_end = lg_segment_len l\<rparr>
        = span_bytes (segment_bytes rs) \<lparr>es_start = lg_epoch_start l, es_end = lg_segment_len l\<rparr>"
      using assms by (intro span_bytes_append) (simp_all add: scanned_def)
    also have "\<dots> = drop (lg_epoch_start l) (segment_bytes rs)"
      using scanned_len [OF assms] by (simp add: span_bytes_def span_len_bytes_def)
    finally have "span_bytes (segment_bytes rs @ framed r) \<lparr>es_start = lg_epoch_start l, es_end = lg_segment_len l\<rparr>
        = batches_bytes (snd (history rs))"
      using assms by (simp add: scanned_def)
    then show ?thesis
      using assms spans LSealEpoch
      by (auto simp: scanned_def replay_record_def batches_bytes_def intro!: list_all2_appendI)
  qed
qed

lemma scanned_replay:
  assumes "lg_pending l = []" "lg_sealed l = []" "lg_segment_len l = 0" "lg_epoch_start l = 0"
  shows "scanned (replay_all l rs) rs"
proof (induction rs rule: rev_induct)
  case Nil
  then show ?case using assms by (simp add: scanned_def batches_bytes_def)
next
  case (snoc r rs)
  then show ?case using scanned_step [of "replay_all l rs" rs r] by simp
qed

section \<open>Reading an epoch back\<close>

lemma batches_bytes_simps [simp]:
  "batches_bytes [] = []" "batches_bytes (b # bs) = framed (batch_record b) @ batches_bytes bs"
  by (simp_all add: batches_bytes_def)

lemma batches_bytes_records: "batches_bytes bs = segment_bytes (map batch_record bs)"
  by (simp add: batches_bytes_def segment_bytes_def comp_def)

lemma read_batches_frames:
  "list_all (\<lambda>b. framed_ok (batch_record b)) bs \<Longrightarrow> read_batches (batches_bytes bs) acc = Ok (acc @ bs)"
proof (induction bs arbitrary: acc)
  case Nil
  then show ?case by (simp add: read_batches.simps)
next
  case (Cons b bs)
  have same: "\<lparr>ba_source = ba_source b, ba_token = ba_token b, ba_table = ba_table b, ba_entries = ba_entries b\<rparr> = b" by simp
  show ?case
    using Cons read_framed_whole [of "batch_record b"]
    by (simp add: read_batches.simps [of "framed _ @ _"] batch_record_def same)
qed

definition group_ok :: "batch list \<Rightarrow> bool" where
  "group_ok bs \<longleftrightarrow> list_all (\<lambda>b. framed_ok (batch_record b)) bs"

lemma history_groups_ok: "list_all framed_ok rs \<Longrightarrow> list_all group_ok (fst (history rs)) \<and> group_ok (snd (history rs))"
proof (induction rs rule: rev_induct)
  case (snoc r rs)
  then show ?case by (cases r) (simp_all add: group_ok_def batch_record_def)
qed (simp add: group_ok_def)

definition file_holds :: "disk \<Rightarrow> string \<Rightarrow> log_record list \<Rightarrow> bool" where
  "file_holds d f rs \<longleftrightarrow> d f = Some (segment_bytes rs) \<or> d f = None \<and> rs = []"

lemma read_span_scanned:
  assumes "file_holds d (lg_segment l) rs" "span_bytes (segment_bytes rs) s = batches_bytes bs" "group_ok bs"
    "es_start s \<le> es_end s" "es_end s \<le> length (segment_bytes rs)"
  shows "read_span d l s = Ok bs"
proof (cases "span_len_bytes s = 0")
  case True
  then have "batches_bytes bs = []" using assms(2) by (simp add: span_bytes_def)
  then have "bs = []" by (cases bs) auto
  then show ?thesis using True by (simp add: read_span_def)
next
  case False
  then have "segment_bytes rs \<noteq> []" using assms(4,5) by (auto simp: span_len_bytes_def)
  then have "d (lg_segment l) = Some (segment_bytes rs)" using assms(1) by (auto simp: file_holds_def)
  then show ?thesis
    using False assms(2,3) read_batches_frames [of bs "[]"] by (simp add: read_span_def span_bytes_def group_ok_def)
qed

lemma scanned_sealed: "scanned l rs \<Longrightarrow> log_sealed_epoch l = lg_retained_from l + length (fst (history rs))"
  by (auto simp: scanned_def log_sealed_epoch_def dest: list_all2_lengthD)

lemma log_epoch_scanned:
  assumes "scanned l rs" "file_holds d (lg_segment l) rs" "list_all framed_ok rs"
    "lg_retained_from l < e" "e \<le> log_sealed_epoch l"
  shows "log_epoch d l e = Ok (fst (history rs) ! (e - lg_retained_from l - 1))"
proof -
  let ?i = "e - lg_retained_from l - 1"
  have i: "?i < length (fst (history rs))" "length (lg_sealed l) = length (fst (history rs))"
    using assms(1,4,5) scanned_sealed [OF assms(1)] by (auto simp: scanned_def dest: list_all2_lengthD)
  have "read_span d l (lg_sealed l ! ?i) = Ok (fst (history rs) ! ?i)"
  proof (rule read_span_scanned [OF assms(2)])
    show "group_ok (fst (history rs) ! ?i)" using history_groups_ok [OF assms(3)] i by (simp add: list_all_length)
  qed (use assms(1) i in \<open>auto simp: scanned_def list_all2_conv_all_nth\<close>)
  then show ?thesis using assms(4,5) i by (simp add: log_epoch_def)
qed

section \<open>Records rebuilt from the epochs\<close>

fun sealed_records :: "nat \<Rightarrow> batch list list \<Rightarrow> log_record list" where
  "sealed_records k [] = []"
| "sealed_records k (g # gs) = map batch_record g @ LSealEpoch (Suc k) # sealed_records (Suc k) gs"

lemma sealed_records_append: "sealed_records k (gs @ hs) = sealed_records k gs @ sealed_records (k + length gs) hs"
  by (induction gs arbitrary: k) simp_all

lemma seals_of_batches [simp]: "seals_of (map batch_record bs) = []"
  by (induction bs) (simp_all add: batch_record_def)

lemma seals_of_sealed: "seals_of (sealed_records k gs) = [Suc k ..< Suc k + length gs]"
  by (induction gs arbitrary: k) (simp_all add: upt_rec)

lemma length_seals: "length (seals_of rs) = length (fst (history rs))"
proof (induction rs rule: rev_induct)
  case (snoc r rs)
  then show ?case by (cases r) simp_all
qed simp

lemma records_of_history:
  "seals_of rs = [Suc k ..< Suc k + length (fst (history rs))]
    \<Longrightarrow> rs = sealed_records k (fst (history rs)) @ map batch_record (snd (history rs))"
proof (induction rs rule: rev_induct)
  case (snoc r rs)
  show ?case
  proof (cases r)
    case (LAppend s t b es)
    then show ?thesis using snoc by (simp add: batch_record_def)
  next
    case (LSealEpoch e)
    then have "seals_of rs @ [e] = [Suc k ..< Suc k + length (fst (history rs))] @ [Suc k + length (fst (history rs))]"
      using snoc.prems by simp
    then have "seals_of rs = [Suc k ..< Suc k + length (fst (history rs))]" "e = Suc k + length (fst (history rs))" by simp_all
    then show ?thesis using snoc.IH LSealEpoch by (simp add: sealed_records_append)
  qed
qed simp

lemma history_batch: "history (rs @ [batch_record b]) = (fst (history rs), snd (history rs) @ [b])"
  by (simp add: batch_record_def)

lemma history_batches: "history (rs @ map batch_record bs) = (fst (history rs), snd (history rs) @ bs)"
proof (induction bs rule: rev_induct)
  case (snoc b bs)
  have "history ((rs @ map batch_record bs) @ [batch_record b]) = (fst (history rs), snd (history rs) @ bs @ [b])"
    by (subst history_batch) (simp add: snoc)
  then show ?case by simp
qed simp

lemma history_sealed_records: "history (sealed_records k gs) = (gs, [])"
proof (induction gs rule: rev_induct)
  case (snoc g gs)
  have "history ((sealed_records k gs @ map batch_record g) @ [LSealEpoch (Suc (k + length gs))]) = (gs @ [g], [])"
    by (subst history_simps) (simp add: history_batches snoc)
  then show ?case by (simp add: sealed_records_append)
qed simp

section \<open>The dedup index\<close>

lemma bt_insert_same: "bt_ok m \<Longrightarrow> bt_get m k = Some v \<Longrightarrow> bt_insert k v m = m"
  by (rule bt_ext) (auto simp: map_of_bt_insert bt_get_def fun_upd_idem_iff)

lemma bt_ok_index: "bt_ok m \<Longrightarrow> bt_ok (index_tokens m rs)"
  by (induction rs rule: rev_induct) (auto simp: index_tokens_def)

lemma index_tokens_other: "t \<notin> set (tokens_of rs) \<Longrightarrow> bt_get (index_tokens m rs) t = bt_get m t"
proof (induction rs rule: rev_induct)
  case (snoc r rs)
  then show ?case by (cases r) (simp_all add: bt_get_insert)
qed simp

lemma index_tokens_known:
  assumes "distinct (tokens_of rs)" "r \<in> set rs" "is_append r"
  shows "bt_get (index_tokens m rs) (la_token r) = Some (content_hash r)"
  using assms
proof (induction rs rule: rev_induct)
  case (snoc s rs)
  show ?case
  proof (cases s)
    case (LAppend a t b es)
    have "la_token r \<in> set (tokens_of rs)" if "r \<in> set rs" using that snoc.prems(3) by (simp add: tokens_of_def)
    then show ?thesis using snoc LAppend by (auto simp: bt_get_insert)
  next
    case (LSealEpoch e)
    then show ?thesis using snoc by auto
  qed
qed simp

lemma index_tokens_absorb:
  assumes "bt_ok m" "\<And>r. r \<in> set rs \<Longrightarrow> is_append r \<Longrightarrow> bt_get m (la_token r) = Some (content_hash r)"
  shows "index_tokens m rs = m"
  using assms(2)
proof (induction rs)
  case (Cons r rs)
  have "bt_insert (la_token r) (content_hash r) m = m" if "is_append r"
    using assms(1) Cons.prems [of r] that by (intro bt_insert_same) simp_all
  then show ?case using Cons by (cases r) simp_all
qed simp

lemma index_tokens_keys: "fst ` set (index_tokens [] rs) = set (tokens_of rs)"
proof (induction rs rule: rev_induct)
  case (snoc r rs)
  then show ?case by (cases r) (simp_all add: fst_set_bt_insert)
qed simp

end
