(* ===== verification/Log_Inv.thy ===== *)
theory Log_Inv
  imports Log_Props
begin

text \<open>
  The invariant of a log directory and of the log open on it. A directory stands for a history of records:
  a compacted prefix, known only by its tokens in the snapshot's ledger, and the records of the
  authoritative segment. Every operation extends that history or leaves it, at every seam it can stop.
\<close>

section \<open>Names\<close>

lemma show_pad8_value: "radix_value 10 0 (show_pad8 n) = Some (int n)"
  by (simp add: show_pad8_def radix_value_zeros radix_value_show_nat)

lemma segment_name_inject [simp]: "segment_name m = segment_name n \<longleftrightarrow> m = n"
proof
  assume "segment_name m = segment_name n"
  then have "show_pad8 m = show_pad8 n" by (simp only: segment_name_def append_same_eq same_append_eq)
  then have "Some (int m) = Some (int n)" using show_pad8_value by metis
  then show "m = n" by simp
qed simp

lemma dec_chars_avoid:
  "list_all dec_char s \<Longrightarrow> CHR ''/'' \<notin> set s" "list_all dec_char s \<Longrightarrow> CHR ''-'' \<notin> set s"
  by (auto simp: list_all_iff dec_char_def)

lemma segment_name_flat [simp]: "CHR ''/'' \<notin> set (segment_name n)"
  using dec_chars_avoid(1) [OF show_pad8_digits [of n]] by (simp add: segment_name_def)

lemma segment_name_apart [simp]:
  "segment_name n \<noteq> ''LOG''" "''LOG'' \<noteq> segment_name n" "segment_name n \<noteq> ''LOG.partial''" "''LOG.partial'' \<noteq> segment_name n"
  "segment_name n \<noteq> []" "[] \<noteq> segment_name n" "segment_name n @ ''.partial'' \<noteq> ''LOG''" "''LOG'' \<noteq> segment_name n @ ''.partial''"
  by (simp_all add: segment_name_def)

lemma segment_partial_apart [simp]: "segment_name m \<noteq> segment_name n @ ''.partial''"
proof
  assume "segment_name m = segment_name n @ ''.partial''"
  then have "last (segment_name m) = last (segment_name n @ ''.partial'')" by (rule arg_cong)
  then show False by (simp add: segment_name_def)
qed

lemma snapshot_paths_apart [simp]:
  "manifest_path s \<noteq> segment_name n" "ledger_path s \<noteq> segment_name n"
  "manifest_path s \<noteq> segment_name n @ ''.partial''" "ledger_path s \<noteq> segment_name n @ ''.partial''"
  "manifest_path s \<noteq> ''LOG''" "ledger_path s \<noteq> ''LOG''" "manifest_path s \<noteq> ''LOG.partial''" "ledger_path s \<noteq> ''LOG.partial''"
  "manifest_path s \<noteq> []" "ledger_path s \<noteq> []"
proof -
  have slash: "CHR ''/'' \<in> set (manifest_path s)" "CHR ''/'' \<in> set (ledger_path s)"
    by (simp_all add: manifest_path_def ledger_path_def)
  show "manifest_path s \<noteq> segment_name n" "ledger_path s \<noteq> segment_name n" using slash segment_name_flat by metis+
  show "manifest_path s \<noteq> segment_name n @ ''.partial''" "ledger_path s \<noteq> segment_name n @ ''.partial''"
    using slash segment_name_flat [of n] by (auto simp: manifest_path_def ledger_path_def dest!: arg_cong [where f = set])
  show "manifest_path s \<noteq> ''LOG''" "ledger_path s \<noteq> ''LOG''" "manifest_path s \<noteq> ''LOG.partial''" "ledger_path s \<noteq> ''LOG.partial''"
    "manifest_path s \<noteq> []" "ledger_path s \<noteq> []"
    using slash by force+
qed

lemma default_segment_name: "default_segment = segment_name 1"
  by code_simp

lemma next_segment_name:
  assumes "lg_segment l = segment_name k" "fits_u64 k"
  shows "next_segment_name l = segment_name (Suc k)"
proof -
  have "rsplit_once ''.'' ((''segment-'' @ show_pad8 k) @ ''.'' @ ''log'') = Some (''segment-'' @ show_pad8 k, ''log'')"
    by (rule rsplit_once_after) simp
  then have stem: "file_stem (segment_name k) = ''segment-'' @ show_pad8 k" by (simp add: file_stem_def segment_name_def)
  have "rsplit_once ''-'' (show_pad8 k) = None"
    using dec_chars_avoid(2) [OF show_pad8_digits [of k]] by (intro rsplit_once_None [of "CHR ''-''"]) simp_all
  then have "rsplit_once ''-'' (''segment'' @ ''-'' @ show_pad8 k) = Some (''segment'', show_pad8 k)"
    by (intro rsplit_once_after) simp
  then have "rsplit_once ''-'' (''segment-'' @ show_pad8 k) = Some (''segment'', show_pad8 k)" by simp
  then show ?thesis using assms unfolding next_segment_name_def Let_def by (simp only: stem assms) (simp add: assms)
qed

section \<open>The invariant\<close>

definition hist_ok :: "log_record list \<Rightarrow> bool" where
  "hist_ok hist \<longleftrightarrow> list_all framed_ok hist \<and> distinct (tokens_of hist)
    \<and> seals_of hist = [1 ..< Suc (length (seals_of hist))]"

text \<open>The pointer names the segment, or there is none and the default segment holds everything.\<close>

definition pointed :: "disk \<Rightarrow> string \<Rightarrow> string option \<Rightarrow> nat \<Rightarrow> bool" where
  "pointed d seg snap n \<longleftrightarrow> (case read_pointer d of
      None \<Rightarrow> seg = default_segment \<and> snap = None \<and> n = 0
    | Some p \<Rightarrow> p = \<lparr>pt_segment = seg, pt_snapshot = snap, pt_retained_from = n\<rparr> \<and> d seg \<noteq> None
        \<and> (case snap of None \<Rightarrow> True | Some s \<Rightarrow> d (manifest_path s) \<noteq> None))"

definition disk_at ::
  "disk \<Rightarrow> log_record list \<Rightarrow> log_record list \<Rightarrow> string \<Rightarrow> string option \<Rightarrow> (string, 64 word) btree \<Rightarrow> bool" where
  "disk_at d old rs seg snap base \<longleftrightarrow>
    d [] = None \<and> pointed d seg snap (length (seals_of old)) \<and> seed_dedup d snap = Ok base \<and> bt_ok base
    \<and> file_holds d seg rs \<and> hist_ok (old @ rs) \<and> snd (history old) = []
    \<and> index_tokens base rs = index_tokens [] (old @ rs)
    \<and> (\<exists>k. seg = segment_name k \<and> k \<le> Suc (length (seals_of old)))"

definition disk_holds :: "disk \<Rightarrow> log_record list \<Rightarrow> bool" where
  "disk_holds d hist \<longleftrightarrow> (\<exists>old rs seg snap base. hist = old @ rs \<and> disk_at d old rs seg snap base)"

definition log_at ::
  "(string, schema) btree \<Rightarrow> sync_policy \<Rightarrow> log_state \<Rightarrow> disk \<Rightarrow> log_record list \<Rightarrow> log_record list \<Rightarrow> bool" where
  "log_at catalog sync l d old rs \<longleftrightarrow> (\<exists>seg snap base. disk_at d old rs seg snap base
    \<and> l = replay_all (fresh_log sync catalog seg (length (seals_of old)) snap base) rs)"

definition log_holds :: "(string, schema) btree \<Rightarrow> sync_policy \<Rightarrow> log_state \<Rightarrow> disk \<Rightarrow> log_record list \<Rightarrow> bool" where
  "log_holds catalog sync l d hist \<longleftrightarrow> (\<exists>old rs. hist = old @ rs \<and> log_at catalog sync l d old rs)"

lemma log_holds_disk: "log_holds catalog sync l d hist \<Longrightarrow> disk_holds d hist"
  unfolding log_holds_def log_at_def disk_holds_def by blast

lemma pointed_locate: "pointed d seg snap n \<Longrightarrow> locate d = (seg, snap, n)"
  by (auto simp: pointed_def locate_def split: option.splits)

lemma history_append:
  "snd (history xs) = [] \<Longrightarrow> history (xs @ ys) = (fst (history xs) @ fst (history ys), snd (history ys))"
proof (induction ys rule: rev_induct)
  case Nil
  then show ?case by (simp add: prod_eq_iff)
next
  case (snoc y ys)
  then show ?case by (cases y) (simp_all flip: append_assoc)
qed

section \<open>Opening\<close>

lemma log_open_at:
  fixes sync :: sync_policy and catalog :: "(string, schema) btree"
  assumes "disk_at d old rs seg snap base"
  defines "l \<equiv> replay_all (fresh_log sync catalog seg (length (seals_of old)) snap base) rs"
  shows "fst (log_open dir catalog sync d fi) \<in> {Ok l, Err (InjectedFault (seam_name RecoveryMidReplay))}"
    and "fi_plan fi = None \<Longrightarrow> fst (log_open dir catalog sync d fi) = Ok l"
proof -
  have loc: "locate d = (seg, snap, length (seals_of old))" "d [] = None" "seed_dedup d snap = Ok base"
    "list_all framed_ok rs" "file_holds d seg rs"
    using assms(1) by (auto simp: disk_at_def hist_ok_def dest: pointed_locate)
  show "fst (log_open dir catalog sync d fi) \<in> {Ok l, Err (InjectedFault (seam_name RecoveryMidReplay))}"
    using loc replay_from_disk_records [of rs "[]" 0 "fresh_log sync catalog seg (length (seals_of old)) snap base" fi]
    by (auto simp: log_open_def file_holds_def l_def)
  show "fst (log_open dir catalog sync d fi) = Ok l" if "fi_plan fi = None"
    using loc replay_from_disk_unplanned [of rs "[]" fi 0 "fresh_log sync catalog seg (length (seals_of old)) snap base"] that
    by (auto simp: log_open_def file_holds_def l_def)
qed

lemma log_open_holds:
  assumes "disk_holds d hist" "log_open dir catalog sync d fi = (Ok l, fi')"
  shows "log_holds catalog sync l d hist"
proof -
  obtain old rs seg snap base where at: "hist = old @ rs" "disk_at d old rs seg snap base"
    using assms(1) by (auto simp: disk_holds_def)
  have "l = replay_all (fresh_log sync catalog seg (length (seals_of old)) snap base) rs"
    using log_open_at(1) [OF at(2), of dir catalog sync fi] assms(2) by auto
  then show ?thesis using at unfolding log_holds_def log_at_def by blast
qed

text \<open>Reopening the directory of a running log gives that log again.\<close>

lemma log_reopen:
  assumes "log_holds catalog sync l d hist" "fi_plan fi = None"
  shows "fst (log_open dir catalog sync d fi) = Ok l"
  using assms log_open_at(2) by (auto simp: log_holds_def log_at_def)

section \<open>One more record\<close>

lemma append_file_other [simp]: "f \<noteq> g \<Longrightarrow> append_file d f bs g = d g"
  by (simp add: append_file_def)

lemma append_file_holds: "file_holds d f rs \<Longrightarrow> file_holds (append_file d f (framed r)) f (rs @ [r])"
  by (auto simp: file_holds_def append_file_def)

lemma pointed_append:
  "pointed d (segment_name k) snap n \<Longrightarrow> pointed (append_file d (segment_name k) bs) (segment_name k) snap n"
  by (auto simp: pointed_def read_pointer_def append_file_def split: option.splits sum.splits)

lemma seed_dedup_append: "seed_dedup (append_file d (segment_name k) bs) snap = seed_dedup d snap"
  by (simp add: seed_dedup_def append_file_def split: option.split)

lemma disk_at_append:
  assumes "disk_at d old rs seg snap base" "hist_ok (old @ rs @ [r])"
  shows "disk_at (append_file d seg (framed r)) old (rs @ [r]) seg snap base"
  using assms
  by (auto simp: disk_at_def append_file_holds pointed_append seed_dedup_append)

lemma log_at_append:
  assumes "log_at catalog sync l d old rs" "hist_ok (old @ rs @ [r])"
  shows "log_holds catalog sync (replay_record l r (length (framed r))) (append_file d (lg_segment l) (framed r)) (old @ rs @ [r])"
    and "disk_holds (append_file d (lg_segment l) (framed r)) (old @ rs @ [r])"
proof -
  obtain seg snap base where at: "disk_at d old rs seg snap base"
    "l = replay_all (fresh_log sync catalog seg (length (seals_of old)) snap base) rs"
    using assms(1) by (auto simp: log_at_def)
  then have seg: "lg_segment l = seg" by (simp add: fresh_log_def)
  have landed: "disk_at (append_file d seg (framed r)) old (rs @ [r]) seg snap base"
    by (rule disk_at_append [OF at(1) assms(2)])
  have "log_at catalog sync (replay_record l r (length (framed r))) (append_file d (lg_segment l) (framed r)) old (rs @ [r])"
    unfolding log_at_def seg using landed at(2) by (intro exI [of _ seg] exI [of _ snap] exI [of _ base]) simp
  then show "log_holds catalog sync (replay_record l r (length (framed r))) (append_file d (lg_segment l) (framed r)) (old @ rs @ [r])"
    unfolding log_holds_def by blast
  then show "disk_holds (append_file d (lg_segment l) (framed r)) (old @ rs @ [r])" by (rule log_holds_disk)
qed

lemma log_at_facts:
  assumes "log_at catalog sync l d old rs"
  shows "lg_catalog l = catalog" "lg_sync l = sync" "lg_dedup l = index_tokens [] (old @ rs)" "hist_ok (old @ rs)"
    "lg_retained_from l = length (seals_of old)" "scanned l rs" "file_holds d (lg_segment l) rs" "snd (history old) = []"
    "log_sealed_epoch l = length (seals_of (old @ rs))"
proof -
  obtain seg snap base where at: "disk_at d old rs seg snap base"
    "l = replay_all (fresh_log sync catalog seg (length (seals_of old)) snap base) rs"
    using assms by (auto simp: log_at_def)
  show scan: "scanned l rs" unfolding at(2) by (rule scanned_replay) (simp_all add: fresh_log_def)
  show "lg_catalog l = catalog" "lg_sync l = sync" "lg_dedup l = index_tokens [] (old @ rs)" "hist_ok (old @ rs)"
    "file_holds d (lg_segment l) rs" "snd (history old) = []"
    using at by (simp_all add: disk_at_def fresh_log_def)
  show kept: "lg_retained_from l = length (seals_of old)" using at by (simp add: fresh_log_def)
  show "log_sealed_epoch l = length (seals_of (old @ rs))" using scanned_sealed [OF scan] kept by (simp add: length_seals)
qed

lemma log_holds_dedup:
  assumes "log_holds catalog sync l d hist"
  shows "bt_get (lg_dedup l) t = None \<longleftrightarrow> t \<notin> set (tokens_of hist)"
proof -
  have "lg_dedup l = index_tokens [] hist" using assms by (auto simp: log_holds_def dest: log_at_facts(3))
  then show ?thesis by (simp add: bt_get_def map_of_eq_None_iff index_tokens_keys)
qed

lemma hist_ok_append:
  assumes "hist_ok hist" "framed_ok (LAppend s t b es)" "t \<notin> set (tokens_of hist)"
  shows "hist_ok (hist @ [LAppend s t b es])"
  using assms by (simp add: hist_ok_def)

lemma hist_ok_seal:
  assumes "hist_ok hist" "framed_ok (LSealEpoch (Suc (length (seals_of hist))))"
  shows "hist_ok (hist @ [LSealEpoch (Suc (length (seals_of hist)))])"
  using assms by (simp add: hist_ok_def)

section \<open>Appending and sealing\<close>

lemma at_seam_cases:
  assumes "at_seam s l d fi k = (res, l', d', fi')"
  obtains (fault) "res = Err (InjectedFault (seam_name s))" "l' = l" "d' = d" | (passed) fi1 where "k fi1 = (res, l', d', fi')"
  using assms by (auto simp: at_seam_def split: prod.splits if_splits)

text \<open>How an append can end: before the record is written, or after.\<close>

lemma log_append_cases:
  assumes "log_append source table es token l d fi = (res, l', d', fi')"
  defines "r \<equiv> LAppend source token table es"
  obtains (refused) e where "res = Err e" "l' = l" "d' = d"
    | (replayed) "res = Ok DroppedAsReplay" "l' = l" "d' = d" "bt_get (lg_dedup l) token = Some (content_hash r)"
    | (unindexed) s where "bt_get (lg_dedup l) token = None" "res = Err (InjectedFault s)" "l' = l"
        "d' = append_file d (lg_segment l) (framed r)"
    | (indexed) "bt_get (lg_dedup l) token = None" "res = Ok Appended \<or> (\<exists>s. res = Err (InjectedFault s))"
        "l' = replay_record l r (length (framed r))" "d' = append_file d (lg_segment l) (framed r)"
proof -
  let ?da = "append_file d (lg_segment l) (framed r)"
  let ?lr = "replay_record l r (length (framed r))"
  have lr: "l\<lparr>lg_segment_len := lg_segment_len l + length (framed r), lg_dedup := bt_insert token (content_hash r) (lg_dedup l),
      lg_pending := lg_pending l @ [\<lparr>ba_source = source, ba_token = token, ba_table = table, ba_entries = es\<rparr>]\<rparr> = ?lr"
    by (simp add: replay_record_def r_def)
  show thesis
    using assms(1) unfolding log_append_def Let_def r_def [symmetric] lr
    by (elim at_seam_cases) (auto split: sum.splits option.splits if_splits elim!: at_seam_cases intro: that)
qed

lemma log_seal_cases:
  assumes "log_seal l d fi = (res, l', d', fi')"
  defines "r \<equiv> LSealEpoch (Suc (log_sealed_epoch l))"
  obtains (refused) s where "res = Err (InjectedFault s)" "l' = l" "d' = d"
    | (unindexed) s where "res = Err (InjectedFault s)" "l' = l" "d' = append_file d (lg_segment l) (framed r)"
    | (sealed) "res = Ok (Suc (log_sealed_epoch l))" "l' = replay_record l r (length (framed r))"
        "d' = append_file d (lg_segment l) (framed r)"
proof -
  have lr: "l\<lparr>lg_sealed := lg_sealed l @ [\<lparr>es_start = lg_epoch_start l, es_end = lg_segment_len l\<rparr>],
      lg_segment_len := lg_segment_len l + length (framed r), lg_epoch_start := lg_segment_len l + length (framed r),
      lg_pending := []\<rparr> = replay_record l r (length (framed r))"
    by (simp add: replay_record_def r_def)
  show thesis
    using assms(1) unfolding log_seal_def Let_def Suc_eq_plus1 [symmetric] r_def [symmetric] lr
    by (elim at_seam_cases) (auto elim!: at_seam_cases intro: that)
qed

definition crashed :: "(log_error, 'a) result \<Rightarrow> bool" where
  "crashed res \<longleftrightarrow> (case res of Inl (InjectedFault _) \<Rightarrow> True | _ \<Rightarrow> False)"

lemma crashed_simps [simp]: "crashed (Err (InjectedFault s))" "\<not> crashed (Ok x)"
  by (simp_all add: crashed_def)

text \<open>An append that the process survives leaves a log; one it does not leaves a directory.\<close>

lemma log_append_holds:
  assumes "log_holds catalog sync l d hist" "framed_ok (LAppend source token table es)"
    "log_append source table es token l d fi = (res, l', d', fi')"
  obtains hist' where "hist' \<in> {hist, hist @ [LAppend source token table es]}" "disk_holds d' hist'"
    "\<not> crashed res \<Longrightarrow> log_holds catalog sync l' d' hist'"
proof -
  let ?r = "LAppend source token table es"
  obtain old rs where h: "hist = old @ rs" and at: "log_at catalog sync l d old rs"
    using assms(1) by (auto simp: log_holds_def)
  have grown: "hist_ok (old @ rs @ [?r])" if "bt_get (lg_dedup l) token = None"
    using that log_holds_dedup [OF assms(1)] log_at_facts(4) [OF at] assms(2) hist_ok_append [of "old @ rs"] h by simp
  note still = log_holds_disk [OF assms(1)]
  show thesis
  proof (cases rule: log_append_cases [OF assms(3), case_names refused replayed unindexed indexed])
    case (refused e)
    then show thesis using that [of hist] still assms(1) by simp
  next
    case replayed
    then show thesis using that [of hist] still assms(1) by simp
  next
    case (unindexed s)
    then show thesis using that [of "hist @ [?r]"] log_at_append(2) [OF at grown] h by simp
  next
    case indexed
    then have "log_holds catalog sync l' d' (hist @ [?r])" "disk_holds d' (hist @ [?r])"
      using log_at_append [OF at grown] h by simp_all
    then show thesis using that [of "hist @ [?r]"] by simp
  qed
qed

lemma log_seal_holds:
  assumes "log_holds catalog sync l d hist" "fits_u64 (Suc (log_sealed_epoch l))" "log_seal l d fi = (res, l', d', fi')"
  obtains hist' where "hist' \<in> {hist, hist @ [LSealEpoch (Suc (log_sealed_epoch l))]}" "disk_holds d' hist'"
    "\<not> crashed res \<Longrightarrow> log_holds catalog sync l' d' hist'"
proof -
  let ?r = "LSealEpoch (Suc (log_sealed_epoch l))"
  obtain old rs where h: "hist = old @ rs" and at: "log_at catalog sync l d old rs"
    using assms(1) by (auto simp: log_holds_def)
  have "framed_ok ?r" using assms(2) by (simp add: framed_ok_def fits_u32_def put_u64_def)
  then have grown: "hist_ok (old @ rs @ [?r])"
    using log_at_facts(4,9) [OF at] hist_ok_seal [of "old @ rs"] by simp
  show thesis
  proof (cases rule: log_seal_cases [OF assms(3), case_names refused unindexed sealed])
    case (refused s)
    then show thesis using that [of hist] log_holds_disk [OF assms(1)] assms(1) by simp
  next
    case (unindexed s)
    then show thesis using that [of "hist @ [?r]"] log_at_append(2) [OF at grown] h by simp
  next
    case sealed
    then have "log_holds catalog sync l' d' (hist @ [?r])" "disk_holds d' (hist @ [?r])"
      using log_at_append [OF at grown] h by simp_all
    then show thesis using that [of "hist @ [?r]"] by simp
  qed
qed

end
