(* ===== verification/Log_Compact.thy ===== *)
theory Log_Compact
  imports Log_Inv
begin

text \<open>
  Compaction keeps the history of a log directory: the rewritten segment is the suffix of the records after
  the anchor's seal, the ledger accounts for the tokens of the prefix, and at each of its crash points the
  pointer names a consistent pair.
\<close>

section \<open>Epochs of a log, in terms of its history\<close>

lemma log_epoch_at:
  assumes "log_at catalog sync l d old rs" "lg_retained_from l < e" "e \<le> log_sealed_epoch l"
  shows "log_epoch d l e = Ok (fst (history (old @ rs)) ! (e - 1))"
proof -
  note facts = log_at_facts [OF assms(1)]
  have "log_epoch d l e = Ok (fst (history rs) ! (e - lg_retained_from l - 1))"
    by (rule log_epoch_scanned [OF facts(6,7) _ assms(2,3)]) (use facts(4) in \<open>simp add: hist_ok_def\<close>)
  moreover have "length (fst (history old)) = lg_retained_from l" using facts(5) by (simp add: length_seals)
  moreover have "\<not> e - 1 < lg_retained_from l" "e - 1 - lg_retained_from l = e - lg_retained_from l - 1"
    using assms(2) by linarith+
  ultimately show ?thesis
    using history_append [OF facts(8), of rs] by (simp add: nth_append)
qed

lemma log_epoch_history:
  assumes "log_holds catalog sync l d hist" "lg_retained_from l < e" "e \<le> log_sealed_epoch l"
  shows "log_epoch d l e = Ok (fst (history hist) ! (e - 1))"
  using assms log_epoch_at by (auto simp: log_holds_def)

lemma log_holds_views:
  assumes "log_holds catalog sync l d hist"
  shows "lg_pending l = snd (history hist)" "log_sealed_epoch l = length (fst (history hist))"
    "lg_dedup l = index_tokens [] hist" "hist_ok hist" "lg_catalog l = catalog" "lg_retained_from l \<le> log_sealed_epoch l"
proof -
  obtain old rs where h: "hist = old @ rs" and at: "log_at catalog sync l d old rs"
    using assms by (auto simp: log_holds_def)
  note facts = log_at_facts [OF at]
  show "lg_pending l = snd (history hist)"
    using history_append [OF facts(8), of rs] facts(6) h by (simp add: scanned_def)
  show "log_sealed_epoch l = length (fst (history hist))" using facts(9) h by (simp add: length_seals [symmetric])
  show "lg_dedup l = index_tokens [] hist" "hist_ok hist" "lg_catalog l = catalog" using facts h by simp_all
  show "lg_retained_from l \<le> log_sealed_epoch l" by (simp add: log_sealed_epoch_def)
qed

section \<open>The rewritten segment\<close>

lemma replay_batches:
  "lg_sealed (replay_all l (map batch_record bs)) = lg_sealed l"
  "lg_epoch_start (replay_all l (map batch_record bs)) = lg_epoch_start l"
  "lg_segment_len (replay_all l (map batch_record bs)) = lg_segment_len l + length (batches_bytes bs)"
  "lg_pending (replay_all l (map batch_record bs)) = lg_pending l @ bs"
  by (induction bs rule: rev_induct) (simp_all add: replay_record_def batch_record_def batches_bytes_def)

lemma replay_len: "lg_segment_len (replay_all l rs) = lg_segment_len l + length (segment_bytes rs)"
  by (induction rs rule: rev_induct) (simp_all add: replay_record_def split: log_record.split)

text \<open>The loop writes the frames of the records it rebuilds, and indexes them as a scan would.\<close>

lemma copy_epochs_records:
  assumes "\<And>i. i < length gs \<Longrightarrow> log_epoch d l (Suc (k + i)) = Ok (gs ! i)"
    "lg_segment_len l0 = length out" "lg_sealed l0 = rebuilt" "lg_epoch_start l0 = start"
  shows "copy_epochs d l [Suc k ..< Suc (k + length gs)] (out, rebuilt, start)
    = (Ok (lg_sealed (replay_all l0 (sealed_records k gs)), lg_epoch_start (replay_all l0 (sealed_records k gs))),
       out @ segment_bytes (sealed_records k gs))"
  using assms
proof (induction gs arbitrary: k out rebuilt start l0)
  case (Cons g gs)
  let ?l1 = "replay_all l0 (map batch_record g @ [LSealEpoch (Suc k)])"
  let ?out = "out @ batches_bytes g @ framed (LSealEpoch (Suc k))"
  have IH: "copy_epochs d l [Suc (Suc k) ..< Suc (Suc k + length gs)]
      (?out, rebuilt @ [\<lparr>es_start = start, es_end = length (out @ batches_bytes g)\<rparr>], length ?out)
    = (Ok (lg_sealed (replay_all ?l1 (sealed_records (Suc k) gs)), lg_epoch_start (replay_all ?l1 (sealed_records (Suc k) gs))),
       ?out @ segment_bytes (sealed_records (Suc k) gs))"
    by (rule Cons.IH)
      (use Cons.prems(1) [of "Suc _"] Cons.prems(2-4) in \<open>simp_all add: replay_record_def replay_batches\<close>)
  have head: "log_epoch d l (Suc k) = Ok g" using Cons.prems(1) [of 0] by simp
  have range: "[Suc k ..< Suc (k + length (g # gs))] = Suc k # [Suc (Suc k) ..< Suc (Suc k + length gs)]"
    by (subst upt_conv_Cons) simp_all
  have frames: "concat (map (\<lambda>b. framed (batch_record b)) g) = batches_bytes g" by (simp add: batches_bytes_def)
  show ?case
    unfolding range
    using IH head by (simp add: Let_def frames batches_bytes_records [symmetric] add.assoc del: upt_Suc)
qed simp

section \<open>The three disks of a compaction\<close>

lemma pointer_written: "pointer_ok p \<Longrightarrow> read_pointer (write_pointer d p) = Some p"
  by (simp add: read_pointer_def write_pointer_def Let_def pointer_decode_encode)

lemma write_pointer_other [simp]: "f \<noteq> ''LOG'' \<Longrightarrow> f \<noteq> ''LOG.partial'' \<Longrightarrow> write_pointer d p f = d f"
  by (simp add: write_pointer_def Let_def)

lemma seed_dedup_cong: "(\<And>s. d' (ledger_path s) = d (ledger_path s)) \<Longrightarrow> seed_dedup d' snap = seed_dedup d snap"
  by (simp add: seed_dedup_def split: option.split)

text \<open>Files the pointer does not name do not matter.\<close>

lemma disk_at_cong:
  assumes "disk_at d old rs seg snap base" "d' [] = d []" "d' ''LOG'' = d ''LOG''" "d' seg = d seg"
    "\<And>s. snap = Some s \<Longrightarrow> d' (manifest_path s) = d (manifest_path s) \<and> d' (ledger_path s) = d (ledger_path s)"
  shows "disk_at d' old rs seg snap base"
proof -
  have "read_pointer d' = read_pointer d" using assms(3) by (simp add: read_pointer_def)
  moreover have "seed_dedup d' snap = seed_dedup d snap"
    using assms(5) by (cases snap) (simp_all add: seed_dedup_def)
  ultimately show ?thesis
    using assms by (auto simp: disk_at_def pointed_def file_holds_def split: option.splits)
qed

lemma segment_name_ok: "name_ok (segment_name k)"
proof -
  have "list_all (\<lambda>c. of_char c < (128 :: nat) \<and> c \<noteq> CHR 0x0A) (segment_name k)"
    using show_pad8_digits [of k] by (auto simp: segment_name_def list_all_iff dec_char_def)
  then have "str_ok (segment_name k)" "CHR 0x0A \<notin> set (segment_name k)"
    using str_ok_ascii by (auto simp: list_all_iff)
  then show ?thesis by (simp add: name_ok_def segment_name_def)
qed

text \<open>What the caller has published before the log compacts: the ledger and the manifest of the snapshot.\<close>

definition published :: "disk \<Rightarrow> log_state \<Rightarrow> string \<Rightarrow> bool" where
  "published d l name \<longleftrightarrow> name_ok name \<and> name \<noteq> ''-'' \<and> d (manifest_path name) \<noteq> None
    \<and> d (ledger_path name) = Some (dedup_encode (lg_dedup l)) \<and> ledger_ok (lg_dedup l)"

text \<open>The history cut at the anchor.\<close>

lemma history_cut:
  assumes "hist_ok (old @ rs)" "snd (history old) = []" "length (seals_of old) \<le> anchor" "anchor \<le> length (seals_of (old @ rs))"
  defines "m \<equiv> anchor - length (seals_of old)"
  defines "pre \<equiv> sealed_records (length (seals_of old)) (take m (fst (history rs)))"
  defines "suf \<equiv> sealed_records anchor (drop m (fst (history rs))) @ map batch_record (snd (history rs))"
  shows "rs = pre @ suf" "length (seals_of (old @ pre)) = anchor" "snd (history (old @ pre)) = []"
    "snd (history suf) = snd (history rs)"
proof -
  let ?k = "length (seals_of old)"
  have m: "m \<le> length (fst (history rs))" using assms(4) by (simp add: m_def length_seals)
  have seals: "seals_of old @ seals_of rs = [1 ..< Suc (?k + length (seals_of rs))]" using assms(1) by (simp add: hist_ok_def)
  have "seals_of rs = drop ?k (seals_of old @ seals_of rs)" by simp
  also have "\<dots> = [Suc ?k ..< Suc ?k + length (fst (history rs))]" unfolding seals by (simp add: length_seals del: upt_Suc)
  finally have "rs = sealed_records ?k (fst (history rs)) @ map batch_record (snd (history rs))" by (rule records_of_history)
  also have "fst (history rs) = take m (fst (history rs)) @ drop m (fst (history rs))" by simp
  finally show "rs = pre @ suf"
    using m assms(3) unfolding sealed_records_append pre_def suf_def by (simp add: m_def)
  show "length (seals_of (old @ pre)) = anchor" using m assms(3) by (simp add: pre_def seals_of_sealed m_def)
  show "snd (history (old @ pre)) = []" using history_append [OF assms(2), of pre] by (simp add: pre_def history_sealed_records)
  show "snd (history suf) = snd (history rs)" by (simp add: suf_def history_batches history_sealed_records)
qed

lemma hist_index_known:
  assumes "hist_ok hist" "r \<in> set hist" "is_append r"
  shows "bt_get (index_tokens [] hist) (la_token r) = Some (content_hash r)"
  using assms index_tokens_known by (simp add: hist_ok_def)

text \<open>After the swap the directory is authoritative through the new pair.\<close>

lemma disk_at_swapped:
  assumes "hist_ok (old @ rs)" "snd (history old) = []" "pointer_ok \<lparr>pt_segment = segment_name k, pt_snapshot = Some name, pt_retained_from = length (seals_of old)\<rparr>"
    "k \<le> Suc (length (seals_of old))" "d [] = None" "d (segment_name k) = Some (segment_bytes rs)"
    "d (manifest_path name) \<noteq> None" "d (ledger_path name) = Some (dedup_encode (index_tokens [] (old @ rs)))"
    "ledger_ok (index_tokens [] (old @ rs))"
    "read_pointer d = Some \<lparr>pt_segment = segment_name k, pt_snapshot = Some name, pt_retained_from = length (seals_of old)\<rparr>"
  shows "disk_at d old rs (segment_name k) (Some name) (index_tokens [] (old @ rs))"
proof -
  have "index_tokens (index_tokens [] (old @ rs)) rs = index_tokens [] (old @ rs)"
    by (rule index_tokens_absorb) (use assms(1) hist_index_known [OF assms(1)] bt_ok_index [of "[]"] in \<open>auto simp del: index_tokens_simps\<close>)
  then show ?thesis
    using assms by (auto simp: disk_at_def pointed_def seed_dedup_def dedup_decode_encode file_holds_def ledger_ok_def)
qed

section \<open>Compaction keeps the history\<close>

text \<open>The copy of the retained epochs and the pending batches is the suffix of the records.\<close>

lemma compacted_segment:
  fixes seg :: string and snap :: "string option"
  assumes "log_at catalog sync l d old rs" "lg_retained_from l < anchor" "anchor \<le> log_sealed_epoch l"
  defines "m \<equiv> anchor - length (seals_of old)"
  defines "suf \<equiv> sealed_records anchor (drop m (fst (history rs))) @ map batch_record (snd (history rs))"
  defines "l0 \<equiv> fresh_log sync catalog seg anchor snap (lg_dedup l)"
  shows "copy_epochs d l [anchor + 1 ..< log_sealed_epoch l + 1] ([], [], 0)
      = (Ok (lg_sealed (replay_all l0 suf), lg_epoch_start (replay_all l0 suf)), segment_bytes (sealed_records anchor (drop m (fst (history rs)))))"
    and "segment_bytes suf = segment_bytes (sealed_records anchor (drop m (fst (history rs)))) @ concat (map (\<lambda>b. framed (batch_record b)) (lg_pending l))"
    and "index_tokens (lg_dedup l) suf = lg_dedup l"
proof -
  note facts = log_at_facts [OF assms(1)]
  let ?gs = "drop m (fst (history rs))"
  have sealed: "log_sealed_epoch l = anchor + length ?gs"
    using facts(5,9) assms(2,3) by (simp add: m_def length_seals)
  have epochs: "log_epoch d l (Suc (anchor + i)) = Ok (?gs ! i)" if "i < length ?gs" for i
  proof -
    have "log_epoch d l (Suc (anchor + i)) = Ok (fst (history (old @ rs)) ! (anchor + i))"
      using log_epoch_at [OF assms(1), of "Suc (anchor + i)"] assms(2) sealed that by simp
    then show ?thesis
      using history_append [OF facts(8), of rs] facts(5) assms(2) that
      by (simp add: nth_append length_seals m_def add.commute)
  qed
  have base: "lg_segment_len l0 = length ([] :: bytes)" "lg_sealed l0 = []" "lg_epoch_start l0 = 0" by (simp_all add: l0_def fresh_log_def)
  show "copy_epochs d l [anchor + 1 ..< log_sealed_epoch l + 1] ([], [], 0)
      = (Ok (lg_sealed (replay_all l0 suf), lg_epoch_start (replay_all l0 suf)), segment_bytes (sealed_records anchor ?gs))"
    using copy_epochs_records [OF epochs base] unfolding suf_def sealed by (simp add: replay_batches del: upt_Suc)
  show "segment_bytes suf = segment_bytes (sealed_records anchor ?gs) @ concat (map (\<lambda>b. framed (batch_record b)) (lg_pending l))"
    using facts(6) by (simp add: suf_def scanned_def batches_bytes_records [symmetric] batches_bytes_def)
  obtain pre where "rs = pre @ suf"
    using history_cut(1) [OF facts(4,8), of anchor] facts(5,9) assms(2,3) unfolding suf_def m_def by auto
  then have "set suf \<subseteq> set (old @ rs)" by auto
  then show "index_tokens (lg_dedup l) suf = lg_dedup l"
    unfolding facts(3) by (intro index_tokens_absorb bt_ok_index hist_index_known [OF facts(4)]) auto
qed

lemma seals_of_mem: "e \<in> set (seals_of rs) \<longleftrightarrow> LSealEpoch e \<in> set rs"
  by (induction rs) (auto simp: seals_of_def split: log_record.splits)

lemma log_compact_swap:
  assumes at: "log_at catalog sync l d old rs" and range: "lg_retained_from l < anchor" "anchor \<le> log_sealed_epoch l"
    and pub: "published d l name"
  defines "m \<equiv> anchor - length (seals_of old)"
  defines "pre \<equiv> sealed_records (length (seals_of old)) (take m (fst (history rs)))"
  defines "suf \<equiv> sealed_records anchor (drop m (fst (history rs))) @ map batch_record (snd (history rs))"
  obtains k where "lg_segment l = segment_name k" "next_segment_name l = segment_name (Suc k)"
    "\<And>d2. d2 [] = None \<Longrightarrow> d2 (segment_name (Suc k)) = Some (segment_bytes suf) \<Longrightarrow> d2 (manifest_path name) = d (manifest_path name)
      \<Longrightarrow> d2 (ledger_path name) = d (ledger_path name)
      \<Longrightarrow> read_pointer d2 = Some \<lparr>pt_segment = segment_name (Suc k), pt_snapshot = Some name, pt_retained_from = anchor\<rparr>
      \<Longrightarrow> disk_at d2 (old @ pre) suf (segment_name (Suc k)) (Some name) (lg_dedup l)"
    "pointer_ok \<lparr>pt_segment = segment_name (Suc k), pt_snapshot = Some name, pt_retained_from = anchor\<rparr>"
proof -
  note facts = log_at_facts [OF at]
  have cut: "rs = pre @ suf" "length (seals_of (old @ pre)) = anchor" "snd (history (old @ pre)) = []"
    using history_cut [OF facts(4,8), of anchor] facts(5,9) range unfolding m_def pre_def suf_def by simp_all
  have hist: "(old @ pre) @ suf = old @ rs" using cut(1) by simp
  obtain k where k: "lg_segment l = segment_name k" "k \<le> Suc (length (seals_of old))"
    using at by (auto simp: log_at_def disk_at_def fresh_log_def)
  have "set (seals_of (old @ rs)) = set [1 ..< Suc (log_sealed_epoch l)]" using facts(4,9) unfolding hist_ok_def by metis
  then have "anchor \<in> set (seals_of (old @ rs))" using range by (simp del: seals_of_simps) linarith
  then have "framed_ok (LSealEpoch anchor)" using facts(4) by (auto simp: hist_ok_def seals_of_mem list_all_iff)
  then have "fits_u64 anchor" by (simp add: framed_ok_def)
  then have fits: "fits_u64 k" using k(2) facts(5) range(1) by (simp add: fits_u64_def)
  have pok: "pointer_ok \<lparr>pt_segment = segment_name (Suc k), pt_snapshot = Some name, pt_retained_from = anchor\<rparr>"
    using \<open>fits_u64 anchor\<close> pub by (simp add: pointer_ok_def published_def segment_name_ok)
  show thesis
  proof (rule that [OF k(1) next_segment_name [OF k(1) fits] _ pok])
    fix d2 :: disk
    assume "d2 [] = None" "d2 (segment_name (Suc k)) = Some (segment_bytes suf)" "d2 (manifest_path name) = d (manifest_path name)"
      "d2 (ledger_path name) = d (ledger_path name)"
      "read_pointer d2 = Some \<lparr>pt_segment = segment_name (Suc k), pt_snapshot = Some name, pt_retained_from = anchor\<rparr>"
    then have "disk_at d2 (old @ pre) suf (segment_name (Suc k)) (Some name) (index_tokens [] ((old @ pre) @ suf))"
      using cut(2,3) facts(3,4,5) pok pub k(2) range(1) unfolding published_def
      by (intro disk_at_swapped) (simp_all only: hist cut(2), simp_all)
    then show "disk_at d2 (old @ pre) suf (segment_name (Suc k)) (Some name) (lg_dedup l)"
      unfolding hist facts(3) .
  qed
qed

lemma log_compact_stages:
  assumes at: "log_at catalog sync l d old rs" and range: "lg_retained_from l < anchor" "anchor \<le> log_sealed_epoch l"
    and pub: "published d l name"
  obtains d1 d2 d3 lnew where
    "\<And>fi. log_compact anchor (Some name) l d fi = at_seam CompactAfterSegmentBeforePointer l d1 fi
      (\<lambda>fi. at_seam CompactAfterPointerBeforeTrim l d2 fi (\<lambda>fi. (Ok (), lnew, d3, fi)))"
    "disk_holds d1 (old @ rs)" "disk_holds d2 (old @ rs)" "log_holds catalog sync lnew d3 (old @ rs)" "lg_retained_from lnew = anchor"
proof -
  note facts = log_at_facts [OF at]
  let ?m = "anchor - length (seals_of old)"
  let ?pre = "sealed_records (length (seals_of old)) (take ?m (fst (history rs)))"
  let ?suf = "sealed_records anchor (drop ?m (fst (history rs))) @ map batch_record (snd (history rs))"
  have cut: "old @ rs = (old @ ?pre) @ ?suf" "length (seals_of (old @ ?pre)) = anchor" "snd (history ?suf) = snd (history rs)"
    using history_cut(1,2,4) [OF facts(4,8), of anchor] facts(5,9) range by simp_all
  obtain k where k: "lg_segment l = segment_name k" "next_segment_name l = segment_name (Suc k)"
    and swap: "\<And>d2. d2 [] = None \<Longrightarrow> d2 (segment_name (Suc k)) = Some (segment_bytes ?suf) \<Longrightarrow> d2 (manifest_path name) = d (manifest_path name)
      \<Longrightarrow> d2 (ledger_path name) = d (ledger_path name)
      \<Longrightarrow> read_pointer d2 = Some \<lparr>pt_segment = segment_name (Suc k), pt_snapshot = Some name, pt_retained_from = anchor\<rparr>
      \<Longrightarrow> disk_at d2 (old @ ?pre) ?suf (segment_name (Suc k)) (Some name) (lg_dedup l)"
    and pok: "pointer_ok \<lparr>pt_segment = segment_name (Suc k), pt_snapshot = Some name, pt_retained_from = anchor\<rparr>"
    by (rule log_compact_swap [OF at range pub]) blast
  let ?p = "\<lparr>pt_segment = segment_name (Suc k), pt_snapshot = Some name, pt_retained_from = anchor\<rparr>"
  let ?d1 = "(d(segment_name (Suc k) @ ''.partial'' := None))(segment_name (Suc k) \<mapsto> segment_bytes ?suf)"
  let ?d2 = "write_pointer ?d1 ?p"
  let ?d3 = "?d2(segment_name k := None)"
  let ?lnew = "replay_all (fresh_log sync catalog (segment_name (Suc k)) anchor (Some name) (lg_dedup l)) ?suf"
  note copied = compacted_segment(1) [OF at range, where seg = "segment_name (Suc k)" and snap = "Some name"]
    and copied_bytes = compacted_segment(2) [OF at range] and known = compacted_segment(3) [OF at range]
  have scan: "scanned ?lnew ?suf" by (rule scanned_replay) (simp_all add: fresh_log_def)
  have lnew: "l\<lparr>lg_segment := segment_name (Suc k), lg_sealed := lg_sealed ?lnew, lg_segment_len := length (segment_bytes ?suf),
      lg_epoch_start := lg_epoch_start ?lnew, lg_retained_from := anchor, lg_snapshot := Some name\<rparr> = ?lnew"
  proof (rule log_state.equality)
    have "lg_pending l = lg_pending ?lnew" using scan facts(6) cut(3) by (simp only: scanned_def)
    then show "lg_pending (l\<lparr>lg_segment := segment_name (Suc k), lg_sealed := lg_sealed ?lnew, lg_segment_len := length (segment_bytes ?suf),
      lg_epoch_start := lg_epoch_start ?lnew, lg_retained_from := anchor, lg_snapshot := Some name\<rparr>) = lg_pending ?lnew" by simp
  qed (use facts(1,2) known scanned_len [OF scan] in \<open>simp_all add: fresh_log_def\<close>)
  have disk2: "disk_at ?d2 (old @ ?pre) ?suf (segment_name (Suc k)) (Some name) (lg_dedup l)"
    using at by (intro swap pointer_written pok) (auto simp: log_at_def disk_at_def)
  show thesis
  proof (rule that [where ?d1.0 = ?d1 and ?d2.0 = ?d2 and ?d3.0 = ?d3 and lnew = ?lnew])
    show "log_compact anchor (Some name) l d fi = at_seam CompactAfterSegmentBeforePointer l ?d1 fi
      (\<lambda>fi. at_seam CompactAfterPointerBeforeTrim l ?d2 fi (\<lambda>fi. (Ok (), ?lnew, ?d3, fi)))" for fi
      unfolding log_compact_def Let_def k copied using range copied_bytes lnew by simp
    obtain seg snap base where "disk_at d old rs seg snap base" "seg = segment_name k"
      using at k(1) by (auto simp: log_at_def fresh_log_def)
    then have "disk_at ?d1 old rs seg snap base" by (intro disk_at_cong [where d = d and d' = ?d1]) auto
    then show "disk_holds ?d1 (old @ rs)" unfolding disk_holds_def by blast
    show "disk_holds ?d2 (old @ rs)" unfolding cut(1) disk_holds_def using disk2 by blast
    have "disk_at ?d3 (old @ ?pre) ?suf (segment_name (Suc k)) (Some name) (lg_dedup l)"
      by (rule disk_at_cong [OF disk2]) auto
    then have "log_at catalog sync ?lnew ?d3 (old @ ?pre) ?suf" unfolding log_at_def cut(2) by blast
    then show "log_holds catalog sync ?lnew ?d3 (old @ rs)" unfolding cut(1) log_holds_def by blast
    show "lg_retained_from ?lnew = anchor" by (simp add: fresh_log_def)
  qed
qed

lemma log_compact_holds:
  assumes holds: "log_holds catalog sync l d hist" and run: "log_compact anchor snapshot l d fi = (res, l', d', fi')"
    and pub: "\<And>name. snapshot = Some name \<Longrightarrow> published d l name"
  shows "disk_holds d' hist" "\<not> crashed res \<Longrightarrow> log_holds catalog sync l' d' hist"
    "res = Ok () \<Longrightarrow> lg_retained_from l' = anchor"
proof -
  obtain old rs where h: "hist = old @ rs" and at: "log_at catalog sync l d old rs"
    using holds by (auto simp: log_holds_def)
  consider (early) e where "res = Err e" "l' = l" "d' = d"
    | (work) name where "snapshot = Some name" "lg_retained_from l < anchor" "anchor \<le> log_sealed_epoch l"
    using run by (cases snapshot) (auto simp: log_compact_def split: if_splits)
  then have "disk_holds d' hist \<and> (\<not> crashed res \<longrightarrow> log_holds catalog sync l' d' hist)
    \<and> (res = Ok () \<longrightarrow> lg_retained_from l' = anchor)"
  proof cases
    case early
    then show ?thesis using holds log_holds_disk [OF holds] by simp
  next
    case (work name)
    obtain d1 d2 d3 lnew where stages:
      "log_compact anchor (Some name) l d fi = at_seam CompactAfterSegmentBeforePointer l d1 fi
        (\<lambda>fi. at_seam CompactAfterPointerBeforeTrim l d2 fi (\<lambda>fi. (Ok (), lnew, d3, fi)))"
      "disk_holds d1 hist" "disk_holds d2 hist" "log_holds catalog sync lnew d3 hist" "lg_retained_from lnew = anchor"
      using log_compact_stages [OF at work(2,3) pub [OF work(1)]] h by metis
    have "at_seam CompactAfterSegmentBeforePointer l d1 fi
        (\<lambda>fi. at_seam CompactAfterPointerBeforeTrim l d2 fi (\<lambda>fi. (Ok (), lnew, d3, fi))) = (res, l', d', fi')"
      using run stages(1) work(1) by simp
    then show ?thesis
      using stages(2-5) log_holds_disk [OF stages(4)] by (elim at_seam_cases) (auto elim!: at_seam_cases)
  qed
  then show "disk_holds d' hist" "\<not> crashed res \<Longrightarrow> log_holds catalog sync l' d' hist"
    "res = Ok () \<Longrightarrow> lg_retained_from l' = anchor" by blast+
qed

end
