(* ===== verification/Log_Run.thy ===== *)
theory Log_Run
  imports Log_Compact
begin

text \<open>
  Runs of a log directory: opening, appending, sealing, publishing a snapshot and compacting to it, with the
  process dying between operations or at any of the seams the code names inside one. The run keeps the
  acknowledgements that were given, so that what was promised can be compared with what a later open
  finds. Two things are not steps of a run, because the promise does not survive them, and are treated
  beside it in \<open>Log_Claims\<close>: a write that stops between two bytes of a record, and the append of a batch
  whose payload is too long for the 32-bit length of a frame.
\<close>

section \<open>Runs\<close>

inductive log_run ::
  "string \<Rightarrow> (string, schema) btree \<Rightarrow> sync_policy \<Rightarrow> log_state option \<Rightarrow> disk \<Rightarrow> (ack \<times> log_record) list \<Rightarrow> bool"
  for dir catalog sync where
  run_init: "log_run dir catalog sync None Map.empty []"
| run_open: "log_run dir catalog sync None d acked \<Longrightarrow> log_open dir catalog sync d fi = (Ok l, fi')
    \<Longrightarrow> log_run dir catalog sync (Some l) d acked"
| run_append: "log_run dir catalog sync (Some l) d acked \<Longrightarrow> framed_ok (LAppend source token table es)
    \<Longrightarrow> log_append source table es token l d fi = (res, l', d', fi')
    \<Longrightarrow> log_run dir catalog sync (if crashed res then None else Some l') d'
          (case res of Inr a \<Rightarrow> (a, LAppend source token table es) # acked | Inl _ \<Rightarrow> acked)"
| run_seal: "log_run dir catalog sync (Some l) d acked \<Longrightarrow> fits_u64 (Suc (log_sealed_epoch l))
    \<Longrightarrow> log_seal l d fi = (res, l', d', fi')
    \<Longrightarrow> log_run dir catalog sync (if crashed res then None else Some l') d' acked"
| run_publish: "log_run dir catalog sync (Some l) d acked \<Longrightarrow> Some name \<noteq> lg_snapshot l
    \<Longrightarrow> log_run dir catalog sync (Some l) (d(manifest_path name \<mapsto> m, ledger_path name \<mapsto> dedup_encode (lg_dedup l))) acked"
| run_compact: "log_run dir catalog sync (Some l) d acked \<Longrightarrow> published d l name
    \<Longrightarrow> log_compact anchor (Some name) l d fi = (res, l', d', fi')
    \<Longrightarrow> log_run dir catalog sync (if crashed res then None else Some l') d' acked"
| run_crash: "log_run dir catalog sync (Some l) d acked \<Longrightarrow> log_run dir catalog sync None d acked"

text \<open>What an acknowledgement promises of the history.\<close>

definition promised :: "(string, schema) btree \<Rightarrow> log_record list \<Rightarrow> ack \<times> log_record \<Rightarrow> bool" where
  "promised catalog hist ar \<longleftrightarrow> is_append (snd ar) \<and> validate_batch catalog (la_table (snd ar)) (la_entries (snd ar)) = Ok ()
    \<and> bt_get (index_tokens [] hist) (la_token (snd ar)) = Some (content_hash (snd ar))
    \<and> (fst ar = Appended \<longrightarrow> snd ar \<in> set hist)"

definition run_inv :: "(string, schema) btree \<Rightarrow> sync_policy \<Rightarrow> log_state option \<Rightarrow> disk \<Rightarrow> (ack \<times> log_record) list \<Rightarrow> log_record list \<Rightarrow> bool" where
  "run_inv catalog sync st d acked hist \<longleftrightarrow> disk_holds d hist \<and> list_all (promised catalog hist) acked
    \<and> (case st of None \<Rightarrow> True | Some l \<Rightarrow> log_holds catalog sync l d hist)"

lemma disk_holds_empty: "disk_holds Map.empty []"
proof -
  have "disk_at Map.empty [] [] default_segment None []"
    by (auto simp: disk_at_def pointed_def read_pointer_def seed_dedup_def file_holds_def hist_ok_def default_segment_name)
  then show ?thesis unfolding disk_holds_def by blast
qed

lemma disk_holds_ok: "disk_holds d hist \<Longrightarrow> hist_ok hist"
  by (auto simp: disk_holds_def disk_at_def)

text \<open>A promise outlives every further record.\<close>

lemma promised_grows:
  assumes "promised catalog hist ar" "hist_ok (hist @ [r])"
  shows "promised catalog (hist @ [r]) ar"
proof (cases r)
  case (LAppend s t b es)
  have "la_token (snd ar) \<in> set (tokens_of hist)"
    using assms(1) index_tokens_keys [of hist] by (force simp: promised_def bt_get_def dest: map_of_SomeD)
  then have "la_token (snd ar) \<noteq> t" using assms(2) LAppend by (auto simp: hist_ok_def)
  then show ?thesis using assms(1) LAppend by (simp add: promised_def bt_get_insert)
next
  case (LSealEpoch e)
  then show ?thesis using assms(1) by (simp add: promised_def)
qed

lemma log_append_validated:
  "log_append source table es token l d fi = (Ok a, l', d', fi') \<Longrightarrow> validate_batch (lg_catalog l) table es = Ok ()"
  by (auto simp: log_append_def at_seam_def split: prod.splits if_splits sum.splits)

lemma log_append_ack:
  assumes "log_append source table es token l d fi = (Ok a, l', d', fi')"
  shows "a = Appended \<and> bt_get (lg_dedup l) token = None \<and> l' = replay_record l (LAppend source token table es) (length (framed (LAppend source token table es)))
    \<or> a = DroppedAsReplay \<and> bt_get (lg_dedup l) token = Some (content_hash (LAppend source token table es)) \<and> l' = l \<and> d' = d"
  by (cases rule: log_append_cases [OF assms]) auto

lemma run_inv_append:
  assumes inv: "run_inv catalog sync (Some l) d acked hist" and ok: "framed_ok (LAppend source token table es)"
    and run: "log_append source table es token l d fi = (res, l', d', fi')"
  shows "\<exists>hist'. run_inv catalog sync (if crashed res then None else Some l') d'
      (case res of Inr a \<Rightarrow> (a, LAppend source token table es) # acked | Inl _ \<Rightarrow> acked) hist'"
proof -
  let ?r = "LAppend source token table es"
  have holds: "log_holds catalog sync l d hist" and kept: "list_all (promised catalog hist) acked"
    using inv by (simp_all add: run_inv_def)
  obtain hist' where grown: "hist' \<in> {hist, hist @ [?r]}" "disk_holds d' hist'" "\<not> crashed res \<Longrightarrow> log_holds catalog sync l' d' hist'"
    using log_append_holds [OF holds ok run] by blast
  have kept': "list_all (promised catalog hist') acked"
    using kept grown(1) promised_grows [of catalog hist _ ?r] disk_holds_ok [OF grown(2)] by (auto simp: list_all_iff)
  have "promised catalog hist' (a, ?r)" if res: "res = Ok a" for a
  proof -
    have after: "log_holds catalog sync l' d' hist'" using grown(3) res by simp
    have known: "lg_dedup l' = index_tokens [] hist'" using log_holds_views(3) [OF after] .
    have valid: "validate_batch catalog table es = Ok ()"
      using log_append_validated [of source table es token l d fi a l' d' fi'] run res log_holds_views(5) [OF holds] by simp
    from log_append_ack [of source table es token l d fi a l' d' fi'] run res
    consider "a = Appended" "bt_get (lg_dedup l) token = None" "lg_dedup l' = bt_insert token (content_hash ?r) (lg_dedup l)"
      | "a = DroppedAsReplay" "bt_get (lg_dedup l') token = Some (content_hash ?r)"
      by (auto simp: replay_record_def)
    then show ?thesis
    proof cases
      case 1
      have now: "bt_get (lg_dedup l') token = Some (content_hash ?r)" using 1(3) by (simp add: bt_get_insert)
      have "hist' \<noteq> hist" using 1(2) now known log_holds_views(3) [OF holds] by auto
      then show ?thesis using now known valid grown(1) by (auto simp: promised_def)
    next
      case 2
      then show ?thesis using known valid by (simp add: promised_def)
    qed
  qed
  then have "run_inv catalog sync (if crashed res then None else Some l') d' (case res of Inr a \<Rightarrow> (a, ?r) # acked | Inl _ \<Rightarrow> acked) hist'"
    using grown kept' by (auto simp: run_inv_def split: sum.split)
  then show ?thesis ..
qed

lemma path_of_inject: "manifest_path a = manifest_path b \<Longrightarrow> a = b" "ledger_path a = ledger_path b \<Longrightarrow> a = b"
  by (simp_all add: manifest_path_def ledger_path_def)

lemma run_inv_publish:
  assumes "log_holds catalog sync l d hist" "Some name \<noteq> lg_snapshot l"
  shows "log_holds catalog sync l (d(manifest_path name \<mapsto> m, ledger_path name \<mapsto> bs)) hist"
proof -
  obtain old rs seg snap base where at: "hist = old @ rs" "disk_at d old rs seg snap base"
    "l = replay_all (fresh_log sync catalog seg (length (seals_of old)) snap base) rs"
    using assms(1) by (auto simp: log_holds_def log_at_def)
  obtain k where k: "seg = segment_name k" using at(2) by (auto simp: disk_at_def)
  have snap: "lg_snapshot l = snap" using at(3) by (simp add: fresh_log_def)
  have apart: "manifest_path a \<noteq> ledger_path b" "ledger_path b \<noteq> manifest_path a" for a b
  proof -
    have "last (manifest_path a) \<noteq> last (ledger_path b)" by (simp add: manifest_path_def ledger_path_def)
    then show "manifest_path a \<noteq> ledger_path b" "ledger_path b \<noteq> manifest_path a" by metis+
  qed
  have "disk_at (d(manifest_path name \<mapsto> m, ledger_path name \<mapsto> bs)) old rs seg snap base"
    using assms(2) snap k
    by (intro disk_at_cong [OF at(2)])
      (auto simp: apart snapshot_paths_apart [symmetric] dest: path_of_inject)
  then show ?thesis using at unfolding log_holds_def log_at_def by blast
qed

lemma log_run_inv: "log_run dir catalog sync st d acked \<Longrightarrow> \<exists>hist. run_inv catalog sync st d acked hist"
proof (induction rule: log_run.induct)
  case run_init
  have "run_inv catalog sync None Map.empty [] []" using disk_holds_empty by (simp add: run_inv_def)
  then show ?case ..
next
  case (run_open d acked fi l fi')
  then obtain hist where "run_inv catalog sync None d acked hist" by blast
  then have "run_inv catalog sync (Some l) d acked hist"
    using log_open_holds [OF _ run_open(2)] by (simp add: run_inv_def)
  then show ?case ..
next
  case (run_append l d acked source token table es fi res l' d' fi')
  then obtain hist where "run_inv catalog sync (Some l) d acked hist" by blast
  then show ?case using run_inv_append run_append(2,3) by blast
next
  case (run_seal l d acked fi res l' d' fi')
  then obtain hist where inv: "run_inv catalog sync (Some l) d acked hist" by blast
  then have holds: "log_holds catalog sync l d hist" by (simp add: run_inv_def)
  obtain hist' where grown: "hist' \<in> {hist, hist @ [LSealEpoch (Suc (log_sealed_epoch l))]}" "disk_holds d' hist'"
    "\<not> crashed res \<Longrightarrow> log_holds catalog sync l' d' hist'"
    using log_seal_holds [OF holds run_seal(2,3)] by blast
  then have "list_all (promised catalog hist') acked"
    using inv promised_grows [of catalog hist] disk_holds_ok [OF grown(2)] by (auto simp: run_inv_def list_all_iff)
  then have "run_inv catalog sync (if crashed res then None else Some l') d' acked hist'"
    using grown by (simp add: run_inv_def)
  then show ?case ..
next
  case (run_publish l d acked name m)
  then obtain hist where inv: "run_inv catalog sync (Some l) d acked hist" by blast
  then have "log_holds catalog sync l (d(manifest_path name \<mapsto> m, ledger_path name \<mapsto> dedup_encode (lg_dedup l))) hist"
    using run_inv_publish run_publish(2) by (simp add: run_inv_def)
  then have "run_inv catalog sync (Some l) (d(manifest_path name \<mapsto> m, ledger_path name \<mapsto> dedup_encode (lg_dedup l))) acked hist"
    using inv log_holds_disk by (auto simp: run_inv_def)
  then show ?case ..
next
  case (run_compact l d acked name anchor fi res l' d' fi')
  then obtain hist where inv: "run_inv catalog sync (Some l) d acked hist" by blast
  then have holds: "log_holds catalog sync l d hist" by (simp add: run_inv_def)
  have "run_inv catalog sync (if crashed res then None else Some l') d' acked hist"
    using log_compact_holds(1,2) [OF holds run_compact(3)] run_compact(2) inv by (simp add: run_inv_def)
  then show ?case ..
next
  case (run_crash l d acked)
  then show ?case by (auto simp: run_inv_def)
qed

end
