(* ===== verification/Log_Claims.thy ===== *)
theory Log_Claims
  imports Log_Run
begin

text \<open>
  What the log promises its callers across reopening, compaction and crashes at the seams: acknowledged
  batches are never lost and never applied twice, sealed epochs never change, a reopened log is the log
  that was running, and the streaming reader sees the same epochs. A write torn in the middle is
  discarded by the next open. Two properties are about broken promises: a record acknowledged after a torn
  tail is lost, and so is a record whose payload does not fit the 32-bit length of its frame.
\<close>

section \<open>All the batches of a log\<close>

definition log_batches :: "disk \<Rightarrow> log_state \<Rightarrow> (log_error, batch list) result" where
  "log_batches d l = bindR (mapR (log_epoch d l) [Suc (lg_retained_from l) ..< Suc (log_sealed_epoch l)])
    (\<lambda>gs. Ok (concat gs @ lg_pending l))"

lemma history_flat: "concat (fst (history hist)) @ snd (history hist) = map record_batch (filter is_append hist)"
proof (induction hist rule: rev_induct)
  case (snoc r hist)
  then show ?case by (cases r) (simp_all add: record_batch_def flip: append_assoc)
qed simp

lemma history_tokens: "map ba_token (concat (fst (history hist)) @ snd (history hist)) = tokens_of hist"
  unfolding history_flat by (simp add: tokens_of_def record_batch_def)

lemma log_batches_history:
  assumes "log_holds catalog sync l d hist"
  shows "log_batches d l = Ok (concat (drop (lg_retained_from l) (fst (history hist))) @ snd (history hist))"
proof -
  note views = log_holds_views [OF assms]
  have "mapR (log_epoch d l) [Suc (lg_retained_from l) ..< Suc (log_sealed_epoch l)]
      = Ok (map (\<lambda>e. fst (history hist) ! (e - 1)) [Suc (lg_retained_from l) ..< Suc (log_sealed_epoch l)])"
    by (rule mapR_all_Ok, rule log_epoch_history [OF assms]) auto
  also have "map (\<lambda>e. fst (history hist) ! (e - 1)) [Suc (lg_retained_from l) ..< Suc (log_sealed_epoch l)]
      = drop (lg_retained_from l) (fst (history hist))"
    by (rule nth_equalityI) (use views(2) in \<open>simp_all del: upt_Suc\<close>)
  finally show ?thesis using views(1) by (simp add: log_batches_def del: upt_Suc)
qed

section \<open>Promises kept\<close>

lemma log_open_unplanned:
  assumes "disk_holds d hist"
  obtains l where "\<And>fi. fi_plan fi = None \<Longrightarrow> fst (log_open dir catalog sync d fi) = Ok l" "log_holds catalog sync l d hist"
proof -
  obtain old rs seg snap base where at: "hist = old @ rs" "disk_at d old rs seg snap base"
    using assms by (auto simp: disk_holds_def)
  show thesis
    using that [of "replay_all (fresh_log sync catalog seg (length (seals_of old)) snap base) rs"]
      log_open_at(2) [OF at(2)] at unfolding log_holds_def log_at_def by blast
qed

lemma at_seam_unplanned: "fi_plan fi = None \<Longrightarrow> at_seam s l d fi k = k (snd (reached s fi))"
  using reached_unplanned [of fi s] by (cases "reached s fi") (simp add: at_seam_def)

lemma log_append_replay:
  assumes "fi_plan fi = None" "validate_batch (lg_catalog l) table es = Ok ()"
    "bt_get (lg_dedup l) token = Some (content_hash (LAppend source token table es))"
  shows "\<exists>fi'. log_append source table es token l d fi = (Ok DroppedAsReplay, l, d, fi')"
  using assms by (simp add: log_append_def at_seam_unplanned)

text \<open>
  C3. An acknowledged batch is never lost and never applied twice. After any run of opens, appends of batches
  under 4 GiB, seals, snapshot publications and compactions, with a crash between operations or at any
  seam inside one, the directory opens, and offering an acknowledged batch again is recognised as a
  replay that changes neither the log nor the disk.
\<close>

theorem acknowledged_batch_is_replayed_once:
  assumes "log_run dir catalog sync st d acked" "(a, LAppend source token table es) \<in> set acked" "fi_plan fi = None"
  shows "\<exists>l. fst (log_open dir catalog sync d inert) = Ok l
    \<and> (\<exists>fi'. log_append source table es token l d fi = (Ok DroppedAsReplay, l, d, fi'))"
proof -
  obtain hist where inv: "run_inv catalog sync st d acked hist" using log_run_inv [OF assms(1)] by blast
  then obtain l where l: "\<And>fi. fi_plan fi = None \<Longrightarrow> fst (log_open dir catalog sync d fi) = Ok l" "log_holds catalog sync l d hist"
    using log_open_unplanned [of d hist dir catalog sync] by (auto simp: run_inv_def)
  have "promised catalog hist (a, LAppend source token table es)"
    using inv assms(2) by (auto simp: run_inv_def list_all_iff)
  then have "\<exists>fi'. log_append source table es token l d fi = (Ok DroppedAsReplay, l, d, fi')"
    using log_holds_views(3,5) [OF l(2)] by (intro log_append_replay [OF assms(3)]) (simp_all add: promised_def)
  then show ?thesis using l(1) [of inert] by (auto simp: inert_def)
qed

text \<open>
  C7. No batch is in the log twice. In every state a run can reach, all retained epochs can be read, no two
  batches among them and the pending ones carry the same token, and while nothing has been compacted away
  every batch acknowledged as appended is there.
\<close>

theorem log_holds_each_batch_once:
  assumes "log_run dir catalog sync (Some l) d acked"
  shows "\<exists>bs. log_batches d l = Ok bs \<and> distinct (map ba_token bs)
    \<and> (lg_retained_from l = 0 \<longrightarrow> (\<forall>r. (Appended, r) \<in> set acked \<longrightarrow> record_batch r \<in> set bs))"
proof -
  obtain hist where inv: "run_inv catalog sync (Some l) d acked hist" using log_run_inv [OF assms] by blast
  then have holds: "log_holds catalog sync l d hist" by (simp add: run_inv_def)
  let ?gs = "fst (history hist)"
  let ?n = "lg_retained_from l"
  have "concat ?gs = concat (take ?n ?gs) @ concat (drop ?n ?gs)" by (simp flip: concat_append)
  then have "distinct (map ba_token (concat (take ?n ?gs) @ concat (drop ?n ?gs) @ snd (history hist)))"
    using history_tokens [of hist] log_holds_views(4) [OF holds] by (simp add: hist_ok_def)
  then have once: "distinct (map ba_token (concat (drop ?n ?gs) @ snd (history hist)))" by simp
  have "record_batch r \<in> set (concat ?gs @ snd (history hist))" if "(Appended, r) \<in> set acked" for r
    using inv that unfolding history_flat by (force simp: run_inv_def list_all_iff promised_def)
  then show ?thesis using log_batches_history [OF holds] once by auto
qed

text \<open>
  C6. Recovery restores the log that was running. In every state a run can reach, opening the directory
  afresh gives exactly the log in memory: the same index of tokens, spans, pending batches and positions.
\<close>

theorem reopening_restores_the_log:
  assumes "log_run dir catalog sync (Some l) d acked" "fi_plan fi = None"
  shows "fst (log_open dir catalog sync d fi) = Ok l"
proof -
  obtain hist where "run_inv catalog sync (Some l) d acked hist" using log_run_inv [OF assms(1)] by blast
  then have "log_holds catalog sync l d hist" by (simp add: run_inv_def)
  then show ?thesis by (rule log_reopen [OF _ assms(2)])
qed

lemma replay_record_retained [simp]: "lg_retained_from (replay_record l r n) = lg_retained_from l"
  by (simp add: replay_record_def split: log_record.split)

lemma log_append_retained: "log_append source table es token l d fi = (res, l', d', fi') \<Longrightarrow> lg_retained_from l' = lg_retained_from l"
  by (erule log_append_cases) simp_all

lemma log_seal_retained: "log_seal l d fi = (res, l', d', fi') \<Longrightarrow> lg_retained_from l' = lg_retained_from l"
  by (erule log_seal_cases) simp_all

lemma history_grows: "fst (history (hist @ [r])) = fst (history hist) \<or> fst (history (hist @ [r])) = fst (history hist) @ [snd (history hist)]"
  by (cases r) simp_all

lemma log_epoch_stable:
  assumes "log_holds catalog sync l d hist" "log_holds catalog sync l' d' hist'" "hist' \<in> {hist, hist @ [r]}"
    "lg_retained_from l' = lg_retained_from l" "lg_retained_from l < e" "e \<le> log_sealed_epoch l"
  shows "log_epoch d' l' e = log_epoch d l e" "e \<le> log_sealed_epoch l'"
proof -
  have grown: "fst (history hist') ! (e - 1) = fst (history hist) ! (e - 1)" "e \<le> length (fst (history hist'))"
    using assms(3,5,6) history_grows [of hist r] log_holds_views(2) [OF assms(1)] by (auto simp: nth_append)
  then show "e \<le> log_sealed_epoch l'" using log_holds_views(2) [OF assms(2)] by simp
  then show "log_epoch d' l' e = log_epoch d l e"
    using log_epoch_history [OF assms(1,5,6)] log_epoch_history [OF assms(2), of e] assms(4,5) grown by simp
qed

text \<open>
  C12. Sealed epochs are immutable. Reading an epoch that was sealed before an append or a seal gives the
  same batches after it, whatever the operations returned, as long as the process survived them.
\<close>

theorem sealed_epochs_are_immutable:
  assumes "log_run dir catalog sync (Some l) d acked" "lg_retained_from l < e" "e \<le> log_sealed_epoch l"
    "framed_ok (LAppend source token table es)" "log_append source table es token l d fi = (res, l1, d1, fi1)" "\<not> crashed res"
    "fits_u64 (Suc (log_sealed_epoch l1))" "log_seal l1 d1 fi1 = (res2, l2, d2, fi2)" "\<not> crashed res2"
  shows "log_epoch d1 l1 e = log_epoch d l e \<and> log_epoch d2 l2 e = log_epoch d l e"
proof -
  obtain hist where "run_inv catalog sync (Some l) d acked hist" using log_run_inv [OF assms(1)] by blast
  then have holds: "log_holds catalog sync l d hist" by (simp add: run_inv_def)
  obtain hist1 where h1: "hist1 \<in> {hist, hist @ [LAppend source token table es]}" "log_holds catalog sync l1 d1 hist1"
    using log_append_holds [OF holds assms(4,5)] assms(6) by blast
  obtain hist2 where h2: "hist2 \<in> {hist1, hist1 @ [LSealEpoch (Suc (log_sealed_epoch l1))]}" "log_holds catalog sync l2 d2 hist2"
    using log_seal_holds [OF h1(2) assms(7,8)] assms(9) by blast
  note first = log_epoch_stable [OF holds h1(2,1) log_append_retained [OF assms(5)] assms(2,3)]
  have "log_epoch d2 l2 e = log_epoch d1 l1 e"
    using log_epoch_stable(1) [OF h1(2) h2(2,1) log_seal_retained [OF assms(8)], of e] first(2) assms(2)
      log_append_retained [OF assms(5)] by simp
  then show ?thesis using first(1) by simp
qed

text \<open>
  C4. Compaction discards nothing it should keep. However a compaction to a published snapshot ends, with
  success, with an error or at one of its crash points, the directory opens to a log with the same epoch
  count, the same pending batches and the same index of acknowledged tokens, in which every epoch after its
  retained prefix reads as it did before; on success that prefix ends at the anchor.
\<close>

theorem compaction_keeps_what_it_must:
  assumes "log_run dir catalog sync (Some l) d acked" "published d l name"
    "log_compact anchor (Some name) l d fi = (res, l', d', fi')"
  shows "\<exists>l2. fst (log_open dir catalog sync d' inert) = Ok l2
    \<and> log_sealed_epoch l2 = log_sealed_epoch l \<and> lg_pending l2 = lg_pending l \<and> lg_dedup l2 = lg_dedup l
    \<and> (\<forall>e. lg_retained_from l < e \<and> lg_retained_from l2 < e \<longrightarrow> log_epoch d' l2 e = log_epoch d l e)
    \<and> (res = Ok () \<longrightarrow> l2 = l' \<and> lg_retained_from l2 = anchor)"
proof -
  obtain hist where "run_inv catalog sync (Some l) d acked hist" using log_run_inv [OF assms(1)] by blast
  then have holds: "log_holds catalog sync l d hist" by (simp add: run_inv_def)
  note kept = log_compact_holds [OF holds assms(3)]
  have pub: "\<And>n. Some name = Some n \<Longrightarrow> published d l n" using assms(2) by simp
  obtain l2 where l2: "\<And>fi. fi_plan fi = None \<Longrightarrow> fst (log_open dir catalog sync d' fi) = Ok l2" "log_holds catalog sync l2 d' hist"
    using log_open_unplanned [OF kept(1) [OF pub], of dir catalog sync] by blast
  have "log_epoch d' l2 e = log_epoch d l e" if "lg_retained_from l < e" "lg_retained_from l2 < e" for e
  proof (cases "e \<le> log_sealed_epoch l")
    case True
    then show ?thesis
      using log_epoch_history [OF holds that(1)] log_epoch_history [OF l2(2) that(2)] log_holds_views(2) [OF holds]
        log_holds_views(2) [OF l2(2)] by simp
  next
    case False
    then show ?thesis using that log_holds_views(2) [OF holds] log_holds_views(2) [OF l2(2)] by (simp add: log_epoch_def)
  qed
  moreover have "l2 = l' \<and> lg_retained_from l2 = anchor" if "res = Ok ()"
    using that kept(2,3) [OF pub] log_reopen [of catalog sync l' d' hist inert dir] l2(1) [of inert] by (auto simp: inert_def)
  moreover have "fst (log_open dir catalog sync d' inert) = Ok l2" using l2(1) [of inert] by (simp add: inert_def)
  ultimately show ?thesis using log_holds_views(1-3) [OF holds] log_holds_views(1-3) [OF l2(2)] by auto
qed

section \<open>The streaming reader\<close>

lemma epochs_loop_batches:
  assumes "group_ok g"
  shows "epochs_loop (batches_bytes g @ rest) acc = epochs_loop rest (acc @ g)"
  using assms
proof (induction g arbitrary: acc)
  case (Cons b g)
  have same: "\<lparr>ba_source = ba_source b, ba_token = ba_token b, ba_table = ba_table b, ba_entries = ba_entries b\<rparr> = b" by simp
  show ?case
    using Cons read_framed_whole [of "batch_record b"]
    by (simp add: epochs_loop.simps [of "framed _ @ _"] batch_record_def same group_ok_def)
qed simp

lemma epochs_loop_end: "epochs_loop [] acc = (None, \<lparr>er_rest = [], er_pending = acc, er_done = True\<rparr>)"
  by (simp add: epochs_loop.simps)

lemma epochs_loop_seal:
  "framed_ok (LSealEpoch e) \<Longrightarrow> epochs_loop (framed (LSealEpoch e) @ rest) acc
    = (Some (Ok \<lparr>se_epoch = e, se_batches = acc\<rparr>), \<lparr>er_rest = rest, er_pending = [], er_done = False\<rparr>)"
  by (simp add: epochs_loop.simps [of "framed _ @ _"] read_framed_whole)

lemma epochs_collect_records:
  assumes "list_all group_ok gs" "group_ok p" "\<And>e. e \<in> set [Suc k ..< Suc k + length gs] \<Longrightarrow> framed_ok (LSealEpoch e)"
  shows "epochs_collect \<lparr>er_rest = segment_bytes (sealed_records k gs @ map batch_record p), er_pending = [], er_done = False\<rparr>
    = (map2 (\<lambda>e g. \<lparr>se_epoch = e, se_batches = g\<rparr>) [Suc k ..< Suc k + length gs] gs, None)"
  using assms
proof (induction gs arbitrary: k)
  case Nil
  then show ?case
    using epochs_loop_batches [of p "[]" "[]"]
    by (simp add: epochs_collect.simps epochs_next_def epochs_loop_end flip: batches_bytes_records)
next
  case (Cons g gs)
  have seal: "framed_ok (LSealEpoch (Suc k))" by (rule Cons.prems(3)) (simp del: upt_Suc)
  have IH: "epochs_collect \<lparr>er_rest = segment_bytes (sealed_records (Suc k) gs @ map batch_record p), er_pending = [], er_done = False\<rparr>
    = (map2 (\<lambda>e g. \<lparr>se_epoch = e, se_batches = g\<rparr>) [Suc (Suc k) ..< Suc (Suc k) + length gs] gs, None)"
    by (rule Cons.IH) (use Cons.prems in auto)
  have range: "[Suc k ..< Suc k + length (g # gs)] = Suc k # [Suc (Suc k) ..< Suc (Suc k) + length gs]"
    by (subst upt_conv_Cons) (simp_all del: upt_Suc)
  show ?case
    unfolding range using IH Cons.prems(1) seal
    by (subst epochs_collect.simps)
      (simp add: epochs_next_def epochs_loop_batches epochs_loop_seal batches_bytes_records [symmetric] del: upt_Suc)
qed

text \<open>
  C13. The streaming reader sees what the log holds. Walking the segment of any log a run can reach yields, in
  order and without error, exactly the sealed epochs after the retained prefix, each with its number and with
  the batches the log itself reads for it.
\<close>

theorem streamed_epochs_are_the_log:
  assumes "log_run dir catalog sync (Some l) d acked" "epochs_open d (lg_segment l) = Ok er"
  shows "\<exists>xs. epochs_collect er = (xs, None) \<and> map se_epoch xs = [Suc (lg_retained_from l) ..< Suc (log_sealed_epoch l)]
    \<and> list_all (\<lambda>x. log_epoch d l (se_epoch x) = Ok (se_batches x)) xs"
proof -
  obtain hist where "run_inv catalog sync (Some l) d acked hist" using log_run_inv [OF assms(1)] by blast
  then obtain old rs where at: "log_at catalog sync l d old rs" by (auto simp: run_inv_def log_holds_def)
  note facts = log_at_facts [OF at]
  let ?gs = "fst (history rs)"
  let ?k = "lg_retained_from l"
  have er: "er = \<lparr>er_rest = segment_bytes rs, er_pending = [], er_done = False\<rparr>"
    using assms(2) facts(7) by (auto simp: epochs_open_def file_holds_def)
  have seals: "seals_of rs = [Suc ?k ..< Suc ?k + length ?gs]"
  proof -
    have "seals_of rs = drop ?k (seals_of old @ seals_of rs)" using facts(5) by simp
    also have "\<dots> = drop ?k [1 ..< Suc (length (seals_of (old @ rs)))]" using facts(4) by (metis hist_ok_def seals_of_simps(2))
    finally show ?thesis using facts(5) by (simp add: length_seals del: upt_Suc)
  qed
  have rs: "rs = sealed_records ?k ?gs @ map batch_record (snd (history rs))" by (rule records_of_history [OF seals])
  have ok: "list_all framed_ok rs" using facts(4) by (simp add: hist_ok_def)
  have "epochs_collect er = (map2 (\<lambda>e g. \<lparr>se_epoch = e, se_batches = g\<rparr>) [Suc ?k ..< Suc ?k + length ?gs] ?gs, None)"
    unfolding er by (subst rs, rule epochs_collect_records)
      (use history_groups_ok [OF ok] seals ok seals_of_mem [of _ rs] in \<open>auto simp: list_all_iff simp del: upt_Suc\<close>)
  moreover have "log_sealed_epoch l = ?k + length ?gs" by (rule scanned_sealed [OF facts(6)])
  moreover have "log_epoch d l (Suc (?k + i)) = Ok (?gs ! i)" if "i < length ?gs" for i
    using log_epoch_scanned [OF facts(6,7) ok, of "Suc (?k + i)"] calculation(2) that by simp
  ultimately show ?thesis
    by (intro exI [of _ "map2 (\<lambda>e g. \<lparr>se_epoch = e, se_batches = g\<rparr>) [Suc ?k ..< Suc ?k + length ?gs] ?gs"])
      (auto simp: list_all_length map2_map_map [symmetric] nth_append intro!: nth_equalityI simp del: upt_Suc)
qed

section \<open>Torn tails\<close>

lemma read_framed_short:
  assumes "framed_ok torn" "8 \<le> n" "n + length extra < length (framed torn)"
  shows "read_framed (take n (framed torn) @ extra) = Ok None"
proof -
  let ?p = "record_encode torn"
  let ?h = "be_u32 (of_nat (length ?p)) @ be_u32 (crc32 ?p)"
  have cut: "take n (framed torn) @ extra = ?h @ take (n - 8) ?p @ extra" using assms(2) by (simp add: framed_def frame_def)
  have fit: "fits_u32 (length ?p)" using assms(1) by (simp add: framed_ok_def)
  have "take_bytes 8 (?h @ take (n - 8) ?p @ extra) = Some (?h, take (n - 8) ?p @ extra)" by (simp add: take_bytes_def)
  moreover have "take_bytes (length ?p) (take (n - 8) ?p @ extra) = None"
    using assms(2,3) by (simp add: take_bytes_def framed_def)
  ultimately show ?thesis using fit by (simp add: read_framed_def cut)
qed

text \<open>Opening a directory whose segment has a tail that reads as the end.\<close>

lemma log_open_tail:
  assumes "log_holds catalog sync l d hist" "read_framed tail = Ok None" "fi_plan fi = None"
  shows "fst (log_open dir catalog sync (append_file d (lg_segment l) tail) fi) = Ok l"
proof -
  obtain old rs seg snap base where at: "disk_at d old rs seg snap base"
    "l = replay_all (fresh_log sync catalog seg (length (seals_of old)) snap base) rs"
    using assms(1) by (auto simp: log_holds_def log_at_def)
  have seg: "lg_segment l = seg" using at(2) by (simp add: fresh_log_def)
  obtain k where k: "seg = segment_name k" using at(1) by (auto simp: disk_at_def)
  have loc: "locate (append_file d seg tail) = (seg, snap, length (seals_of old))" "seed_dedup (append_file d seg tail) snap = Ok base"
    "append_file d seg tail [] = None"
    using at(1) k pointed_append [of d k snap _ tail] by (auto simp: disk_at_def seed_dedup_append dest: pointed_locate)
  have "append_file d seg tail seg = Some (segment_bytes rs @ tail)"
    using at(1) by (auto simp: append_file_def disk_at_def file_holds_def)
  moreover have "list_all framed_ok rs" using at(1) by (simp add: disk_at_def hist_ok_def)
  ultimately show ?thesis
    unfolding log_open_def seg using loc replay_from_disk_unplanned [OF _ assms(2,3), of rs] at(2) by simp
qed

text \<open>
  C11. A torn write is discarded. If the process dies part of the way through writing any record, so that any
  proper prefix of its frame is at the end of the segment, the directory opens to the log as it was before
  the write.
\<close>

theorem torn_tail_is_discarded:
  assumes "log_run dir catalog sync (Some l) d acked" "framed_ok r" "n < length (framed r)"
  shows "fst (log_open dir catalog sync (append_file d (lg_segment l) (take n (framed r))) inert) = Ok l"
proof -
  obtain hist where "run_inv catalog sync (Some l) d acked hist" using log_run_inv [OF assms(1)] by blast
  then have "log_holds catalog sync l d hist" by (simp add: run_inv_def)
  then show ?thesis by (rule log_open_tail [OF _ read_framed_torn [OF assms(2,3)]]) (simp add: inert_def)
qed

text \<open>
  C9. A batch acknowledged after a torn tail is lost. Opening does not cut the torn bytes off, and the next
  append writes after them: when the torn bytes hold the whole header of a frame that promises more bytes
  than follow once the new record is there, the append is acknowledged, and the next open gives the log
  without the batch and without its token.
\<close>

theorem acknowledgement_after_torn_tail_is_lost:
  assumes "log_run dir catalog sync (Some l) d acked" "framed_ok torn" "8 \<le> n"
    "n + length (framed (LAppend source token table es)) < length (framed torn)"
    "log_append source table es token l (append_file d (lg_segment l) (take n (framed torn))) fi = (Ok Appended, l', d', fi')"
  shows "fst (log_open dir catalog sync (append_file d (lg_segment l) (take n (framed torn))) inert) = Ok l
    \<and> fst (log_open dir catalog sync d' inert) = Ok l \<and> bt_get (lg_dedup l) token = None"
proof -
  let ?r = "LAppend source token table es"
  obtain hist where "run_inv catalog sync (Some l) d acked hist" using log_run_inv [OF assms(1)] by blast
  then have holds: "log_holds catalog sync l d hist" by (simp add: run_inv_def)
  have inert: "fi_plan inert = None" by (simp add: inert_def)
  have "n < length (framed torn)" using assms(4) by simp
  then have first: "fst (log_open dir catalog sync (append_file d (lg_segment l) (take n (framed torn))) inert) = Ok l"
    by (rule log_open_tail [OF holds read_framed_torn [OF assms(2)] inert])
  have "d' = append_file (append_file d (lg_segment l) (take n (framed torn))) (lg_segment l) (framed ?r)
      \<and> bt_get (lg_dedup l) token = None"
    by (cases rule: log_append_cases [OF assms(5)]) auto
  then have d': "d' = append_file d (lg_segment l) (take n (framed torn) @ framed ?r)" "bt_get (lg_dedup l) token = None"
    by (auto simp: append_file_def split: option.split)
  show ?thesis
    using first d' log_open_tail [OF holds read_framed_short [OF assms(2,3,4)] inert] by simp
qed

section \<open>Progress\<close>

lemma log_append_fresh:
  fixes source :: string
  assumes "fi_plan fi = None" "validate_batch (lg_catalog l) table es = Ok ()" "bt_get (lg_dedup l) token = None"
  defines "r \<equiv> LAppend source token table es"
  shows "\<exists>fi'. fi_plan fi' = None \<and> log_append source table es token l d fi
    = (Ok Appended, replay_record l r (length (framed r)), append_file d (lg_segment l) (framed r), fi')"
  using assms(1-3) by (simp add: log_append_def at_seam_unplanned Let_def r_def replay_record_def)

lemma log_seal_fresh:
  fixes l :: log_state
  assumes "fi_plan fi = None"
  defines "r \<equiv> LSealEpoch (Suc (log_sealed_epoch l))"
  shows "\<exists>fi'. fi_plan fi' = None \<and> log_seal l d fi
    = (Ok (Suc (log_sealed_epoch l)), replay_record l r (length (framed r)), append_file d (lg_segment l) (framed r), fi')"
  using assms(1) by (simp add: log_seal_def at_seam_unplanned Let_def r_def replay_record_def)

text \<open>An attempt to append leaves the disk with the history as it was, or with the record if its token was free.\<close>

lemma attempt_history:
  assumes holds: "log_holds catalog sync l d hist" and ok: "framed_ok (LAppend source token table es)"
    and run: "log_append source table es token l d fi = (res, l', d', fi')"
  obtains hist' where "disk_holds d' hist'"
    "hist' = hist \<or> hist' = hist @ [LAppend source token table es] \<and> bt_get (lg_dedup l) token = None"
proof -
  obtain hist' where grown: "hist' \<in> {hist, hist @ [LAppend source token table es]}" "disk_holds d' hist'"
    using log_append_holds [OF holds ok run] by blast
  have "bt_get (lg_dedup l) token = None" if "hist' = hist @ [LAppend source token table es]"
    using disk_holds_ok [OF grown(2)] that log_holds_dedup [OF holds] by (simp add: hist_ok_def)
  then show thesis using that grown by blast
qed

lemma uninterrupted_append:
  assumes holds: "log_holds catalog sync l d hist" and fi: "fi_plan fi = None"
    and valid: "validate_batch (lg_catalog l) table es = Ok ()" and ok: "framed_ok (LAppend source token table es)"
    and known: "bt_get (lg_dedup l) token \<in> {None, Some (content_hash (LAppend source token table es))}"
  obtains a l' d' fi' hist' where "log_append source table es token l d fi = (Ok a, l', d', fi')"
    "log_holds catalog sync l' d' hist'" "bt_get (lg_dedup l') token = Some (content_hash (LAppend source token table es))"
    "hist' = (if bt_get (lg_dedup l) token = None then hist @ [LAppend source token table es] else hist)"
proof (cases "bt_get (lg_dedup l) token")
  case None
  let ?r = "LAppend source token table es" and ?l = "replay_record l (LAppend source token table es) (length (framed (LAppend source token table es)))"
  obtain d' fi' where run: "log_append source table es token l d fi = (Ok Appended, ?l, d', fi')"
    using log_append_fresh [OF fi valid None, of source d] by blast
  obtain hist' where grown: "hist' \<in> {hist, hist @ [?r]}" "\<not> crashed (Ok Appended :: (log_error, ack) result) \<Longrightarrow> log_holds catalog sync ?l d' hist'"
    using log_append_holds [OF holds ok run] by metis
  have after: "log_holds catalog sync ?l d' hist'" using grown(2) by simp
  have now: "bt_get (lg_dedup ?l) token = Some (content_hash ?r)" by (simp add: replay_record_def bt_get_insert)
  have "hist' \<noteq> hist" using now None log_holds_views(3) [OF holds] log_holds_views(3) [OF after] by auto
  then show thesis using that [OF run after now] grown(1) None by simp
next
  case (Some h)
  then have h: "bt_get (lg_dedup l) token = Some (content_hash (LAppend source token table es))" using known by simp
  then obtain fi' where "log_append source table es token l d fi = (Ok DroppedAsReplay, l, d, fi')"
    using log_append_replay [OF fi valid] by blast
  then show thesis using that [OF _ holds h] h by simp
qed

text \<open>
  C8. A client that retries is acknowledged, once. Take a running log, a valid batch that fits a frame and whose
  token the running log does not know, or knows with this batch's content hash, and any outcome of
  appending it, a crash at any seam included. What the attempt left opens, and the same batch is
  acknowledged at the first append no fault interrupts. The token is then in the index with the batch's
  hash, the directory opens to that very log, and the pending batches are those before the first attempt
  followed by this batch exactly once, or exactly those when the token was known.
\<close>

theorem retry_after_crash_is_acknowledged:
  assumes "log_run dir catalog sync (Some l) d acked" "validate_batch catalog table es = Ok ()"
    and ok: "framed_ok (LAppend source token table es)"
    and known: "bt_get (lg_dedup l) token \<in> {None, Some (content_hash (LAppend source token table es))}"
    and first: "log_append source table es token l d fi0 = (res, l0, d0, fi0')" and fi: "fi_plan fi = None"
  shows "\<exists>l1 a l2 d2 fi'. fst (log_open dir catalog sync d0 inert) = Ok l1
    \<and> log_append source table es token l1 d0 fi = (Ok a, l2, d2, fi')
    \<and> bt_get (lg_dedup l2) token = Some (content_hash (LAppend source token table es))
    \<and> fst (log_open dir catalog sync d2 inert) = Ok l2
    \<and> lg_pending l2 = lg_pending l @ (if bt_get (lg_dedup l) token = None
        then [\<lparr>ba_source = source, ba_token = token, ba_table = table, ba_entries = es\<rparr>] else [])"
proof -
  let ?r = "LAppend source token table es"
  let ?b = "\<lparr>ba_source = source, ba_token = token, ba_table = table, ba_entries = es\<rparr>"
  obtain hist where "run_inv catalog sync (Some l) d acked hist" using log_run_inv [OF assms(1)] by blast
  then have holds: "log_holds catalog sync l d hist" by (simp add: run_inv_def)
  obtain hist1 where h1: "disk_holds d0 hist1" "hist1 = hist \<or> hist1 = hist @ [?r] \<and> bt_get (lg_dedup l) token = None"
    by (rule attempt_history [OF holds ok first])
  obtain l1 where l1: "\<And>fi. fi_plan fi = None \<Longrightarrow> fst (log_open dir catalog sync d0 fi) = Ok l1" "log_holds catalog sync l1 d0 hist1"
    using log_open_unplanned [OF h1(1), of dir catalog sync] by blast
  note views = log_holds_views [OF holds] and views1 = log_holds_views [OF l1(2)]
  have valid: "validate_batch (lg_catalog l1) table es = Ok ()" using assms(2) views1(5) by simp
  have known1: "bt_get (lg_dedup l1) token \<in> {None, Some (content_hash ?r)}"
    using h1(2) known views(3) views1(3) by (auto simp: bt_get_insert)
  obtain a l2 d2 fi' hist2 where retry: "log_append source table es token l1 d0 fi = (Ok a, l2, d2, fi')"
      "log_holds catalog sync l2 d2 hist2" "bt_get (lg_dedup l2) token = Some (content_hash ?r)"
      "hist2 = (if bt_get (lg_dedup l1) token = None then hist1 @ [?r] else hist1)"
    by (rule uninterrupted_append [OF l1(2) fi valid ok known1])
  have "bt_get (lg_dedup l1) token = None \<longleftrightarrow> hist1 = hist \<and> bt_get (lg_dedup l) token = None"
    using h1(2) views(3) views1(3) by (auto simp: bt_get_insert)
  then have "hist2 = (if bt_get (lg_dedup l) token = None then hist @ [?r] else hist)" using retry(4) h1(2) by auto
  then have "lg_pending l2 = lg_pending l @ (if bt_get (lg_dedup l) token = None then [?b] else [])"
    using log_holds_views(1) [OF retry(2)] views(1) by (simp add: record_batch_def)
  then show ?thesis using l1(1) [of inert] retry(1,3) log_reopen [OF retry(2), of inert] by (auto simp: inert_def)
qed

section \<open>Records too long for their frame\<close>

text \<open>A reader consumes exactly the bytes that the writer would put for what it returns.\<close>

lemma rd_u64_length: "rd_u64 bs = Ok (w, r) \<Longrightarrow> length bs = 8 + length r"
  by (auto simp: rd_u64_def rd_take_def take_bytes_def result_simps split: if_splits)

lemma rd_string_length: "rd_string bs = Ok (s, r) \<Longrightarrow> length bs = length (put_str s) + length r"
  by (auto simp: rd_string_def rd_take_def take_bytes_def from_utf8_def bytes_str_def put_str_def put_u64_def result_simps
      split: if_splits dest!: rd_u64_length)

lemma rd_value_length: "rd_value bs = Ok (v, r) \<Longrightarrow> length bs = length (put_value v) + length r"
  by (auto simp: rd_value_def rd_u8_def rd_i64_def put_i64_def result_simps split: if_splits list.splits
      dest!: rd_u64_length rd_string_length)

lemma rd_many_length:
  assumes "\<And>bs x r. rd bs = Ok (x, r) \<Longrightarrow> length bs = length (put x) + length r"
  shows "rd_many n rd bs = Ok (xs, r) \<Longrightarrow> length bs = length (concat (map put xs)) + length r"
  by (induction n arbitrary: bs xs) (auto simp: result_simps dest!: assms)

lemma rd_values_length: "rd_many n rd_value bs = Ok (vs, r) \<Longrightarrow> length bs = length (concat (map put_value vs)) + length r"
  by (rule rd_many_length) (rule rd_value_length)

lemma rd_entry_length: "rd_entry bs = Ok (e, r) \<Longrightarrow> length bs = length (put_entry e) + length r"
  by (auto simp: rd_entry_def rd_i64_def put_entry_def put_i64_def put_u64_def result_simps
      dest!: rd_u64_length rd_values_length)

lemma rd_entries_length: "rd_many n rd_entry bs = Ok (es, r) \<Longrightarrow> length bs = length (concat (map put_entry es)) + length r"
  by (rule rd_many_length) (rule rd_entry_length)

lemma record_decode_length: "record_decode p = Ok r \<Longrightarrow> length (record_encode r) \<le> length p"
  by (auto simp: record_decode_def rd_u8_def put_u64_def result_simps split: if_splits list.splits
      dest!: rd_u64_length rd_string_length rd_entries_length)

lemma read_framed_fits:
  assumes "read_framed bs = Ok (Some (r, n, rest))"
  shows "length (record_encode r) < 2 ^ 32"
proof -
  obtain len :: "32 word" and payload where "record_decode payload = Ok r" "length payload = unat len"
    using assms by (auto simp: read_framed_def take_bytes_def Let_def result_simps split: option.splits if_splits)
  moreover have "unat len < 2 ^ 32" using unsigned_less [of len, where ?'a = nat] by simp
  ultimately show ?thesis using record_decode_length [of payload r] by simp
qed

lemma replay_fits:
  assumes "replay_from_disk n bs l fi = (Ok l', fi')" "\<forall>b \<in> set (lg_pending l). length (record_encode (batch_record b)) < 2 ^ 32"
  shows "\<forall>b \<in> set (lg_pending l'). length (record_encode (batch_record b)) < 2 ^ 32"
  using assms
proof (induction n bs l fi rule: replay_from_disk.induct)
  case (1 n bs l fi)
  show ?case
  proof (cases "read_framed bs = Ok None")
    case True
    then show ?thesis using "1.prems" by (simp add: replay_from_disk.simps [of n])
  next
    case False
    then obtain r k rest fi1 where r: "read_framed bs = Ok (Some (r, k, rest))"
      and go: "(if (n + 1) mod 4 = 0 then reached RecoveryMidReplay fi else (False, fi)) = (False, fi1)"
        "replay_from_disk (n + 1) rest (replay_record l r k) fi1 = (Ok l', fi')"
      using "1.prems"(1) by (auto simp: replay_from_disk.simps [of n] split: sum.splits option.splits prod.splits if_splits)
    have "\<forall>b \<in> set (lg_pending (replay_record l r k)). length (record_encode (batch_record b)) < 2 ^ 32"
      using "1.prems"(2) read_framed_fits [OF r] by (cases r) (auto simp: replay_record_def batch_record_def)
    then show ?thesis using "1.IH" [OF r refl refl refl go(1) [symmetric]] go(2) by simp
  qed
qed

lemma log_open_fits:
  assumes "fst (log_open dir catalog sync d fi) = Ok l"
  shows "\<forall>b \<in> set (lg_pending l). length (record_encode (batch_record b)) < 2 ^ 32"
proof -
  obtain segment snapshot retained where loc: "locate d = (segment, snapshot, retained)" by (metis prod_cases3)
  obtain dedup where dedup: "seed_dedup d snapshot = Ok dedup"
    using assms loc by (auto simp: log_open_def split: if_splits sum.splits)
  let ?l = "fresh_log sync catalog segment retained snapshot dedup"
  show ?thesis
  proof (cases "d segment")
    case None
    then show ?thesis using assms loc dedup by (auto simp: log_open_def fresh_log_def split: if_splits)
  next
    case (Some bs)
    then have "fst (replay_from_disk 0 bs ?l fi) = Ok l" using assms loc dedup by (simp add: log_open_def split: if_splits)
    then obtain fi' where "replay_from_disk 0 bs ?l fi = (Ok l, fi')" by (metis prod.collapse)
    then show ?thesis by (rule replay_fits) (simp add: fresh_log_def)
  qed
qed

lemma read_batches_fits:
  assumes "read_batches bs acc = Ok out" "\<forall>b \<in> set acc. length (record_encode (batch_record b)) < 2 ^ 32"
  shows "\<forall>b \<in> set out. length (record_encode (batch_record b)) < 2 ^ 32"
  using assms
proof (induction bs acc rule: read_batches.induct)
  case (1 bs acc)
  show ?case
  proof (cases "read_framed bs = Ok None")
    case True
    then show ?thesis using "1.prems" by (simp add: read_batches.simps [of bs])
  next
    case False
    then obtain s t b es k rest where r: "read_framed bs = Ok (Some (LAppend s t b es, k, rest))"
      and go: "read_batches rest (acc @ [\<lparr>ba_source = s, ba_token = t, ba_table = b, ba_entries = es\<rparr>]) = Ok out"
      using "1.prems"(1) by (auto simp: read_batches.simps [of bs] split: sum.splits option.splits log_record.splits)
    then show ?thesis using "1.IH" [OF r refl refl refl refl] "1.prems"(2) read_framed_fits [OF r]
      by (auto simp: batch_record_def)
  qed
qed

text \<open>
  C10. A batch of 4 GiB or more is acknowledged and lost. The frame keeps the low 32 bits of the payload's
  length, so the record cannot be read back: a valid batch under a free token whose payload has at least
  \<open>2 ^ 32\<close> bytes is acknowledged and pending, and after a restart, however it is opened, the batch is
  neither pending nor in any epoch that can be read.
\<close>

theorem oversized_acknowledgement_is_lost:
  assumes "fi_plan fi = None" "validate_batch (lg_catalog l) table es = Ok ()" "bt_get (lg_dedup l) token = None"
    and big: "2 ^ 32 \<le> length (record_encode (LAppend source token table es))"
  shows "\<exists>l' d' fi'. log_append source table es token l d fi = (Ok Appended, l', d', fi')
    \<and> record_batch (LAppend source token table es) \<in> set (lg_pending l')
    \<and> (\<forall>fi2 l2. fst (log_open dir catalog sync d' fi2) = Ok l2 \<longrightarrow>
        record_batch (LAppend source token table es) \<notin> set (lg_pending l2)
        \<and> (\<forall>e bs. log_epoch d' l2 e = Ok bs \<longrightarrow> record_batch (LAppend source token table es) \<notin> set bs))"
proof -
  let ?r = "LAppend source token table es"
  have long: "\<not> length (record_encode (batch_record (record_batch ?r))) < 2 ^ 32"
    using big by (simp add: batch_record_of_append del: record_encode.simps)
  obtain d' fi' where run: "log_append source table es token l d fi
      = (Ok Appended, replay_record l ?r (length (framed ?r)), d', fi')"
    using log_append_fresh [OF assms(1-3), of source d] by blast
  have "record_batch ?r \<notin> set (lg_pending l2)" if "fst (log_open dir catalog sync d' fi2) = Ok l2" for fi2 l2
    using log_open_fits [OF that] long by blast
  moreover have "record_batch ?r \<notin> set bs" if "log_epoch d' l2 e = Ok bs" for l2 e bs
    using that long read_batches_fits [of _ "[]" bs]
    by (auto simp: log_epoch_def read_span_def result_simps split: if_splits option.splits)
  moreover have "record_batch ?r \<in> set (lg_pending (replay_record l ?r n))" for n
    by (simp add: replay_record_def record_batch_def)
  ultimately show ?thesis using run by blast
qed

section \<open>A run\<close>

definition demo_catalog :: "(string, schema) btree" where
  "demo_catalog = [(''t'', \<lparr>sc_fields = [field_not_null ''a'' Int64]\<rparr>)]"

definition demo_record :: "string \<Rightarrow> log_record" where
  "demo_record k = LAppend ''s'' k ''t'' [([VInt 1], 1)]"

definition demo_log :: log_state where
  "demo_log = fresh_log SyncFull demo_catalog default_segment 0 None []"

text \<open>The log and the disk after an append, and after a seal.\<close>

definition demo_log1 :: log_state where
  "demo_log1 = replay_all demo_log [demo_record ''k'']"

definition demo_disk1 :: disk where
  "demo_disk1 = append_file Map.empty default_segment (framed (demo_record ''k''))"

definition demo_log2 :: log_state where
  "demo_log2 = replay_all demo_log [demo_record ''k'', LSealEpoch 1]"

definition demo_disk2 :: disk where
  "demo_disk2 = append_file demo_disk1 default_segment (framed (LSealEpoch 1))"

lemma demo_valid: "validate_batch demo_catalog ''t'' [([VInt 1], 1)] = Ok ()"
  by code_simp

lemma demo_record_ok: "framed_ok (demo_record ''k'')" "framed_ok (demo_record ''j'')" "framed_ok (LSealEpoch 1)"
  by (simp_all add: framed_ok_def demo_record_def str_ok_def str_bytes_def fits_u64_def fits_u32_def put_str_def put_u64_def
      put_entry_def put_i64_def list_all_iff cell_ok_def i64_defs)

lemma demo_run0: "log_run ''d'' demo_catalog SyncFull (Some demo_log) Map.empty []"
  by (rule run_open [OF run_init, of _ _ _ inert _ inert])
    (simp add: log_open_def locate_def read_pointer_def seed_dedup_def demo_log_def)

lemma demo_append1:
  obtains fi' where "fi_plan fi' = None"
    "log_append ''s'' ''t'' [([VInt 1], 1)] ''k'' demo_log Map.empty inert = (Ok Appended, demo_log1, demo_disk1, fi')"
proof -
  have "\<exists>fi'. fi_plan fi' = None \<and> log_append ''s'' ''t'' [([VInt 1], 1)] ''k'' demo_log Map.empty inert
    = (Ok Appended, replay_record demo_log (demo_record ''k'') (length (framed (demo_record ''k''))),
       append_file Map.empty (lg_segment demo_log) (framed (demo_record ''k'')), fi')"
    unfolding demo_record_def
    by (rule log_append_fresh) (simp_all add: demo_log_def fresh_log_def demo_valid inert_def bt_get_def)
  then show thesis using that by (auto simp: demo_log1_def demo_disk1_def demo_log_def fresh_log_def)
qed

lemma demo_run1: "log_run ''d'' demo_catalog SyncFull (Some demo_log1) demo_disk1 [(Appended, demo_record ''k'')]"
proof -
  obtain fi' where "log_append ''s'' ''t'' [([VInt 1], 1)] ''k'' demo_log Map.empty inert = (Ok Appended, demo_log1, demo_disk1, fi')"
    by (rule demo_append1)
  from run_append [OF demo_run0 _ this] show ?thesis using demo_record_ok(1) by (simp add: demo_record_def)
qed

lemma demo_sealed1: "log_sealed_epoch demo_log1 = 0" "lg_segment demo_log1 = default_segment"
  by (simp_all add: demo_log1_def demo_log_def fresh_log_def log_sealed_epoch_def demo_record_def replay_record_def)

lemma demo_run2: "log_run ''d'' demo_catalog SyncFull (Some demo_log2) demo_disk2 [(Appended, demo_record ''k'')]"
proof -
  have "demo_log2 = replay_record demo_log1 (LSealEpoch 1) (length (framed (LSealEpoch 1)))"
    by (simp add: demo_log2_def demo_log1_def)
  then obtain fi' where "log_seal demo_log1 demo_disk1 inert = (Ok 1, demo_log2, demo_disk2, fi')"
    using log_seal_fresh [of inert demo_log1 demo_disk1] unfolding demo_sealed1 demo_disk2_def by (auto simp: inert_def)
  from run_seal [OF demo_run1 _ this] show ?thesis by (simp add: demo_sealed1 fits_u64_def)
qed

lemma demo_log2_facts:
  "log_sealed_epoch demo_log2 = 1" "lg_retained_from demo_log2 = 0" "lg_segment demo_log2 = default_segment" "lg_snapshot demo_log2 = None"
  "lg_catalog demo_log2 = demo_catalog" "lg_dedup demo_log2 = [(''k'', content_hash (demo_record ''k''))]"
  by (simp_all add: demo_log2_def demo_log_def fresh_log_def log_sealed_epoch_def demo_record_def replay_record_def)

section \<open>The properties on that run\<close>

theorem acknowledged_batch_is_replayed_once_witness:
  "\<exists>l. fst (log_open ''d'' demo_catalog SyncFull demo_disk1 inert) = Ok l
    \<and> (\<exists>fi'. log_append ''s'' ''t'' [([VInt 1], 1)] ''k'' l demo_disk1 inert = (Ok DroppedAsReplay, l, demo_disk1, fi'))"
  by (rule acknowledged_batch_is_replayed_once [OF demo_run1, of Appended]) (simp_all add: demo_record_def inert_def)

theorem log_holds_each_batch_once_witness:
  "\<exists>bs. log_batches demo_disk2 demo_log2 = Ok bs \<and> distinct (map ba_token bs) \<and> record_batch (demo_record ''k'') \<in> set bs"
  using log_holds_each_batch_once [OF demo_run2] by (auto simp: demo_log2_facts)

theorem reopening_restores_the_log_witness: "fst (log_open ''d'' demo_catalog SyncFull demo_disk2 inert) = Ok demo_log2"
  by (rule reopening_restores_the_log [OF demo_run2]) (simp add: inert_def)

theorem sealed_epochs_are_immutable_witness:
  "\<exists>l1 d1 fi1 l2 d2 fi2. log_append ''s'' ''t'' [([VInt 1], 1)] ''j'' demo_log2 demo_disk2 inert = (Ok Appended, l1, d1, fi1)
    \<and> log_seal l1 d1 fi1 = (Ok 2, l2, d2, fi2) \<and> log_epoch d1 l1 1 = log_epoch demo_disk2 demo_log2 1
    \<and> log_epoch d2 l2 1 = log_epoch demo_disk2 demo_log2 1"
proof -
  obtain l1 d1 fi1 where first: "log_append ''s'' ''t'' [([VInt 1], 1)] ''j'' demo_log2 demo_disk2 inert = (Ok Appended, l1, d1, fi1)"
    "fi_plan fi1 = None" "l1 = replay_record demo_log2 (demo_record ''j'') (length (framed (demo_record ''j'')))"
    using log_append_fresh [of inert demo_log2 "''t''" "[([VInt 1], 1)]" "''j''" "''s''" demo_disk2]
    by (auto simp: inert_def demo_log2_facts demo_valid bt_get_def demo_record_def)
  have sealed: "log_sealed_epoch l1 = 1" using demo_log2_facts(1) by (simp add: first(3) replay_record_def demo_record_def log_sealed_epoch_def)
  obtain l2 d2 fi2 where second: "log_seal l1 d1 fi1 = (Ok 2, l2, d2, fi2)"
    using log_seal_fresh [OF first(2), of l1 d1] sealed by auto
  have "log_epoch d1 l1 1 = log_epoch demo_disk2 demo_log2 1 \<and> log_epoch d2 l2 1 = log_epoch demo_disk2 demo_log2 1"
    by (rule sealed_epochs_are_immutable [OF demo_run2 _ _ _ first(1) _ _ second])
      (use demo_record_ok(2) in \<open>simp_all add: demo_log2_facts demo_record_def sealed fits_u64_def\<close>)
  then show ?thesis using first(1) second by blast
qed

text \<open>The same log with a snapshot published at epoch 1.\<close>

definition demo_disk3 :: disk where
  "demo_disk3 = demo_disk2(manifest_path ''snap'' \<mapsto> [], ledger_path ''snap'' \<mapsto> dedup_encode (lg_dedup demo_log2))"

lemma demo_run3: "log_run ''d'' demo_catalog SyncFull (Some demo_log2) demo_disk3 [(Appended, demo_record ''k'')]"
  unfolding demo_disk3_def by (rule run_publish [OF demo_run2]) (simp add: demo_log2_facts)

lemma demo_published: "published demo_disk3 demo_log2 ''snap''"
  by (simp add: published_def demo_disk3_def name_ok_def str_ok_def str_bytes_def ledger_ok_def demo_log2_facts fits_u64_def
      manifest_path_def ledger_path_def)

theorem compaction_keeps_what_it_must_witness:
  "\<exists>res l' d' fi' l2. log_compact 1 (Some ''snap'') demo_log2 demo_disk3 inert = (res, l', d', fi')
    \<and> fst (log_open ''d'' demo_catalog SyncFull d' inert) = Ok l2 \<and> log_sealed_epoch l2 = 1 \<and> lg_dedup l2 = lg_dedup demo_log2"
proof -
  obtain res l' d' fi' where run: "log_compact 1 (Some ''snap'') demo_log2 demo_disk3 inert = (res, l', d', fi')" by (metis prod.exhaust)
  show ?thesis using compaction_keeps_what_it_must [OF demo_run3 demo_published run] run demo_log2_facts(1) by auto
qed

theorem streamed_epochs_are_the_log_witness:
  "\<exists>er xs. epochs_open demo_disk2 default_segment = Ok er \<and> epochs_collect er = (xs, None) \<and> map se_epoch xs = [1]"
proof -
  obtain er where er: "epochs_open demo_disk2 default_segment = Ok er"
    by (simp add: epochs_open_def demo_disk2_def append_file_def)
  then show ?thesis
    using streamed_epochs_are_the_log [OF demo_run2, of er] by (auto simp: demo_log2_facts)
qed

theorem torn_tail_is_discarded_witness:
  "fst (log_open ''d'' demo_catalog SyncFull (append_file demo_disk2 default_segment (take 8 (framed (demo_record ''j'')))) inert) = Ok demo_log2"
  using torn_tail_is_discarded [OF demo_run2 demo_record_ok(2), of 8]
  by (simp add: demo_log2_facts framed_def demo_record_def put_str_def put_u64_def)

definition demo_torn :: log_record where
  "demo_torn = LAppend ''s'' ''x'' ''t'' [([VInt 1], 1), ([VInt 1], 1)]"

theorem acknowledgement_after_torn_tail_is_lost_witness:
  "\<exists>l' d' fi'. log_append ''s'' ''t'' [([VInt 1], 1)] ''j'' demo_log2 (append_file demo_disk2 default_segment (take 8 (framed demo_torn))) inert
      = (Ok Appended, l', d', fi')
    \<and> fst (log_open ''d'' demo_catalog SyncFull d' inert) = Ok demo_log2 \<and> bt_get (lg_dedup demo_log2) ''j'' = None"
proof -
  have torn: "framed_ok demo_torn"
    by (simp add: framed_ok_def demo_torn_def str_ok_def str_bytes_def fits_u64_def fits_u32_def put_str_def put_u64_def
        put_entry_def put_i64_def list_all_iff cell_ok_def i64_defs)
  have longer: "8 + length (framed (LAppend ''s'' ''j'' ''t'' [([VInt 1], 1)])) < length (framed demo_torn)"
    by (simp add: framed_def demo_torn_def put_str_def put_u64_def put_entry_def put_i64_def)
  obtain l' d' fi' where run: "log_append ''s'' ''t'' [([VInt 1], 1)] ''j'' demo_log2
      (append_file demo_disk2 (lg_segment demo_log2) (take 8 (framed demo_torn))) inert = (Ok Appended, l', d', fi')"
    using log_append_fresh [of inert demo_log2 "''t''" "[([VInt 1], 1)]" "''j''" "''s''"
        "append_file demo_disk2 (lg_segment demo_log2) (take 8 (framed demo_torn))"]
    by (auto simp: inert_def demo_log2_facts demo_valid bt_get_def)
  show ?thesis
    using acknowledgement_after_torn_tail_is_lost [OF demo_run2 torn _ longer run] run by (auto simp: demo_log2_facts)
qed

text \<open>An append that dies after its bytes are on the disk and before the index knows, and the retry.\<close>

theorem retry_after_crash_is_acknowledged_witness:
  "\<exists>l0 d0 fi0 l1 a l2 d2 fi'. log_append ''s'' ''t'' [([VInt 1], 1)] ''j'' demo_log2 demo_disk2
        (planned \<lparr>fp_seam = AckAfterFsyncBeforeIndex, fp_occurrence = 1\<rparr>)
      = (Err (InjectedFault (seam_name AckAfterFsyncBeforeIndex)), l0, d0, fi0)
    \<and> fst (log_open ''d'' demo_catalog SyncFull d0 inert) = Ok l1
    \<and> log_append ''s'' ''t'' [([VInt 1], 1)] ''j'' l1 d0 inert = (Ok a, l2, d2, fi')
    \<and> map ba_token (lg_pending l2) = [''j'']"
proof -
  have free: "bt_get (lg_dedup demo_log2) ''j'' = None" and none: "lg_pending demo_log2 = []"
    by (simp_all add: demo_log2_facts bt_get_def demo_log2_def demo_log_def fresh_log_def replay_record_def demo_record_def)
  have "fst (log_append ''s'' ''t'' [([VInt 1], 1)] ''j'' demo_log2 demo_disk2
      (planned \<lparr>fp_seam = AckAfterFsyncBeforeIndex, fp_occurrence = 1\<rparr>)) = Err (InjectedFault (seam_name AckAfterFsyncBeforeIndex))"
    using free by (simp add: log_append_def at_seam_def reached_def planned_def inert_def Let_def demo_log2_facts demo_valid
        bt_get_or_def bt_get_insert)
  then obtain l0 d0 fi0 where first: "log_append ''s'' ''t'' [([VInt 1], 1)] ''j'' demo_log2 demo_disk2
      (planned \<lparr>fp_seam = AckAfterFsyncBeforeIndex, fp_occurrence = 1\<rparr>)
      = (Err (InjectedFault (seam_name AckAfterFsyncBeforeIndex)), l0, d0, fi0)"
    by (metis prod.collapse)
  have "framed_ok (LAppend ''s'' ''j'' ''t'' [([VInt 1], 1)])" using demo_record_ok(2) by (simp add: demo_record_def)
  from retry_after_crash_is_acknowledged [OF demo_run2 demo_valid this _ first, of inert] free none first
  show ?thesis by (auto simp: inert_def)
qed

text \<open>A token of \<open>2 ^ 32\<close> bytes makes the payload too long.\<close>

definition demo_long_token :: string where
  "demo_long_token = replicate (2 ^ 32) CHR ''k''"

theorem oversized_acknowledgement_is_lost_witness:
  "\<exists>l' d' fi'. log_append ''s'' ''t'' [([VInt 1], 1)] demo_long_token demo_log2 demo_disk2 inert = (Ok Appended, l', d', fi')
    \<and> (\<forall>l2. fst (log_open ''d'' demo_catalog SyncFull d' inert) = Ok l2 \<longrightarrow>
        record_batch (LAppend ''s'' demo_long_token ''t'' [([VInt 1], 1)]) \<notin> set (lg_pending l2))"
proof -
  have len: "length demo_long_token = 2 ^ 32" by (simp only: demo_long_token_def length_replicate)
  have "demo_long_token \<noteq> ''k''"
  proof
    assume "demo_long_token = ''k''"
    then have "length demo_long_token = length ''k''" by (rule arg_cong)
    then show False unfolding len by simp
  qed
  then have free: "bt_get (lg_dedup demo_log2) demo_long_token = None" by (simp add: demo_log2_facts bt_get_def)
  have "2 ^ 32 \<le> length (record_encode (LAppend ''s'' demo_long_token ''t'' [([VInt 1], 1)]))"
    using len by (simp add: put_str_def)
  from oversized_acknowledgement_is_lost [OF _ _ free this, of inert demo_disk2 "''d''" demo_catalog SyncFull]
  show ?thesis by (simp add: inert_def demo_log2_facts demo_valid) blast
qed

end
