(* ===== verification/Log_Reader.thy ===== *)
theory Log_Reader
  imports Log
begin

text \<open>
  The readers of a segment that go through a buffered file (\<open>read_one\<close> and \<open>fill\<close> of \<open>schweep-log/src/log.rs\<close>,
  \<open>next_record\<close> of \<open>stream.rs\<close>). A reader hands out the file in pieces of its own choosing, here a list of
  chunks; whatever the pieces, the records are those the slice reader finds in the whole.
\<close>

section \<open>Reading in pieces\<close>

type_synonym chunks = "bytes list"

text \<open>\<open>Read::read\<close> into a buffer of \<open>n\<close> bytes: at most one piece, and nothing at the end of the file.\<close>

fun read_some :: "nat \<Rightarrow> chunks \<Rightarrow> bytes \<times> chunks" where
  "read_some n [] = ([], [])"
| "read_some n (c # cs) = (if length c \<le> n then (c, cs) else (take n c, drop n c # cs))"

definition chunks_ok :: "chunks \<Rightarrow> bool" where
  "chunks_ok cs \<longleftrightarrow> [] \<notin> set cs"

function fill :: "nat \<Rightarrow> chunks \<Rightarrow> bytes \<Rightarrow> (bytes \<times> chunks) option" where
  "fill n cs got = (if n \<le> length got then Some (got, cs)
    else case read_some (n - length got) cs of (piece, rest) \<Rightarrow>
      if piece = [] then None else fill n rest (got @ piece))"
  by pat_completeness auto
termination
  by (relation "measure (\<lambda>(n, cs, got). n - length got)") (auto simp: diff_less_mono2)

declare fill.simps [simp del]

definition read_one :: "chunks \<Rightarrow> (log_error, (log_record \<times> nat \<times> chunks) option) result" where
  "read_one cs = (case fill 8 cs [] of
      None \<Rightarrow> Ok None
    | Some (header, cs1) \<Rightarrow>
        let len = unat (u32_be (take 4 header)); expected = u32_be (drop 4 header) in
        case fill len cs1 [] of
          None \<Rightarrow> Ok None
        | Some (payload, rest) \<Rightarrow>
            if crc32 payload \<noteq> expected then Ok None
            else bindR (record_decode payload) (\<lambda>rec. Ok (Some (rec, 8 + len, rest))))"

definition next_record :: "chunks \<Rightarrow> (log_error, (log_record \<times> chunks) option) result" where
  "next_record cs = (case fill 8 cs [] of
      None \<Rightarrow> Ok None
    | Some (header, cs1) \<Rightarrow>
        (case fill (unat (u32_be (take 4 header))) cs1 [] of
          None \<Rightarrow> Ok None
        | Some (payload, rest) \<Rightarrow>
            if crc32 payload \<noteq> u32_be (drop 4 header) then Ok None
            else bindR (record_decode payload) (\<lambda>rec. Ok (Some (rec, rest)))))"

section \<open>The pieces do not matter\<close>

lemma read_some_concat:
  "read_some n cs = (piece, rest) \<Longrightarrow> chunks_ok cs \<Longrightarrow> 0 < n
    \<Longrightarrow> concat cs = piece @ concat rest \<and> chunks_ok rest \<and> length piece \<le> n \<and> (piece = [] \<longrightarrow> cs = [])"
  by (cases cs) (auto simp: chunks_ok_def split: if_splits)

lemma fill_chunks:
  assumes "chunks_ok cs" "length got \<le> n"
  shows "case take_bytes (n - length got) (concat cs) of
      None \<Rightarrow> fill n cs got = None
    | Some (xs, ys) \<Rightarrow> (\<exists>rest. fill n cs got = Some (got @ xs, rest) \<and> concat rest = ys \<and> chunks_ok rest)"
  using assms
proof (induction n cs got rule: fill.induct)
  case (1 n cs got)
  show ?case
  proof (cases "n \<le> length got")
    case True
    then have "fill n cs got = Some (got, cs)" by (simp add: fill.simps)
    then show ?thesis using 1 True by (simp add: take_bytes_def)
  next
    case False
    obtain piece rest where piece: "read_some (n - length got) cs = (piece, rest)" by fastforce
    have parts: "concat cs = piece @ concat rest" "chunks_ok rest" "length piece \<le> n - length got" "piece = [] \<Longrightarrow> cs = []"
      using read_some_concat [OF piece "1.prems"(1)] False by auto
    show ?thesis
    proof (cases "piece = []")
      case True
      then show ?thesis using False piece parts(4) by (simp add: fill.simps [of n] take_bytes_def)
    next
      case more: False
      have step: "fill n cs got = fill n rest (got @ piece)" using False piece more by (simp add: fill.simps [of n cs])
      have short: "length (got @ piece) \<le> n" using parts(3) False by simp
      show ?thesis
        using "1.IH" [OF False piece [symmetric] more parts(2) short] False parts(1,3) step
        by (auto simp: take_bytes_def split: if_splits)
    qed
  qed
qed

lemma fill_whole:
  assumes "chunks_ok cs"
  obtains "take_bytes n (concat cs) = None" "fill n cs [] = None"
  | xs rest where "take_bytes n (concat cs) = Some (xs, concat rest)" "fill n cs [] = Some (xs, rest)" "chunks_ok rest"
  using fill_chunks [OF assms, of "[]" n] by (auto split: option.splits)

text \<open>
  C14. The buffered readers read what the slice reader reads. However the file comes out of its buffer, the
  reader of the opening scan and the reader of the epoch stream give the record, the end or the error that
  \<open>read_framed\<close> gives on the bytes left, and leave the same bytes unread.
\<close>

theorem buffered_readers_agree:
  assumes "chunks_ok cs"
  shows "(case read_one cs of Inl e \<Rightarrow> Err e | Inr None \<Rightarrow> Ok None | Inr (Some (r, n, rest)) \<Rightarrow> Ok (Some (r, n, concat rest)))
      = read_framed (concat cs)
    \<and> next_record cs = (case read_one cs of Inl e \<Rightarrow> Err e | Inr None \<Rightarrow> Ok None | Inr (Some (r, n, rest)) \<Rightarrow> Ok (Some (r, rest)))"
proof (cases rule: fill_whole [OF assms, of 8])
  case 1
  then show ?thesis by (simp add: read_one_def next_record_def read_framed_def)
next
  case (2 header cs1)
  show ?thesis
  proof (cases rule: fill_whole [OF 2(3), of "unat (u32_be (take 4 header))"])
    case 1
    then show ?thesis using 2 by (simp add: read_one_def next_record_def read_framed_def)
  next
    case (2 payload rest)
    show ?thesis
      using 2 \<open>take_bytes 8 (concat cs) = _\<close> \<open>fill 8 cs [] = _\<close>
      by (cases "record_decode payload") (simp_all add: read_one_def next_record_def read_framed_def)
  qed
qed

definition ex_pieces :: "bytes list" where
  "ex_pieces = [take 5 (framed (LSealEpoch 3)), take 7 (drop 5 (framed (LSealEpoch 3))), drop 12 (framed (LSealEpoch 3)) @ [0]]"

theorem buffered_readers_agree_witness:
  "(\<exists>rest. read_one ex_pieces = Ok (Some (LSealEpoch 3, 17, rest)) \<and> next_record ex_pieces = Ok (Some (LSealEpoch 3, rest)) \<and> concat rest = [0])
    \<and> next_record [[0, 0], [0, 9, 0], [0, 0, 0, 2]] = Ok None"
proof -
  have len: "length (framed (LSealEpoch 3)) = 17" by (simp add: framed_def put_u64_def)
  have ok: "chunks_ok ex_pieces" "chunks_ok [[0, 0], [0, 9, 0], [0, 0, 0, 2]]"
    using len by (auto simp: chunks_ok_def ex_pieces_def)
  have "drop 5 (framed (LSealEpoch 3)) = take 7 (drop 5 (framed (LSealEpoch 3))) @ drop 12 (framed (LSealEpoch 3))"
    using append_take_drop_id [of 7 "drop 5 (framed (LSealEpoch 3))", symmetric] by simp
  then have "concat ex_pieces = framed (LSealEpoch 3) @ [0]" by (simp add: ex_pieces_def flip: append_assoc)
  moreover have "framed_ok (LSealEpoch 3)" by (simp add: framed_ok_def fits_u64_def fits_u32_def put_u64_def)
  ultimately have "read_framed (concat ex_pieces) = Ok (Some (LSealEpoch 3, 17, [0]))" using read_framed_whole len by simp
  moreover have "read_framed (concat [[0, 0], [0, 9, 0], [0, 0, 0, 2]]) = Ok None" by code_simp
  ultimately show ?thesis
    using buffered_readers_agree [OF ok(1)] buffered_readers_agree [OF ok(2)] by (auto split: sum.splits option.splits)
qed

end
