(* ===== verification/Spec2Isabelle.thy ===== *)
theory Spec2Isabelle
  imports Circuit_Claims Equivalence Snapshot Log_Claims Log_Reader
begin

text \<open>
  A verification development for MutinyDB.

  \<^bold>\<open>The program.\<close> MutinyDB (\<open>src/\<close>) joins three engines over one storage substrate. \<open>components/schweep\<close>
  maintains the answers of standing SQL queries incrementally; \<open>components/loomdb\<close> gives agents branches,
  capabilities and provenance; \<open>components/prismdb\<close> is a vector search engine; \<open>components/substrate\<close>
  stores pages and the write-ahead log; \<open>crates/\<close> (the \<open>mutiny-*\<close> crates and \<open>mutinyd\<close>) bind them
  into one server. The development is about Schweep, the engine whose promises the others build on: a
  query is bound (\<open>schweep-plan\<close>), compiled to a plan of operators (\<open>schweep-sql\<close>), instantiated as a
  circuit (\<open>schweep-circuit\<close>) of operators (\<open>schweep-ops\<close>) that keep their state in a backend
  (\<open>schweep-state\<close>), and from then on every sealed epoch of changes moves the answer, while a naive
  engine (\<open>schweep-oracle\<close>) defines what the answer has to be.

  \<^bold>\<open>Conventions.\<close> Fallible code returns a sum (\<open>Err\<close>/\<open>Ok\<close>); a method that mutates and may fail returns
  its result paired with the state it leaves, also on failure. An \<open>i64\<close> is an \<open>int\<close> kept in range by the
  checked operations of the source (\<open>checked_add\<close> and so on), or wrapped where the source uses plain \<open>+=\<close>
  (a release build wraps there, a debug build panics); \<open>usize\<close> counters saturate where the source saturates.
  Epoch numbers and file positions are naturals; where they are written out, that they fit is a condition. An \<open>f64\<close> is its 64-bit pattern; the single
  division of \<open>AVG\<close> is computed on exact integers and rounded to nearest even. A \<open>BTreeMap\<close> is a sorted
  association list, a \<open>String\<close> a list of characters, a row a list of values.

  \<^bold>\<open>Theories and sources.\<close>
  \<^item> \<open>Prelude\<close>, \<open>Ordered_Map\<close>: results, checked integers, folds that stop at an error, sorted maps.
  \<^item> \<open>Values\<close>, \<open>Schemas\<close>, \<open>ZSet\<close>, \<open>ZSet_Props\<close>: \<open>schweep-zset\<close> (\<open>value.rs\<close>, \<open>row.rs\<close>, \<open>schema.rs\<close>,
    \<open>zset.rs\<close>, \<open>deltas.rs\<close>). Batches are columns with weights; the abstraction \<open>zw\<close> reads a batch as the
    function from rows to total weights.
  \<^item> \<open>Plan\<close>, \<open>Bind\<close>: \<open>schweep-plan\<close> (\<open>plan.rs\<close>, \<open>error.rs\<close>, \<open>eval.rs\<close>, \<open>bind.rs\<close>): evaluation and binding, and
    that evaluation respects the types the binder assigned.
  \<^item> \<open>State\<close>: \<open>schweep-state\<close> (\<open>backend.rs\<close>, \<open>mem.rs\<close>, \<open>batch.rs\<close>): the backend interface as a locale,
    the in-memory backend as its instance, prefix scans.
  \<^item> \<open>Operators\<close>, \<open>Linear\<close>, \<open>Distinct\<close>, \<open>Join\<close>, \<open>Float_Avg\<close>, \<open>Aggregate\<close>, \<open>Aggregate_Props\<close>, \<open>Operator_Trait\<close>:
    \<open>schweep-ops\<close>. The locale \<open>incremental_operator\<close> states what an operator owes the circuit; each
    operator, and the dynamic dispatch over them, is an interpretation.
  \<^item> \<open>Result_Store\<close>, \<open>Circuit\<close>, \<open>Circuit_Props\<close>, \<open>Circuit_Reach\<close>, \<open>Circuit_Claims\<close>: \<open>schweep-circuit\<close>. The
    inductive predicate \<open>reach\<close> closes the empty circuit under the successful calls of \<open>attach_source\<close>, \<open>attach\<close>,
    \<open>remove\<close>, \<open>add_sink\<close>, \<open>remove_sink\<close>, \<open>set_epoch\<close>, \<open>prime\<close>, \<open>catch_up\<close> and \<open>step\<close>, and carries, as ghosts, what
    each node has emitted and raised. \<open>rewire_inputs\<close>, \<open>repoint_sink\<close> and \<open>refresh_ancestors\<close>, by which the registry
    splices a query onto shared nodes, are defined and not part of \<open>reach\<close>; nor are the states that failed
    calls leave.
  \<^item> \<open>Circuit_Plan\<close>, \<open>Circuit_Built\<close>: \<open>schweep-sql\<close> (\<open>circuit_plan.rs\<close>, \<open>incremental.rs\<close>, \<open>instantiate.rs\<close>): from
    a query to a circuit, and that the circuit built for a plan computes the plan node by node.
  \<^item> \<open>Oracle\<close>, \<open>Oracle_Props\<close>: \<open>schweep-oracle\<close>, the reference engine.
  \<^item> \<open>Bytes\<close>, \<open>Codec\<close>, \<open>Snapshot\<close>: byte strings and big-endian words, the key codec of \<open>schweep-state\<close>
    (\<open>codec.rs\<close>), and \<open>snapshot\<close>/\<open>restore\<close> of backends, operators, stores and circuits.
  \<^item> \<open>Text_Format\<close>, \<open>Log_Fault\<close>, \<open>Log_Record\<close>, \<open>Log_Pointer\<close>, \<open>Log\<close>, \<open>Log_Reader\<close>: \<open>schweep-log\<close>
    (\<open>fault.rs\<close>, \<open>record.rs\<close>, \<open>error.rs\<close>, \<open>dedup.rs\<close>, \<open>log.rs\<close>, \<open>stream.rs\<close>) over a disk that maps paths to
    contents. \<open>Log_Props\<close>, \<open>Log_Inv\<close>, \<open>Log_Compact\<close> hold its invariant, \<open>Log_Run\<close> the inductive predicate
    \<open>log_run\<close> of runs of opens, appends of batches that fit a frame, seals, snapshot publications and
    compactions, with crashes between them and at the seams the code names, and \<open>Log_Claims\<close> what holds of it.
    A write that stops between two bytes of a record is not a step of \<open>log_run\<close>; its consequences are stated on
    their own.
  \<^item> \<open>Group_Equiv\<close>, \<open>Group_Stage\<close>, \<open>Equivalence\<close>: the agreement of the two engines, stage by stage.

  \<^bold>\<open>What is shown.\<close> Consolidated batches are canonical; sums of batches agree up to canonical form in either
  order wherever both have one, and when one has none is characterised; evaluation is type sound; the
  backend and its scans behave as a map, and its writes are atomic; every operator emits exactly the change
  of its specification; the answer of a sink of a reachable circuit is the integral of its stream or the least
  live error; the check of declared state bounds never trips; the state is independent of how changes are
  divided into epochs. Whenever the reference engine has an answer, the circuit of the query has the same
  one, grouped queries included; when evaluating a query without \<open>GROUP BY\<close> raises, both report the same error.
  Encoded keys sort as the keys do, and a restored circuit is the one that was saved and continues like it. The
  log keeps every acknowledged batch exactly once across reopening, compaction and crashes at the seams, and
  discards a torn write.

  \<^bold>\<open>Where the code falls short.\<close> These are theorems too. A group one of whose members raises still emits its row, which
  S-22a of the semantics excludes, and the weights of one epoch are added without a check inside an
  aggregate, so a group may vanish at weight \<open>2 ^ 64\<close>; the properties of the aggregate are therefore stated modulo
  \<open>2 ^ 64\<close> (\<open>Aggregate_Props\<close>). A grouped query whose aggregates raise different errors may answer another error
  than the reference engine (\<open>Equivalence\<close>). One order of adding two batches may overflow where the other does not
  (\<open>ZSet_Props\<close>). A batch acknowledged after an open that met a torn tail can be lost, and a batch whose payload has
  4 GiB or more is (\<open>Log_Claims\<close>); the blocks of a snapshot have the same limit, which is a condition of recovery
  (\<open>Snapshot\<close>).

  \<^bold>\<open>Bounds.\<close> There is no fuel in the model: every loop of the modelled code is a structural recursion or
  comes with a termination proof.

  \<^bold>\<open>Not modelled.\<close> Code whose meaning is a third-party crate or a device: the Arrow door of
  \<open>zset.rs\<close>, \<open>redb_backend.rs\<close>, the SQL text front end over the AST of \<open>sqlparser\<close>, sockets, threads,
  failures of the operating system's file calls, cryptography, and the floating-point kernels of the vector engine.
\<close>

end
